(* ===== verification/Prelude.thy ===== *)
theory Prelude
  imports Main "HOL-Library.Char_ord" "HOL-Library.List_Lexorder"
begin

text \<open>
  The shared base of the development: Rust's unsigned and signed 64-bit arithmetic written out on
  \<^typ>\<open>nat\<close> and \<^typ>\<open>int\<close>, the string operations of the Rust standard library the sources use,
  JSON values as serde\_json represents them, the state-and-error monad in which fallible code is
  written, the SQL connection that every database operation runs on, and generic lemmas on lists
  seen as database tables.
\<close>

named_theorems sm_simps \<open>unfolding rules of the state-and-error monad\<close>
named_theorems json_simps \<open>evaluation of JSON accessors\<close>
named_theorems str_simps \<open>evaluation of string operations\<close>
named_theorems nofail_intros \<open>rules for programs that never fail\<close>
named_theorems preserves_intros \<open>syntax-directed rules for preservation through the monad\<close>

section \<open>Machine integers\<close>

text \<open>
  An unsigned 64-bit integer is a \<^typ>\<open>nat\<close>; its saturating operations are written out. SQLite's
  INTEGER column is a signed 64-bit integer, an \<^typ>\<open>int\<close>. The Rust cast \<^verbatim>\<open>x as i64\<close> of an
  unsigned value reinterprets the bits; reading a column back with \<^verbatim>\<open>.max(0) as u64\<close> is
  \<^const>\<open>nat\<close>.
\<close>

definition u64_max :: nat where
  "u64_max = 2 ^ 64 - 1"

definition saturating_add :: "nat \<Rightarrow> nat \<Rightarrow> nat" where
  "saturating_add a b = min (a + b) u64_max"

definition saturating_mul :: "nat \<Rightarrow> nat \<Rightarrow> nat" where
  "saturating_mul a b = min (a * b) u64_max"

definition saturating_sub :: "nat \<Rightarrow> nat \<Rightarrow> nat" where
  "saturating_sub a b = a - b"

definition as_i64 :: "nat \<Rightarrow> int" where
  "as_i64 n = (if n < 2 ^ 63 then int n else int n - 2 ^ 64)"

lemma saturating_add_le [simp]: "saturating_add a b \<le> u64_max"
  by (simp add: saturating_add_def)

lemma saturating_add_eq: "a + b \<le> u64_max \<Longrightarrow> saturating_add a b = a + b"
  by (simp add: saturating_add_def)

lemma saturating_add_ge: "a \<le> u64_max \<Longrightarrow> a \<le> saturating_add a b"
  by (simp add: saturating_add_def)

lemma as_i64_inj: "a \<le> u64_max \<Longrightarrow> b \<le> u64_max \<Longrightarrow> as_i64 a = as_i64 b \<longleftrightarrow> a = b"
  by (auto simp: as_i64_def u64_max_def split: if_splits)

lemma nat_as_i64 [simp]: "n < 2 ^ 63 \<Longrightarrow> nat (as_i64 n) = n"
  by (simp add: as_i64_def)

section \<open>Strings\<close>

text \<open>
  A Rust \<^verbatim>\<open>str\<close> is its list of bytes. \<open>strip_prefix\<close>, \<open>split_on\<close> (\<^verbatim>\<open>str::split\<close> on a
  character, which always yields at least one piece), \<open>split_once\<close>, \<open>str_replace\<close> (non-overlapping
  matches from the left) and the ASCII classes follow the standard library.
\<close>

fun strip_prefix :: "string \<Rightarrow> string \<Rightarrow> string option" where
  "strip_prefix [] s = Some s"
| "strip_prefix (c # p) [] = None"
| "strip_prefix (c # p) (d # s) = (if c = d then strip_prefix p s else None)"

fun split_on :: "char \<Rightarrow> string \<Rightarrow> string list" where
  "split_on c [] = [[]]"
| "split_on c (x # xs) =
     (if x = c then [] # split_on c xs
      else (case split_on c xs of [] \<Rightarrow> [[x]] | y # ys \<Rightarrow> (x # y) # ys))"

fun split_once :: "char \<Rightarrow> string \<Rightarrow> (string \<times> string) option" where
  "split_once c [] = None"
| "split_once c (x # xs) =
     (if x = c then Some ([], xs)
      else map_option (\<lambda>(a, b). (x # a, b)) (split_once c xs))"

fun join_with :: "string \<Rightarrow> string list \<Rightarrow> string" where
  "join_with sep [] = []"
| "join_with sep [x] = x"
| "join_with sep (x # y # ys) = x @ sep @ join_with sep (y # ys)"

definition replace_char :: "char \<Rightarrow> string \<Rightarrow> string \<Rightarrow> string" where
  "replace_char c r s = concat (map (\<lambda>x. if x = c then r else [x]) s)"

text \<open>\<open>replace_go\<close> carries the number of bytes of the current match still to be skipped.\<close>

fun replace_go :: "string \<Rightarrow> string \<Rightarrow> nat \<Rightarrow> string \<Rightarrow> string" where
  "replace_go p r k [] = []"
| "replace_go p r (Suc k) (x # xs) = replace_go p r k xs"
| "replace_go p r 0 (x # xs) =
     (if strip_prefix p (x # xs) \<noteq> None then r @ replace_go p r (length p - 1) xs
      else x # replace_go p r 0 xs)"

definition str_replace :: "string \<Rightarrow> string \<Rightarrow> string \<Rightarrow> string" where
  "str_replace p r s = replace_go p r 0 s"

fun str_contains :: "string \<Rightarrow> string \<Rightarrow> bool" where
  "str_contains s p =
     (strip_prefix p s \<noteq> None \<or> (case s of [] \<Rightarrow> False | x # xs \<Rightarrow> str_contains xs p))"

declare str_contains.simps [simp del]

definition byte_of :: "char \<Rightarrow> nat" where
  "byte_of c = of_char c"

definition is_ascii_alphanumeric :: "char \<Rightarrow> bool" where
  "is_ascii_alphanumeric c =
     (let b = byte_of c in 48 \<le> b \<and> b \<le> 57 \<or> 65 \<le> b \<and> b \<le> 90 \<or> 97 \<le> b \<and> b \<le> 122)"

definition to_ascii_lowercase :: "string \<Rightarrow> string" where
  "to_ascii_lowercase s =
     map (\<lambda>c. let b = byte_of c in if 65 \<le> b \<and> b \<le> 90 then char_of (b + 32) else c) s"

definition is_ascii_lowercase :: "char \<Rightarrow> bool" where
  "is_ascii_lowercase c = (let b = byte_of c in 97 \<le> b \<and> b \<le> 122)"

definition is_ascii_digit :: "char \<Rightarrow> bool" where
  "is_ascii_digit c = (let b = byte_of c in 48 \<le> b \<and> b \<le> 57)"

definition is_ascii_hexdigit :: "char \<Rightarrow> bool" where
  "is_ascii_hexdigit c = (let b = byte_of c in 48 \<le> b \<and> b \<le> 57 \<or> 65 \<le> b \<and> b \<le> 70 \<or> 97 \<le> b \<and> b \<le> 102)"

text \<open>The white space of \<^verbatim>\<open>str::trim\<close> among the ASCII characters.\<close>

definition is_space :: "char \<Rightarrow> bool" where
  "is_space c = (byte_of c \<in> {9, 10, 11, 12, 13, 32})"

definition trim :: "string \<Rightarrow> string" where
  "trim s = rev (dropWhile is_space (rev (dropWhile is_space s)))"

text \<open>\<^verbatim>\<open>{:?}\<close> of a string: quoted, with the ASCII control characters, quotes and backslashes escaped.\<close>

definition hex_digit :: "nat \<Rightarrow> char" where
  "hex_digit d = (if d < 10 then char_of (48 + d) else char_of (87 + d))"

definition debug_char :: "char \<Rightarrow> string" where
  "debug_char c =
     (let b = byte_of c; esc = char_of (92 :: nat) in
      if b = 34 \<or> b = 92 then [esc, c]
      else if b = 0 then [esc, CHR ''0'']
      else if b = 9 then [esc, CHR ''t'']
      else if b = 10 then [esc, CHR ''n'']
      else if b = 13 then [esc, CHR ''r'']
      else if b < 16 then [esc, CHR ''u'', CHR ''{'', hex_digit b, CHR ''}'']
      else if b < 32 \<or> b = 127
      then [esc, CHR ''u'', CHR ''{'', hex_digit (b div 16), hex_digit (b mod 16), CHR ''}'']
      else [c])"

definition debug_str :: "string \<Rightarrow> string" where
  "debug_str s = [char_of (34 :: nat)] @ concat (map debug_char s) @ [char_of (34 :: nat)]"

text \<open>Characters the sources have in string literals: the apostrophe, and the UTF-8 bytes of the em dash.\<close>

definition apostrophe :: string where
  "apostrophe = [char_of (39 :: nat)]"

definition em_dash :: string where
  "em_dash = [char_of (226 :: nat), char_of (128 :: nat), char_of (148 :: nat)]"

lemma strip_prefix_Some_iff: "strip_prefix p s = Some r \<longleftrightarrow> s = p @ r"
  by (induction p s rule: strip_prefix.induct) auto

lemma strip_prefix_append [simp]: "strip_prefix p (p @ r) = Some r"
  by (simp add: strip_prefix_Some_iff)

lemma strip_prefix_self [simp]: "strip_prefix p p = Some []"
  by (simp add: strip_prefix_Some_iff)

lemma split_on_nonempty [simp]: "split_on c s \<noteq> []"
  by (induction c s rule: split_on.induct) (auto split: list.splits)

lemma split_on_no_sep: "c \<notin> set s \<Longrightarrow> split_on c s = [s]"
  by (induction c s rule: split_on.induct) auto

lemma split_on_Cons_sep: "c \<notin> set a \<Longrightarrow> split_on c (a @ c # b) = a # split_on c b"
proof (induction a)
  case (Cons x a)
  then show ?case by (cases "split_on c b") auto
qed simp

lemma split_once_no_sep: "c \<notin> set a \<Longrightarrow> split_once c (a @ c # b) = Some (a, b)"
  by (induction a) auto

lemma replace_go_skip: "k \<le> length xs \<Longrightarrow> replace_go p r k xs = replace_go p r 0 (drop k xs)"
proof (induction k arbitrary: xs)
  case (Suc k)
  then show ?case by (cases xs) auto
qed simp

lemma replace_go_match:
  assumes "p \<noteq> []"
  shows "replace_go p r 0 (p @ s) = r @ replace_go p r 0 s"
proof -
  obtain c q where p: "p = c # q" using assms by (cases p) auto
  have "replace_go p r (length q) (q @ s) = replace_go p r 0 s"
    using replace_go_skip [of "length q" "q @ s"] by simp
  then show ?thesis using strip_prefix_append [of p s] by (simp add: p)
qed

lemma replace_char_Nil [simp]: "replace_char c r [] = []"
  by (simp add: replace_char_def)

lemma replace_char_Cons [simp]:
  "replace_char c r (x # xs) = (if x = c then r else [x]) @ replace_char c r xs"
  by (simp add: replace_char_def)

lemma replace_char_append [simp]:
  "replace_char c r (xs @ ys) = replace_char c r xs @ replace_char c r ys"
  by (simp add: replace_char_def)

lemma set_replace_char: "set (replace_char c r s) \<subseteq> (set s - {c}) \<union> set r"
  by (induction s) auto

section \<open>Decimal numerals\<close>

definition digit :: "nat \<Rightarrow> char" where
  "digit d = char_of (48 + d)"

fun show_nat :: "nat \<Rightarrow> string" where
  "show_nat n = (if n < 10 then [digit n] else show_nat (n div 10) @ [digit (n mod 10)])"

declare show_nat.simps [simp del]

definition read_nat :: "string \<Rightarrow> nat" where
  "read_nat s = foldl (\<lambda>a c. 10 * a + (byte_of c - 48)) 0 s"

lemma byte_of_digit [simp]: "d < 10 \<Longrightarrow> byte_of (digit d) = 48 + d"
  by (simp add: byte_of_def digit_def)

lemma read_show_nat [simp]: "read_nat (show_nat n) = n"
proof (induction n rule: show_nat.induct)
  case (1 n)
  then show ?case
    by (subst show_nat.simps) (auto simp: read_nat_def)
qed

lemma show_nat_inj [simp]: "show_nat m = show_nat n \<longleftrightarrow> m = n"
  by (metis read_show_nat)

lemma show_nat_digits: "c \<in> set (show_nat n) \<Longrightarrow> 48 \<le> byte_of c \<and> byte_of c \<le> 57"
proof (induction n rule: show_nat.induct)
  case (1 n)
  have "c \<in> set (if n < 10 then [digit n] else show_nat (n div 10) @ [digit (n mod 10)])"
    using "1.prems" by (simp only: show_nat.simps [of n])
  then show ?case using "1.IH" by (auto split: if_splits)
qed

lemma show_nat_nonempty [simp]: "show_nat n \<noteq> []"
  by (subst show_nat.simps) auto

section \<open>A codec between an enumeration and its stored text\<close>

text \<open>
  Several enumerations of the sources are stored as text through a pair of functions
  \<^verbatim>\<open>as_str\<close> / \<^verbatim>\<open>parse\<close>. The contract: parsing inverts printing and accepts nothing else.
\<close>

locale str_codec =
  fixes as_str :: "'a \<Rightarrow> string"
    and parse :: "string \<Rightarrow> 'a option"
  assumes parse_as_str: "parse (as_str x) = Some x"
    and as_str_parse: "parse s = Some x \<Longrightarrow> as_str x = s"
begin

lemma parse_iff: "parse s = Some x \<longleftrightarrow> s = as_str x"
  by (metis parse_as_str as_str_parse)

lemma as_str_inj: "as_str x = as_str y \<longleftrightarrow> x = y"
  by (metis parse_as_str option.inject)

lemma parse_None: "parse s = None \<longleftrightarrow> s \<notin> range as_str"
  by (metis parse_iff not_Some_eq rangeE rangeI)

end

section \<open>JSON values\<close>

text \<open>
  A serde\_json \<^verbatim>\<open>Value\<close>. An object is a \<^verbatim>\<open>BTreeMap\<close>: an association list kept sorted by
  \<open>obj_insert\<close>, so equal objects are equal lists. An integer literal is an \<^typ>\<open>int\<close>; any other
  number is kept as its text. \<open>json_obj\<close> is the \<^verbatim>\<open>json!({...})\<close> macro: it inserts the pairs in
  order, a later pair replacing an earlier one with the same key.
\<close>

datatype json =
    JNull
  | JBool bool
  | JNum int
  | JFloat string
  | JStr string
  | JArr "json list"
  | JObj "(string \<times> json) list"

fun obj_insert :: "string \<Rightarrow> 'v \<Rightarrow> (string \<times> 'v) list \<Rightarrow> (string \<times> 'v) list" where
  "obj_insert k v [] = [(k, v)]"
| "obj_insert k v ((k', v') # r) =
     (if k = k' then (k, v) # r
      else if k < k' then (k, v) # (k', v') # r
      else (k', v') # obj_insert k v r)"

definition json_obj :: "(string \<times> json) list \<Rightarrow> json" where
  "json_obj kvs = JObj (fold (\<lambda>(k, v). obj_insert k v) kvs [])"

fun json_get :: "string \<Rightarrow> json \<Rightarrow> json option" where
  "json_get k (JObj m) = map_of m k"
| "json_get k _ = None"

fun as_str :: "json \<Rightarrow> string option" where
  "as_str (JStr s) = Some s"
| "as_str _ = None"

fun as_bool :: "json \<Rightarrow> bool option" where
  "as_bool (JBool b) = Some b"
| "as_bool _ = None"

fun as_u64 :: "json \<Rightarrow> nat option" where
  "as_u64 (JNum i) = (if 0 \<le> i \<and> nat i \<le> u64_max then Some (nat i) else None)"
| "as_u64 _ = None"

fun as_i64_json :: "json \<Rightarrow> int option" where
  "as_i64_json (JNum i) = (if - (2 ^ 63) \<le> i \<and> i < 2 ^ 63 then Some i else None)"
| "as_i64_json _ = None"

fun as_array :: "json \<Rightarrow> json list option" where
  "as_array (JArr xs) = Some xs"
| "as_array _ = None"

fun as_object :: "json \<Rightarrow> (string \<times> json) list option" where
  "as_object (JObj m) = Some m"
| "as_object _ = None"

text \<open>\<^verbatim>\<open>v.get(k).and_then(|x| x.as_str())\<close> and its variants.\<close>

definition get_str :: "string \<Rightarrow> json \<Rightarrow> string option" where
  "get_str k v = Option.bind (json_get k v) as_str"

definition get_u64 :: "string \<Rightarrow> json \<Rightarrow> nat option" where
  "get_u64 k v = Option.bind (json_get k v) as_u64"

definition get_bool :: "string \<Rightarrow> json \<Rightarrow> bool option" where
  "get_bool k v = Option.bind (json_get k v) as_bool"

lemma map_of_obj_insert [simp]: "map_of (obj_insert k v m) = (map_of m)(k \<mapsto> v)"
  by (induction k v m rule: obj_insert.induct) (auto simp: fun_eq_iff)

lemma map_of_obj_fold:
  "map_of (fold (\<lambda>(k, v). obj_insert k v) kvs m) = map_of m ++ map_of (rev kvs)"
  by (induction kvs arbitrary: m) (auto simp: fun_eq_iff map_add_def split: option.splits)

lemma json_get_obj [json_simps]: "json_get k (json_obj kvs) = map_of (rev kvs) k"
  by (simp add: json_obj_def map_of_obj_fold)

lemma get_str_obj [json_simps]: "get_str k (json_obj kvs) = Option.bind (map_of (rev kvs) k) as_str"
  by (simp add: get_str_def json_get_obj)

lemma get_u64_obj [json_simps]: "get_u64 k (json_obj kvs) = Option.bind (map_of (rev kvs) k) as_u64"
  by (simp add: get_u64_def json_get_obj)

lemma get_bool_obj [json_simps]: "get_bool k (json_obj kvs) = Option.bind (map_of (rev kvs) k) as_bool"
  by (simp add: get_bool_def json_get_obj)

section \<open>State and errors\<close>

text \<open>
  Fallible code that updates a state \<open>'s\<close> is a function \<open>'s \<Rightarrow> ('e + 'a) \<times> 's\<close>: the error or
  the value, and the state it leaves behind in either case. \<open>bindS\<close> is the \<^verbatim>\<open>?\<close> operator, \<open>okS\<close>
  is \<^verbatim>\<open>.ok()\<close> (and \<^verbatim>\<open>let _ = ...\<close>), \<open>unwrap_orS\<close> is \<^verbatim>\<open>.unwrap_or(d)\<close>, \<open>map_errS\<close> is the \<^verbatim>\<open>From\<close>
  conversion of an error.
\<close>

type_synonym ('s, 'e, 'a) sm = "'s \<Rightarrow> ('e + 'a) \<times> 's"

definition retS :: "'a \<Rightarrow> ('s, 'e, 'a) sm" where
  "retS x s = (Inr x, s)"

definition throwS :: "'e \<Rightarrow> ('s, 'e, 'a) sm" where
  "throwS e s = (Inl e, s)"

definition bindS :: "('s, 'e, 'a) sm \<Rightarrow> ('a \<Rightarrow> ('s, 'e, 'b) sm) \<Rightarrow> ('s, 'e, 'b) sm" where
  "bindS m f s = (case m s of (Inl e, s') \<Rightarrow> (Inl e, s') | (Inr x, s') \<Rightarrow> f x s')"

definition okS :: "('s, 'e, 'a) sm \<Rightarrow> ('s, 'f, 'a option) sm" where
  "okS m s = (case m s of (Inl e, s') \<Rightarrow> (Inr None, s') | (Inr x, s') \<Rightarrow> (Inr (Some x), s'))"

definition unwrap_orS :: "('s, 'e, 'a) sm \<Rightarrow> 'a \<Rightarrow> ('s, 'f, 'a) sm" where
  "unwrap_orS m d s = (case m s of (Inl e, s') \<Rightarrow> (Inr d, s') | (Inr x, s') \<Rightarrow> (Inr x, s'))"

definition map_errS :: "('e \<Rightarrow> 'f) \<Rightarrow> ('s, 'e, 'a) sm \<Rightarrow> ('s, 'f, 'a) sm" where
  "map_errS g m s = (case m s of (Inl e, s') \<Rightarrow> (Inl (g e), s') | (Inr x, s') \<Rightarrow> (Inr x, s'))"

definition getS :: "('s \<Rightarrow> 'a) \<Rightarrow> ('s, 'e, 'a) sm" where
  "getS f s = (Inr (f s), s)"

definition modifyS :: "('s \<Rightarrow> 's) \<Rightarrow> ('s, 'e, unit) sm" where
  "modifyS f s = (Inr (), f s)"

text \<open>Errors without a state: \<open>bindE\<close> is \<^verbatim>\<open>?\<close>, \<open>ok_or\<close> is \<^verbatim>\<open>Option::ok_or\<close>.\<close>

definition bindE :: "'e + 'a \<Rightarrow> ('a \<Rightarrow> 'e + 'b) \<Rightarrow> 'e + 'b" where
  "bindE r f = (case r of Inl e \<Rightarrow> Inl e | Inr x \<Rightarrow> f x)"

definition ok_or :: "'e \<Rightarrow> 'a option \<Rightarrow> 'e + 'a" where
  "ok_or e x = (case x of None \<Rightarrow> Inl e | Some y \<Rightarrow> Inr y)"

definition liftE :: "'e + 'a \<Rightarrow> ('s, 'e, 'a) sm" where
  "liftE r s = (r, s)"

lemma bindE_simps [simp]: "bindE (Inr x) f = f x" "bindE (Inl e) f = Inl e"
  by (simp_all add: bindE_def)

lemma bindE_Inr_iff: "bindE r f = Inr y \<longleftrightarrow> (\<exists>x. r = Inr x \<and> f x = Inr y)"
  by (cases r) auto

lemma ok_or_simps [simp]: "ok_or e (Some y) = Inr y" "ok_or e None = Inl e"
  by (simp_all add: ok_or_def)

lemma ok_or_Inr_iff: "ok_or e x = Inr y \<longleftrightarrow> x = Some y"
  by (cases x) auto

definition is_ok :: "'e + 'a \<Rightarrow> bool" where
  "is_ok r = (case r of Inl _ \<Rightarrow> False | Inr _ \<Rightarrow> True)"

declare retS_def [sm_simps] throwS_def [sm_simps] bindS_def [sm_simps] okS_def [sm_simps]
  unwrap_orS_def [sm_simps] map_errS_def [sm_simps] getS_def [sm_simps] modifyS_def [sm_simps]
  liftE_def [sm_simps]

lemma bindS_E:
  assumes "bindS m f s = (r, t)"
  obtains (err) e where "m s = (Inl e, t)" "r = Inl e"
  | (ok) x s' where "m s = (Inr x, s')" "f x s' = (r, t)"
  using assms by (auto simp: bindS_def split: prod.splits sum.splits)

text \<open>
  \<open>preserves I m\<close>: whatever \<open>m\<close> returns, it leaves \<open>I\<close> true if it was. The rules follow the
  structure of the program.
\<close>

definition preserves :: "('s \<Rightarrow> bool) \<Rightarrow> ('s, 'e, 'a) sm \<Rightarrow> bool" where
  "preserves I m = (\<forall>s. I s \<longrightarrow> I (snd (m s)))"

lemma preservesD: "preserves I m \<Longrightarrow> I s \<Longrightarrow> m s = (r, t) \<Longrightarrow> I t"
  by (metis preserves_def snd_conv)

lemma preserves_bind [preserves_intros]:
  "preserves I m \<Longrightarrow> (\<And>x. preserves I (f x)) \<Longrightarrow> preserves I (bindS m f)"
  by (auto simp: preserves_def bindS_def split: prod.splits sum.splits)

lemma preserves_ret [preserves_intros]: "preserves I (retS x)"
  by (simp add: preserves_def retS_def)

lemma preserves_throw [preserves_intros]: "preserves I (throwS e)"
  by (simp add: preserves_def throwS_def)

lemma preserves_get [preserves_intros]: "preserves I (getS f)"
  by (simp add: preserves_def getS_def)

lemma preserves_lift [preserves_intros]: "preserves I (liftE r)"
  by (simp add: preserves_def liftE_def)

lemma preserves_modify [preserves_intros]: "(\<And>s. I s \<Longrightarrow> I (f s)) \<Longrightarrow> preserves I (modifyS f)"
  by (simp add: preserves_def modifyS_def)

lemma preserves_ok [preserves_intros]: "preserves I m \<Longrightarrow> preserves I (okS m)"
  by (auto simp: preserves_def okS_def split: prod.splits sum.splits)

lemma preserves_unwrap_or [preserves_intros]: "preserves I m \<Longrightarrow> preserves I (unwrap_orS m d)"
  by (auto simp: preserves_def unwrap_orS_def split: prod.splits sum.splits)

lemma preserves_map_err [preserves_intros]: "preserves I m \<Longrightarrow> preserves I (map_errS g m)"
  by (auto simp: preserves_def map_errS_def split: prod.splits sum.splits)

lemma preserves_if [preserves_intros]:
  "(b \<Longrightarrow> preserves I m) \<Longrightarrow> (\<not> b \<Longrightarrow> preserves I m') \<Longrightarrow> preserves I (if b then m else m')"
  by simp

lemma preserves_option [preserves_intros]:
  "preserves I m \<Longrightarrow> (\<And>x. preserves I (f x)) \<Longrightarrow> preserves I (case o' of None \<Rightarrow> m | Some x \<Rightarrow> f x)"
  by (cases o') simp_all

lemma preserves_sum [preserves_intros]:
  "(\<And>x. preserves I (f x)) \<Longrightarrow> (\<And>y. preserves I (g y)) \<Longrightarrow> preserves I (case r of Inl x \<Rightarrow> f x | Inr y \<Rightarrow> g y)"
  by (cases r) simp_all

lemma preserves_prod [preserves_intros]:
  "(\<And>x y. preserves I (f x y)) \<Longrightarrow> preserves I (case p of (x, y) \<Rightarrow> f x y)"
  by (cases p) simp

lemma preserves_let [preserves_intros]: "preserves I (f x) \<Longrightarrow> preserves I (let y = x in f y)"
  by simp

text \<open>
  \<open>triple P m Q R\<close>: from a state in \<open>P\<close>, \<open>m\<close> returns a value with \<open>Q\<close> or fails with \<open>R\<close>.
\<close>

definition triple :: "('s \<Rightarrow> bool) \<Rightarrow> ('s, 'e, 'a) sm \<Rightarrow> ('a \<Rightarrow> 's \<Rightarrow> bool) \<Rightarrow> ('s \<Rightarrow> bool) \<Rightarrow> bool" where
  "triple P m Q R = (\<forall>s. P s \<longrightarrow> (case m s of (Inl _, s') \<Rightarrow> R s' | (Inr x, s') \<Rightarrow> Q x s'))"

lemma triple_bind:
  "triple P m Q R \<Longrightarrow> (\<And>x. triple (Q x) (f x) S R) \<Longrightarrow> triple P (bindS m f) S R"
  by (fastforce simp: triple_def bindS_def split: prod.splits sum.splits)

lemma triple_ret: "(\<And>s. P s \<Longrightarrow> Q x s) \<Longrightarrow> triple P (retS x) Q R"
  by (simp add: triple_def retS_def)

lemma triple_throw: "(\<And>s. P s \<Longrightarrow> R s) \<Longrightarrow> triple P (throwS e) Q R"
  by (simp add: triple_def throwS_def)

lemma triple_get: "(\<And>s. P s \<Longrightarrow> Q (f s) s) \<Longrightarrow> triple P (getS f) Q R"
  by (simp add: triple_def getS_def)

lemma triple_modify: "(\<And>s. P s \<Longrightarrow> Q () (f s)) \<Longrightarrow> triple P (modifyS f) Q R"
  by (simp add: triple_def modifyS_def)

lemma triple_if: "(b \<Longrightarrow> triple P m Q R) \<Longrightarrow> (\<not> b \<Longrightarrow> triple P m' Q R) \<Longrightarrow> triple P (if b then m else m') Q R"
  by simp

lemma triple_sum:
  "(\<And>x. triple P (f x) Q R) \<Longrightarrow> (\<And>y. triple P (g y) Q R) \<Longrightarrow> triple P (case r of Inl x \<Rightarrow> f x | Inr y \<Rightarrow> g y) Q R"
  by (cases r) simp_all

lemma triple_conseq:
  "triple P m Q R \<Longrightarrow> (\<And>s. P' s \<Longrightarrow> P s) \<Longrightarrow> (\<And>x s. Q x s \<Longrightarrow> Q' x s) \<Longrightarrow> (\<And>s. R s \<Longrightarrow> R' s) \<Longrightarrow> triple P' m Q' R'"
  by (fastforce simp: triple_def split: prod.splits sum.splits)

lemma tripleD: "triple P m (\<lambda>_. Q) Q \<Longrightarrow> P s \<Longrightarrow> m s = (r, s') \<Longrightarrow> Q s'"
  by (cases r) (fastforce simp: triple_def)+

lemma triple_preserves: "preserves I m \<Longrightarrow> triple I m (\<lambda>_. I) I"
  by (auto simp: triple_def preserves_def split: prod.splits sum.splits)

lemma triple_unreachable: "triple (\<lambda>_. False) m Q R"
  by (simp add: triple_def)

lemma triple_prod: "(\<And>x y. triple P (f x y) Q R) \<Longrightarrow> triple P (case p of (x, y) \<Rightarrow> f x y) Q R"
  by (cases p) simp

text \<open>\<open>nofail m\<close>: \<open>m\<close> always returns a value.\<close>

definition nofail :: "('s, 'e, 'a) sm \<Rightarrow> bool" where
  "nofail m = (\<forall>s. \<exists>x t. m s = (Inr x, t))"

lemma nofail_bind [nofail_intros]: "nofail m \<Longrightarrow> (\<And>x. nofail (f x)) \<Longrightarrow> nofail (bindS m f)"
  unfolding nofail_def bindS_def by (metis (no_types, lifting) case_prod_conv old.sum.simps(6))

lemma nofail_basic [nofail_intros]: "nofail (retS x)" "nofail (getS g)" "nofail (modifyS h)"
  by (simp_all add: nofail_def retS_def getS_def modifyS_def)

lemma nofail_if [nofail_intros]: "nofail m \<Longrightarrow> nofail m' \<Longrightarrow> nofail (if b then m else m')"
  by simp

lemma nofail_option [nofail_intros]: "nofail m \<Longrightarrow> (\<And>x. nofail (f x)) \<Longrightarrow> nofail (case o' of None \<Rightarrow> m | Some x \<Rightarrow> f x)"
  by (cases o') simp_all

lemma nofail_sum [nofail_intros]:
  "(\<And>x. nofail (f x)) \<Longrightarrow> (\<And>y. nofail (g y)) \<Longrightarrow> nofail (case r of Inl x \<Rightarrow> f x | Inr y \<Rightarrow> g y)"
  by (cases r) simp_all

lemma nofail_prod [nofail_intros]: "(\<And>x y. nofail (f x y)) \<Longrightarrow> nofail (case p of (x, y) \<Rightarrow> f x y)"
  by (cases p) simp

lemma nofail_let [nofail_intros]: "nofail (f x) \<Longrightarrow> nofail (let y = x in f y)"
  by simp

lemma nofail_preserves: "nofail m \<Longrightarrow> preserves I m \<Longrightarrow> I s \<Longrightarrow> \<exists>x t. m s = (Inr x, t) \<and> I t"
  unfolding nofail_def preserves_def by (metis snd_conv)

lemma is_ok_simps [simp]: "is_ok (Inr x)" "\<not> is_ok (Inl e)"
  by (simp_all add: is_ok_def)

section \<open>The file system\<close>

text \<open>
  What the file system answers is a parameter: one flag per operation, \<open>True\<close> when the operation
  fails. When the flags are used up operations succeed. A record of files extends \<open>io_script\<close>.
\<close>

record io_script =
  io_flags :: "bool list"

definition io_op :: "'e \<Rightarrow> ('t io_script_scheme, 'e, unit) sm" where
  "io_op e w =
     (case io_flags w of
        [] \<Rightarrow> (Inr (), w)
      | fails # rest \<Rightarrow> (if fails then Inl e else Inr (), w\<lparr>io_flags := rest\<rparr>))"

lemma io_op_cases:
  obtains (fail) rest where "io_op e w = (Inl e, w\<lparr>io_flags := rest\<rparr>)"
  | (ok) rest where "io_op e w = (Inr (), w\<lparr>io_flags := rest\<rparr>)"
proof (cases "io_flags w")
  case Nil
  then have "io_op e w = (Inr (), w\<lparr>io_flags := []\<rparr>)" by (simp add: io_op_def)
  then show ?thesis by (rule ok)
next
  case (Cons f rest)
  then show ?thesis using fail [of rest] ok [of rest] by (cases f) (simp_all add: io_op_def)
qed

lemma preserves_io [preserves_intros]:
  "(\<And>w fs. I w \<Longrightarrow> I (w\<lparr>io_flags := fs\<rparr>)) \<Longrightarrow> preserves I (io_op e)"
  by (metis io_op_cases preserves_def snd_conv)

lemma io_op_empty [simp]: "io_flags w = [] \<Longrightarrow> io_op e w = (Inr (), w)"
  by (simp add: io_op_def)

section \<open>The SQL connection\<close>

text \<open>
  Each statement sent to the database either fails or runs at some instant of the database clock.
  The engine and the disk are not part of the sources, so what they answer is a parameter: a script
  with one entry per statement, saying whether the statement fails and what the database clock
  (\<^verbatim>\<open>DB_NOW_MS\<close>) reads while it runs. When the script is used up statements succeed at the last
  instant. Every theorem holds for every script. A concrete database record extends \<open>sql_conn\<close>
  with its tables.
\<close>

record sql_conn =
  sc_script :: "(bool \<times> int) list"
  sc_now :: int

definition sql_stmt :: "('t sql_conn_scheme, unit, int) sm" where
  "sql_stmt c =
     (case sc_script c of
        [] \<Rightarrow> (Inr (sc_now c), c)
      | (fails, t) # rest \<Rightarrow>
          (if fails then Inl () else Inr t, c\<lparr>sc_script := rest, sc_now := t\<rparr>))"

text \<open>The instants at which the next statements may run.\<close>

definition sql_times :: "'t sql_conn_scheme \<Rightarrow> int set" where
  "sql_times c = insert (sc_now c) (snd ` set (sc_script c))"

lemma sql_stmt_cases:
  obtains (fail) rest t where "sql_stmt c = (Inl (), c\<lparr>sc_script := rest, sc_now := t\<rparr>)"
      "t \<in> sql_times c" "snd ` set rest \<subseteq> sql_times c"
  | (ok) rest t where "sql_stmt c = (Inr t, c\<lparr>sc_script := rest, sc_now := t\<rparr>)"
      "t \<in> sql_times c" "snd ` set rest \<subseteq> sql_times c"
proof (cases "sc_script c")
  case Nil
  then have "sql_stmt c = (Inr (sc_now c), c\<lparr>sc_script := [], sc_now := sc_now c\<rparr>)"
    by (simp add: sql_stmt_def)
  then show ?thesis by (rule ok) (simp_all add: sql_times_def)
next
  case (Cons e rest)
  then show ?thesis
    using fail [of "snd e" rest] ok [of "snd e" rest]
    by (cases e; cases "fst e") (simp_all add: sql_stmt_def sql_times_def subset_insertI2)
qed

lemma preserves_stmt [preserves_intros]:
  assumes "\<And>c sc t. I c \<Longrightarrow> I (c\<lparr>sc_script := sc, sc_now := t\<rparr>)"
  shows "preserves I sql_stmt"
  unfolding preserves_def
proof (intro allI impI)
  fix s assume "I s"
  then show "I (snd (sql_stmt s))"
    using assms by (cases s rule: sql_stmt_cases) auto
qed

section \<open>Lists as tables\<close>

text \<open>
  A table is the list of its rows. \<open>row_update P f\<close> is \<^verbatim>\<open>UPDATE ... SET f WHERE P\<close>;
  \<open>row_count P\<close> is the number of rows a statement touches; \<open>row_at key rows k\<close> is the row selected
  by key \<open>k\<close>. A primary key is \<open>pk_ok key rows\<close>.
\<close>

definition row_update :: "('r \<Rightarrow> bool) \<Rightarrow> ('r \<Rightarrow> 'r) \<Rightarrow> 'r list \<Rightarrow> 'r list" where
  "row_update P f rows = map (\<lambda>r. if P r then f r else r) rows"

definition row_count :: "('r \<Rightarrow> bool) \<Rightarrow> 'r list \<Rightarrow> nat" where
  "row_count P rows = length (filter P rows)"

definition pk_ok :: "('r \<Rightarrow> 'k) \<Rightarrow> 'r list \<Rightarrow> bool" where
  "pk_ok key rows = distinct (map key rows)"

definition row_at :: "('r \<Rightarrow> 'k) \<Rightarrow> 'r list \<Rightarrow> 'k \<Rightarrow> 'r option" where
  "row_at key rows k = List.find (\<lambda>r. key r = k) rows"

lemma pk_ok_Nil [simp]: "pk_ok key []"
  by (simp add: pk_ok_def)

lemma pk_ok_snoc [simp]: "pk_ok key (rows @ [r]) \<longleftrightarrow> pk_ok key rows \<and> key r \<notin> key ` set rows"
  by (auto simp: pk_ok_def)

lemma pk_ok_row_update:
  assumes "\<And>r. key (f r) = key r"
  shows "pk_ok key (row_update P f rows) \<longleftrightarrow> pk_ok key rows"
proof -
  have "map key (row_update P f rows) = map key rows"
    using assms by (simp add: row_update_def)
  then show ?thesis by (simp add: pk_ok_def)
qed

lemma row_update_id: "row_count P rows = 0 \<Longrightarrow> row_update P f rows = rows"
  by (induction rows) (auto simp: row_count_def row_update_def split: if_splits)

lemma set_row_update: "set (row_update P f rows) = (\<lambda>r. if P r then f r else r) ` set rows"
  by (simp add: row_update_def)

lemma length_row_update [simp]: "length (row_update P f rows) = length rows"
  by (simp add: row_update_def)

lemma pk_ok_unique: "pk_ok key rows \<Longrightarrow> r \<in> set rows \<Longrightarrow> r' \<in> set rows \<Longrightarrow> key r = key r' \<Longrightarrow> r = r'"
  by (auto simp: pk_ok_def distinct_map dest: inj_onD)

lemma row_at_Some_iff: "pk_ok key rows \<Longrightarrow> row_at key rows k = Some r \<longleftrightarrow> r \<in> set rows \<and> key r = k"
  by (induction rows) (auto simp: pk_ok_def row_at_def)

lemma row_at_SomeD: "row_at key rows k = Some r \<Longrightarrow> r \<in> set rows \<and> key r = k"
  by (auto simp: row_at_def find_Some_iff)

lemma row_at_None_iff: "row_at key rows k = None \<longleftrightarrow> k \<notin> key ` set rows"
  by (auto simp: row_at_def find_None_iff)

lemma row_at_snoc [simp]:
  "row_at key (rows @ [r]) k =
     (case row_at key rows k of None \<Rightarrow> if key r = k then Some r else None | Some x \<Rightarrow> Some x)"
  by (induction rows) (auto simp: row_at_def)

lemma row_at_update:
  "(\<And>r. key (f r) = key r) \<Longrightarrow>
     row_at key (row_update P f rows) k = map_option (\<lambda>r. if P r then f r else r) (row_at key rows k)"
  by (induction rows) (auto simp: row_at_def row_update_def)

lemma row_at_update_key:
  assumes "\<And>r. key (f r) = key r"
  shows "row_at key (row_update (\<lambda>r. key r = k \<and> Q r) f rows) =
     (case row_at key rows k of
        None \<Rightarrow> row_at key rows
      | Some p \<Rightarrow> if Q p then (row_at key rows)(k \<mapsto> f p) else row_at key rows)"
proof
  fix k'
  have "row_at key rows k' = Some r \<Longrightarrow> key r = k'" for r
    using row_at_SomeD by fast
  then show "row_at key (row_update (\<lambda>r. key r = k \<and> Q r) f rows) k' =
     (case row_at key rows k of
        None \<Rightarrow> row_at key rows
      | Some p \<Rightarrow> if Q p then (row_at key rows)(k \<mapsto> f p) else row_at key rows) k'"
    by (cases "k' = k"; cases "row_at key rows k'") (auto simp: row_at_update [of key f, OF assms] split: option.splits)
qed

lemma row_count_key:
  "pk_ok key rows \<Longrightarrow> row_count (\<lambda>r. key r = k \<and> Q r) rows =
     (case row_at key rows k of None \<Rightarrow> 0 | Some r \<Rightarrow> if Q r then 1 else 0)"
proof (induction rows)
  case (Cons r rows)
  have "row_count (\<lambda>x. key x = k \<and> Q x) rows = 0" if "key r = k"
    using Cons.prems that
    by (auto simp: pk_ok_def row_count_def filter_empty_conv) (metis image_eqI)
  then show ?case using Cons by (auto simp: pk_ok_def row_count_def row_at_def)
qed (simp add: row_count_def row_at_def)

lemma row_count_pos: "0 < row_count P rows \<longleftrightarrow> (\<exists>r\<in>set rows. P r)"
  by (induction rows) (auto simp: row_count_def)

lemma rtranclp_invariant:
  assumes "R\<^sup>*\<^sup>* s t" and "I s" and "\<And>s t. R s t \<Longrightarrow> I s \<Longrightarrow> I t"
  shows "I t"
  using assms(1, 2) by (induction rule: rtranclp_induct) (auto intro: assms(3))

end
