(* ===== verification/Fencing.thy ===== *)
theory Fencing
  imports Prelude
begin

text \<open>
  The contract of a store that hands out fencing tokens. A successful claim of a key yields a
  generation; a worker shows its token by naming the owner and the generation it claimed. The
  schedule-lease table and the lease columns of the durable-run table both implement it. The lemmas
  say what the clients of such a store rely on: over any interleaving of operations, generations
  identify claims, and a token stops being current for good once anybody claims the key again.
\<close>

section \<open>Labelled executions\<close>

text \<open>
  \<open>traced step s tr t\<close>: some sequence of steps leads from \<open>s\<close> to \<open>t\<close>, and \<open>tr\<close> lists the labels of
  the labelled ones in order.
\<close>

inductive traced :: "('s \<Rightarrow> 'e option \<Rightarrow> 's \<Rightarrow> bool) \<Rightarrow> 's \<Rightarrow> 'e list \<Rightarrow> 's \<Rightarrow> bool"
  for step where
  traced_refl: "traced step s [] s"
| traced_silent: "traced step s tr t \<Longrightarrow> step t None u \<Longrightarrow> traced step s tr u"
| traced_label: "traced step s tr t \<Longrightarrow> step t (Some e) u \<Longrightarrow> traced step s (tr @ [e]) u"

inductive_cases traced_NilE: "traced step s [] t"

lemma traced_invariant:
  assumes "traced step s tr t" and "I s" and "\<And>s e t. I s \<Longrightarrow> step s e t \<Longrightarrow> I t"
  shows "I t"
  using assms(1, 2) by induction (auto intro: assms(3))

lemma traced_split:
  assumes "traced step s (tr1 @ tr2) u"
  obtains t where "traced step s tr1 t" and "traced step t tr2 u"
proof -
  have "\<exists>t. traced step s tr1 t \<and> traced step t tr2 u"
    using assms
  proof (induction s "tr1 @ tr2" u arbitrary: tr2 rule: traced.induct)
    case traced_refl
    then show ?case by (auto intro: traced.traced_refl)
  next
    case (traced_silent s t u)
    then show ?case by (meson traced.traced_silent)
  next
    case (traced_label s tr t e u)
    show ?case
    proof (cases tr2 rule: rev_cases)
      case Nil
      then show ?thesis using traced_label by (auto intro: traced.intros)
    next
      case (snoc tr2' e')
      then show ?thesis using traced_label by (auto intro: traced.traced_label)
    qed
  qed
  then show ?thesis using that by blast
qed

section \<open>The fencing contract\<close>

locale fencing =
  fixes inv :: "'s \<Rightarrow> bool"
    and gen :: "'s \<Rightarrow> 'k \<Rightarrow> int option"
    and holder :: "'s \<Rightarrow> 'k \<Rightarrow> 'o option"
    and step :: "'s \<Rightarrow> ('k \<times> 'o \<times> int) option \<Rightarrow> 's \<Rightarrow> bool"
    and current :: "'s \<Rightarrow> 'k \<Rightarrow> 'o \<Rightarrow> int \<Rightarrow> bool"
  assumes inv_step: "inv s \<Longrightarrow> step s e t \<Longrightarrow> inv t"
    and gen_silent: "inv s \<Longrightarrow> step s None t \<Longrightarrow> gen s k = Some g \<Longrightarrow> gen t k = Some g"
    and gen_claim: "inv s \<Longrightarrow> step s (Some (k, w, g)) t \<Longrightarrow> gen t k = Some g"
    and gen_claim_less: "inv s \<Longrightarrow> step s (Some (k, w, g)) t \<Longrightarrow> gen s k = Some g0 \<Longrightarrow> g0 < g"
    and gen_claim_other: "inv s \<Longrightarrow> step s (Some (k, w, g)) t \<Longrightarrow> k' \<noteq> k \<Longrightarrow> gen s k' = Some g'
      \<Longrightarrow> gen t k' = Some g'"
    and current_gen: "inv s \<Longrightarrow> current s k w g \<Longrightarrow> gen s k = Some g"
    and current_holder: "inv s \<Longrightarrow> current s k w g \<Longrightarrow> holder s k = Some w"
    and holder_claim: "inv s \<Longrightarrow> step s (Some (k, w, g)) t \<Longrightarrow> holder t k = Some w"
    and holder_silent: "inv s \<Longrightarrow> step s None t \<Longrightarrow> gen s k = Some g \<Longrightarrow>
      holder t k = holder s k \<or> holder t k = None"
    and holder_claim_other: "inv s \<Longrightarrow> step s (Some (k, w, g)) t \<Longrightarrow> k' \<noteq> k \<Longrightarrow> holder t k' = holder s k'"
begin

lemma gen_step_mono:
  assumes "inv s" "step s e t" "gen s k = Some g0"
  shows "\<exists>g1. gen t k = Some g1 \<and> g0 \<le> g1"
proof (cases e)
  case None
  then show ?thesis using assms gen_silent by fastforce
next
  case (Some c)
  obtain k' w g where "c = (k', w, g)" by (cases c) auto
  then have st: "step s (Some (k', w, g)) t" using Some assms(2) by simp
  show ?thesis
  proof (cases "k' = k")
    case True
    then show ?thesis using st assms gen_claim [of s k w g t] gen_claim_less [of s k w g t g0] by simp
  next
    case False
    then show ?thesis using st assms gen_claim_other [of s k' w g t k g0] by simp
  qed
qed

lemma gen_step_trans:
  assumes "inv s" "step s e t" "\<exists>g1. gen s k = Some g1 \<and> g \<le> g1"
  shows "\<exists>g1. gen t k = Some g1 \<and> g \<le> g1"
  using assms gen_step_mono by (meson order_trans)

lemma traced_inv: "traced step s tr t \<Longrightarrow> inv s \<Longrightarrow> inv t"
  by (erule traced_invariant) (auto intro: inv_step)

lemma gen_mono:
  "traced step s tr t \<Longrightarrow> inv s \<Longrightarrow> gen s k = Some g0 \<Longrightarrow> \<exists>g1. gen t k = Some g1 \<and> g0 \<le> g1"
proof (induction rule: traced.induct)
  case (traced_silent s tr t u)
  show ?case
    using gen_step_trans [OF traced_inv [OF traced_silent.hyps(1) traced_silent.prems(1)]
        traced_silent.hyps(2)] traced_silent by blast
next
  case (traced_label s tr t e u)
  show ?case
    using gen_step_trans [OF traced_inv [OF traced_label.hyps(1) traced_label.prems(1)]
        traced_label.hyps(2)] traced_label by blast
qed simp

lemma gen_ge_claims:
  "traced step s tr t \<Longrightarrow> inv s \<Longrightarrow> (k, w, g) \<in> set tr \<Longrightarrow> \<exists>g1. gen t k = Some g1 \<and> g \<le> g1"
proof (induction rule: traced.induct)
  case (traced_silent s tr t u)
  show ?case
    using gen_step_trans [OF traced_inv [OF traced_silent.hyps(1) traced_silent.prems(1)]
        traced_silent.hyps(2)] traced_silent by blast
next
  case (traced_label s tr t e u)
  then have t: "inv t" using traced_inv by blast
  show ?case
  proof (cases "(k, w, g) \<in> set tr")
    case True
    then show ?thesis using gen_step_trans [OF t traced_label.hyps(2)] traced_label by blast
  next
    case False
    then show ?thesis using traced_label gen_claim [OF t] by auto
  qed
qed simp

lemma claim_above_initial:
  "traced step s tr t \<Longrightarrow> inv s \<Longrightarrow> gen s k = Some g0 \<Longrightarrow> (k, w, g) \<in> set tr \<Longrightarrow> g0 < g"
proof (induction rule: traced.induct)
  case (traced_label s tr t e u)
  then have "inv t" and "\<exists>g1. gen t k = Some g1 \<and> g0 \<le> g1"
    using traced_inv gen_mono by blast+
  then show ?case using traced_label gen_claim_less [of t k w g u] by auto
qed auto

theorem generations_increase:
  "traced step s tr t \<Longrightarrow> inv s \<Longrightarrow>
     sorted_wrt (\<lambda>(k, w, g) (k', w', g'). k = k' \<longrightarrow> g < g') tr"
proof (induction rule: traced.induct)
  case (traced_label s tr t e u)
  obtain k w g where e: "e = (k, w, g)" by (cases e) auto
  have "inv t" using traced_label traced_inv by blast
  then have "g' < g" if "(k, w', g') \<in> set tr" for w' g'
    using gen_ge_claims [OF traced_label.hyps(1) traced_label.prems that]
      gen_claim_less [of t k w g u] traced_label.hyps(2) e by auto
  then show ?case using traced_label by (auto simp: sorted_wrt_append e)
qed auto

theorem stale_after_claim:
  assumes "traced step s (tr1 @ (k, w, g) # tr2) t" and "inv s" and "current t k w' g"
  shows "(k, w2, g2) \<notin> set tr2"
proof
  assume "(k, w2, g2) \<in> set tr2"
  obtain m where m: "traced step s (tr1 @ [(k, w, g)]) m" "traced step m tr2 t"
    using traced_split [of step s "tr1 @ [(k, w, g)]" tr2 t] assms(1) by auto
  have "inv m" using traced_inv [OF m(1) assms(2)] .
  then have invs: "inv m" "inv t" using traced_inv [OF m(2)] by blast+
  obtain gm where gm: "gen m k = Some gm" "g \<le> gm" 
    using gen_ge_claims [OF m(1) assms(2), of k w g] by auto
  have "gm < g2" using claim_above_initial [OF m(2) invs(1) gm(1)] \<open>(k, w2, g2) \<in> set tr2\<close> by blast
  moreover have "g2 \<le> g"
    using gen_ge_claims [OF m(2) invs(1) \<open>(k, w2, g2) \<in> set tr2\<close>] current_gen [OF invs(2) assms(3)] by simp
  ultimately show False using gm(2) by simp
qed

theorem current_unique:
  assumes "inv s" "current s k w g" "current s k w' g'"
  shows "w = w' \<and> g = g'"
  using assms current_gen [of s k w g] current_gen [of s k w' g'] current_holder [of s k w g]
    current_holder [of s k w' g']
  by simp

lemma holder_after_claim:
  "traced step s tr t \<Longrightarrow> inv s \<Longrightarrow> tr = tr1 @ (k, w, g) # tr2 \<Longrightarrow> k \<notin> fst ` set tr2 \<Longrightarrow>
     holder t k = Some w \<or> holder t k = None"
proof (induction arbitrary: tr2 rule: traced.induct)
  case (traced_silent s tr t u)
  then have "inv t" using traced_inv by blast
  moreover obtain g1 where "gen t k = Some g1"
    using gen_ge_claims [OF traced_silent.hyps(1) traced_silent.prems(1), of k w g] traced_silent.prems by auto
  ultimately show ?case using traced_silent holder_silent [of t u k g1] by auto
next
  case (traced_label s tr t e u)
  then have t: "inv t" using traced_inv by blast
  show ?case
  proof (cases tr2 rule: rev_cases)
    case Nil
    then show ?thesis using traced_label t holder_claim [of t k w g u] by simp
  next
    case (snoc tr2' e')
    obtain k' w' g' where "e = (k', w', g')" by (cases e) auto
    then show ?thesis
      using traced_label snoc t holder_claim_other [of t k' w' g' u k] by auto
  qed
qed simp

theorem current_is_last_claimer:
  assumes "traced step s (tr1 @ (k, w, g) # tr2) t" and "inv s" and "current t k w' g"
  shows "w' = w \<and> k \<notin> fst ` set tr2"
proof -
  have none: "k \<notin> fst ` set tr2"
    using stale_after_claim [OF assms] by auto
  have "inv t" using traced_inv [OF assms(1, 2)] .
  then show ?thesis
    using holder_after_claim [OF assms(1, 2) refl none] current_holder [OF _ assms(3)] none by auto
qed

end

end
