(* ===== verification/Schedule_Leases.thy ===== *)
theory Schedule_Leases
  imports Fencing
begin

text \<open>
  Model of \<^verbatim>\<open>supercli-core/src/schedule_leases.rs\<close>: the cross-process lease table that makes
  scheduled runs single-flight. A worker (\<open>schedule_leases\<close>) names its tenant, its owner id and its
  time to live; the database (\<open>lease_db\<close>) is the list of rows of \<^verbatim>\<open>schedule_leases\<close> behind an SQL
  connection. Expiry is compared with the database clock inside the statement, so each statement
  reads one instant. A failed \<^verbatim>\<open>COMMIT\<close> or a \<^verbatim>\<open>ROLLBACK\<close> leaves the rows as they were when the
  transaction began.
\<close>

section \<open>Data\<close>

datatype lease_error = LeaseSql | LeaseOpen

record lease_row =
  lr_tenant :: string
  lr_schedule_id :: string
  lr_owner :: string
  lr_generation :: int
  lr_expires_at_ms :: int
  lr_claimed_at_ms :: int

record claim_info =
  ci_generation :: nat
  ci_took_over :: "(string \<times> nat) option"

record lease_db = sql_conn +
  ldb_rows :: "lease_row list"

record schedule_leases =
  sl_tenant :: string
  sl_owner :: string
  sl_ttl_ms :: nat

definition DEFAULT_TENANT :: string where
  "DEFAULT_TENANT = ''default''"

definition DEFAULT_LEASE_TTL_MS :: nat where
  "DEFAULT_LEASE_TTL_MS = 10 * 60 * 1000"

section \<open>Operations\<close>

text \<open>
  \<open>open_leases pid seq tenant\<close>: the store a process with id \<open>pid\<close> opens when the process-wide
  counter \<^verbatim>\<open>WORKER_SEQ\<close> reads \<open>seq\<close>; the second component is the counter afterwards. The file-system
  steps before it can fail, which is the first argument.
\<close>

definition open_leases ::
  "bool \<Rightarrow> nat \<Rightarrow> nat \<Rightarrow> string \<Rightarrow> (lease_error + schedule_leases) \<times> nat" where
  "open_leases can_open pid seq tenant =
     (if \<not> can_open then (Inl LeaseOpen, seq)
      else (Inr \<lparr>sl_tenant = tenant, sl_owner = ''pid'' @ show_nat pid @ ''-'' @ show_nat seq,
                  sl_ttl_ms = DEFAULT_LEASE_TTL_MS\<rparr>, Suc seq))"

definition with_ttl :: "nat \<Rightarrow> schedule_leases \<Rightarrow> schedule_leases" where
  "with_ttl ttl w = w\<lparr>sl_ttl_ms := ttl\<rparr>"

definition lease_key :: "lease_row \<Rightarrow> string \<times> string" where
  "lease_key r = (lr_tenant r, lr_schedule_id r)"

definition lease_stmt :: "(lease_db, lease_error, int) sm" where
  "lease_stmt = map_errS (\<lambda>_. LeaseSql) sql_stmt"

definition claim_locked ::
  "schedule_leases \<Rightarrow> string \<Rightarrow> (lease_db, lease_error, claim_info option) sm" where
  "claim_locked w sid =
     bindS lease_stmt (\<lambda>_.
     bindS (getS (\<lambda>db. row_at lease_key (ldb_rows db) (sl_tenant w, sid))) (\<lambda>prev.
     case prev of
       None \<Rightarrow>
         bindS lease_stmt (\<lambda>now.
         bindS (modifyS (\<lambda>db. db\<lparr>ldb_rows := ldb_rows db @
             [\<lparr>lr_tenant = sl_tenant w, lr_schedule_id = sid, lr_owner = sl_owner w,
               lr_generation = 1, lr_expires_at_ms = now + as_i64 (sl_ttl_ms w),
               lr_claimed_at_ms = now\<rparr>]\<rparr>)) (\<lambda>_.
         retS (Some \<lparr>ci_generation = 1, ci_took_over = None\<rparr>)))
     | Some p \<Rightarrow>
         bindS lease_stmt (\<lambda>now.
         let hit = (\<lambda>r. lease_key r = (sl_tenant w, sid) \<and>
                        (lr_owner r = '''' \<or> lr_expires_at_ms r \<le> now)) in
         bindS (getS (\<lambda>db. row_count hit (ldb_rows db))) (\<lambda>changed.
         bindS (modifyS (\<lambda>db. db\<lparr>ldb_rows := row_update hit
             (\<lambda>r. r\<lparr>lr_owner := sl_owner w, lr_expires_at_ms := now + as_i64 (sl_ttl_ms w),
                    lr_claimed_at_ms := now, lr_generation := lr_generation r + 1\<rparr>)
             (ldb_rows db)\<rparr>)) (\<lambda>_.
         if changed = 0 then retS None
         else retS (Some \<lparr>ci_generation = nat (lr_generation p) + 1,
                ci_took_over = (if lr_owner p = '''' then None
                  else Some (lr_owner p, nat (lr_claimed_at_ms p)))\<rparr>))))))"

definition claim :: "schedule_leases \<Rightarrow> string \<Rightarrow> (lease_db, lease_error, claim_info option) sm" where
  "claim w sid db =
     (case lease_stmt db of
        (Inl e, db1) \<Rightarrow> (Inl e, db1)
      | (Inr _, db1) \<Rightarrow>
          (case claim_locked w sid db1 of
             (Inr info, db2) \<Rightarrow>
               (case lease_stmt db2 of
                  (Inl e, db3) \<Rightarrow> (Inl e, db3\<lparr>ldb_rows := ldb_rows db1\<rparr>)
                | (Inr _, db3) \<Rightarrow> (Inr info, db3))
           | (Inl e, db2) \<Rightarrow> (Inl e, (snd (lease_stmt db2))\<lparr>ldb_rows := ldb_rows db1\<rparr>)))"

definition renew :: "schedule_leases \<Rightarrow> string \<Rightarrow> (lease_db, lease_error, bool) sm" where
  "renew w sid =
     bindS lease_stmt (\<lambda>now.
     let hit = (\<lambda>r. lease_key r = (sl_tenant w, sid) \<and> lr_owner r = sl_owner w \<and>
                    lr_expires_at_ms r > now) in
     bindS (getS (\<lambda>db. row_count hit (ldb_rows db))) (\<lambda>changed.
     bindS (modifyS (\<lambda>db. db\<lparr>ldb_rows := row_update hit
         (\<lambda>r. r\<lparr>lr_expires_at_ms := now + as_i64 (sl_ttl_ms w)\<rparr>) (ldb_rows db)\<rparr>)) (\<lambda>_.
     retS (changed = 1))))"

definition release :: "schedule_leases \<Rightarrow> string \<Rightarrow> (lease_db, lease_error, unit) sm" where
  "release w sid =
     bindS lease_stmt (\<lambda>_.
     modifyS (\<lambda>db. db\<lparr>ldb_rows := row_update
         (\<lambda>r. lease_key r = (sl_tenant w, sid) \<and> lr_owner r = sl_owner w)
         (\<lambda>r. r\<lparr>lr_owner := '''', lr_expires_at_ms := 0\<rparr>) (ldb_rows db)\<rparr>))"

text \<open>
  A fence is the worker, the schedule and the generation it claimed. The first argument says whether
  the mutex around the store is poisoned.
\<close>

definition is_current :: "bool \<Rightarrow> schedule_leases \<Rightarrow> string \<Rightarrow> nat \<Rightarrow> lease_db \<Rightarrow> bool \<times> lease_db" where
  "is_current poisoned w sid g db =
     (if poisoned then (False, db)
      else (case lease_stmt db of
          (Inl _, db') \<Rightarrow> (False, db')
        | (Inr now, db') \<Rightarrow>
            (row_count (\<lambda>r. lease_key r = (sl_tenant w, sid) \<and> lr_owner r = sl_owner w \<and>
               lr_generation r = as_i64 g \<and> lr_expires_at_ms r > now) (ldb_rows db') = 1, db')))"

record lease_view =
  lv_owner :: string
  lv_generation :: nat
  lv_expires_at_ms :: nat
  lv_claimed_at_ms :: nat

definition lease_row_of :: "schedule_leases \<Rightarrow> string \<Rightarrow> (lease_db, lease_error, lease_view option) sm" where
  "lease_row_of w sid =
     bindS lease_stmt (\<lambda>_.
     getS (\<lambda>db. map_option
       (\<lambda>r. \<lparr>lv_owner = lr_owner r, lv_generation = nat (lr_generation r),
              lv_expires_at_ms = nat (lr_expires_at_ms r), lv_claimed_at_ms = nat (lr_claimed_at_ms r)\<rparr>)
       (row_at lease_key (ldb_rows db) (sl_tenant w, sid))))"

definition list_holders :: "schedule_leases \<Rightarrow> (lease_db, lease_error, (string \<times> string) list) sm" where
  "list_holders w =
     bindS lease_stmt (\<lambda>now.
     getS (\<lambda>db. map (\<lambda>r. (lr_schedule_id r, lr_owner r))
       (filter (\<lambda>r. lr_tenant r = sl_tenant w \<and> lr_expires_at_ms r > now) (ldb_rows db))))"

text \<open>Reading a negative expiry as an unsigned column is an error, which ends the listing.\<close>

definition list_stale ::
  "schedule_leases \<Rightarrow> (lease_db, lease_error, (string \<times> string \<times> nat) list) sm" where
  "list_stale w =
     bindS lease_stmt (\<lambda>now.
     bindS (getS (\<lambda>db. filter (\<lambda>r. lr_tenant r = sl_tenant w \<and> lr_owner r \<noteq> '''' \<and>
       lr_expires_at_ms r \<le> now) (ldb_rows db))) (\<lambda>rows.
     if \<exists>r\<in>set rows. lr_expires_at_ms r < 0 then throwS LeaseSql
     else retS (map (\<lambda>r. (lr_schedule_id r, lr_owner r, nat (lr_expires_at_ms r))) rows)))"

section \<open>What the table promises\<close>

text \<open>
  The abstract specification is a finite map from keys to rows. \<open>spec_claim\<close> is one atomic claim at
  instant \<open>now\<close>.
\<close>

definition lease_map :: "lease_db \<Rightarrow> string \<times> string \<Rightarrow> lease_row option" where
  "lease_map db = row_at lease_key (ldb_rows db)"

definition fresh_lease :: "schedule_leases \<Rightarrow> string \<Rightarrow> int \<Rightarrow> int \<Rightarrow> lease_row" where
  "fresh_lease w sid now g =
     \<lparr>lr_tenant = sl_tenant w, lr_schedule_id = sid, lr_owner = sl_owner w, lr_generation = g,
      lr_expires_at_ms = now + as_i64 (sl_ttl_ms w), lr_claimed_at_ms = now\<rparr>"

definition spec_claim ::
  "schedule_leases \<Rightarrow> string \<Rightarrow> int \<Rightarrow> (string \<times> string \<Rightarrow> lease_row option)
     \<Rightarrow> claim_info option \<times> (string \<times> string \<Rightarrow> lease_row option)" where
  "spec_claim w sid now m =
     (let k = (sl_tenant w, sid) in
      case m k of
        None \<Rightarrow> (Some \<lparr>ci_generation = 1, ci_took_over = None\<rparr>, m(k \<mapsto> fresh_lease w sid now 1))
      | Some p \<Rightarrow>
          if lr_owner p = '''' \<or> lr_expires_at_ms p \<le> now
          then (Some \<lparr>ci_generation = nat (lr_generation p) + 1,
                  ci_took_over = (if lr_owner p = '''' then None
                    else Some (lr_owner p, nat (lr_claimed_at_ms p)))\<rparr>,
                m(k \<mapsto> fresh_lease w sid now (lr_generation p + 1)))
          else (None, m))"

definition lease_inv :: "lease_db \<Rightarrow> bool" where
  "lease_inv db = (pk_ok lease_key (ldb_rows db) \<and> (\<forall>r\<in>set (ldb_rows db). 1 \<le> lr_generation r))"

text \<open>
  The steps of the system: any worker may run any operation at any time, and between operations the
  script and the clock are whatever the environment makes them. A successful claim is labelled with
  the key, the owner and the generation. A worker's owner id is never empty (\<open>open_leases\<close>).
\<close>

inductive lease_step ::
  "lease_db \<Rightarrow> ((string \<times> string) \<times> string \<times> int) option \<Rightarrow> lease_db \<Rightarrow> bool" where
  ls_won: "claim w sid db = (Inr (Some info), db') \<Longrightarrow> sl_owner w \<noteq> '''' \<Longrightarrow>
     lease_step db (Some ((sl_tenant w, sid), sl_owner w, int (ci_generation info))) db'"
| ls_lost: "claim w sid db = (Inr None, db') \<Longrightarrow> lease_step db None db'"
| ls_claim_err: "claim w sid db = (Inl e, db') \<Longrightarrow> lease_step db None db'"
| ls_renew: "renew w sid db = (rb, db') \<Longrightarrow> lease_step db None db'"
| ls_release: "release w sid db = (ru, db') \<Longrightarrow> lease_step db None db'"
| ls_check: "is_current p w sid g db = (b, db') \<Longrightarrow> lease_step db None db'"
| ls_environment: "lease_step db None (db\<lparr>sc_script := sc, sc_now := t\<rparr>)"

inductive_cases lease_step_wonE: "lease_step db (Some e) db'"
inductive_cases lease_step_silentE: "lease_step db None db'"

definition fence_current :: "lease_db \<Rightarrow> string \<times> string \<Rightarrow> string \<Rightarrow> int \<Rightarrow> bool" where
  "fence_current db k ow g =
     (ow \<noteq> '''' \<and> 0 \<le> g \<and> g < 2 ^ 63 \<and>
      fst (is_current False \<lparr>sl_tenant = fst k, sl_owner = ow, sl_ttl_ms = 0\<rparr> (snd k) (nat g) db))"

lemma lease_stmt_cases:
  obtains (fail) sc t where "lease_stmt db = (Inl LeaseSql, db\<lparr>sc_script := sc, sc_now := t\<rparr>)"
      "t \<in> sql_times db" "snd ` set sc \<subseteq> sql_times db"
  | (ok) sc t where "lease_stmt db = (Inr t, db\<lparr>sc_script := sc, sc_now := t\<rparr>)"
      "t \<in> sql_times db" "snd ` set sc \<subseteq> sql_times db"
  by (rule sql_stmt_cases [of db]) (auto simp: lease_stmt_def map_errS_def)

lemma lease_key_simps [simp]:
  "lease_key (r\<lparr>lr_owner := a\<rparr>) = lease_key r"
  "lease_key (r\<lparr>lr_expires_at_ms := b\<rparr>) = lease_key r"
  "lease_key (r\<lparr>lr_claimed_at_ms := b\<rparr>) = lease_key r"
  "lease_key (r\<lparr>lr_generation := b\<rparr>) = lease_key r"
  "lease_key (fresh_lease w sid now g) = (sl_tenant w, sid)"
  by (simp_all add: lease_key_def fresh_lease_def)

section \<open>Proofs\<close>

lemma lease_map_env [simp]: "lease_map (db\<lparr>sc_script := sc, sc_now := t\<rparr>) = lease_map db"
  by (simp add: lease_map_def)

lemma lease_inv_env [simp]: "lease_inv (db\<lparr>sc_script := sc, sc_now := t\<rparr>) = lease_inv db"
  by (simp add: lease_inv_def)

lemma claim_locked_refines:
  assumes "pk_ok lease_key (ldb_rows db)" and "claim_locked w sid db = (Inr info, db')"
  shows "\<exists>now\<in>sql_times db. spec_claim w sid now (lease_map db) = (info, lease_map db')"
proof -
  let ?k = "(sl_tenant w, sid)"
  obtain sc1 t1 where s1: "lease_stmt db = (Inr t1, db\<lparr>sc_script := sc1, sc_now := t1\<rparr>)"
      "t1 \<in> sql_times db" "snd ` set sc1 \<subseteq> sql_times db"
    using assms(2) by (cases db rule: lease_stmt_cases) (auto simp: claim_locked_def sm_simps)
  let ?db1 = "db\<lparr>sc_script := sc1, sc_now := t1\<rparr>"
  obtain sc2 t2 where s2: "lease_stmt ?db1 = (Inr t2, ?db1\<lparr>sc_script := sc2, sc_now := t2\<rparr>)"
      "t2 \<in> sql_times ?db1"
    using assms(2) s1
    by (cases ?db1 rule: lease_stmt_cases) (auto simp: claim_locked_def sm_simps split: option.splits)
  have t2: "t2 \<in> sql_times db" using s1 s2(2) by (auto simp: sql_times_def)
  show ?thesis
  proof (cases "row_at lease_key (ldb_rows db) ?k")
    case None
    then have "db' = db\<lparr>sc_script := sc2, sc_now := t2,
        ldb_rows := ldb_rows db @ [fresh_lease w sid t2 1]\<rparr>"
      using assms(2) s1 s2 by (auto simp: claim_locked_def sm_simps fresh_lease_def)
    then have "lease_map db' = (lease_map db)(?k \<mapsto> fresh_lease w sid t2 1)"
      using None by (auto simp: lease_map_def fun_eq_iff split: option.splits)
    then show ?thesis using None assms(2) s1 s2
      by (intro bexI [OF _ t2]) (auto simp: spec_claim_def claim_locked_def sm_simps lease_map_def)
  next
    case (Some p)
    let ?Q = "\<lambda>r. lr_owner r = '''' \<or> lr_expires_at_ms r \<le> t2"
    have key: "lr_tenant p = sl_tenant w" "lr_schedule_id p = sid"
      using row_at_SomeD [OF Some] by (auto simp: lease_key_def)
    have upd: "lease_map db' = (if ?Q p then
        (lease_map db)(?k \<mapsto> fresh_lease w sid t2 (lr_generation p + 1)) else lease_map db)"
      using Some assms(2) s1 s2 key
      by (auto simp: lease_map_def claim_locked_def sm_simps Let_def row_at_update_key fresh_lease_def
          split: if_splits)
    show ?thesis using Some assms s1 s2 upd
      by (intro bexI [OF _ t2])
        (auto simp: spec_claim_def claim_locked_def sm_simps Let_def lease_map_def row_count_key
          split: if_splits)
  qed
qed

lemma claim_locked_rows_err:
  "claim_locked w sid db = (Inl e, db') \<Longrightarrow> lease_map db' = lease_map db"
  by (cases db rule: lease_stmt_cases;
      cases "snd (lease_stmt db)" rule: lease_stmt_cases)
    (auto simp: claim_locked_def sm_simps Let_def split: option.splits if_splits)

lemma claim_effect:
  assumes "pk_ok lease_key (ldb_rows db)" and "claim w sid db = (r, db')"
  shows "(\<exists>now\<in>sql_times db. \<exists>info. r = Inr info \<and>
            spec_claim w sid now (lease_map db) = (info, lease_map db')) \<or>
         (\<exists>e. r = Inl e \<and> lease_map db' = lease_map db)"
proof (cases db rule: lease_stmt_cases)
  case (fail sc t)
  then show ?thesis using assms(2) by (auto simp: claim_def)
next
  case (ok sc t)
  let ?db1 = "db\<lparr>sc_script := sc, sc_now := t\<rparr>"
  obtain r2 db2 where c: "claim_locked w sid ?db1 = (r2, db2)" by fastforce
  show ?thesis
  proof (cases r2)
    case (Inl e)
    then show ?thesis using assms(2) ok c by (auto simp: claim_def lease_map_def)
  next
    case (Inr info)
    have "\<exists>now\<in>sql_times ?db1. spec_claim w sid now (lease_map db) = (info, lease_map db2)"
      using claim_locked_refines [of ?db1 w sid info db2] c Inr assms(1) by simp
    moreover have "sql_times ?db1 \<subseteq> sql_times db" using ok by (auto simp: sql_times_def)
    ultimately have "\<exists>now\<in>sql_times db. spec_claim w sid now (lease_map db) = (info, lease_map db2)"
      by blast
    then show ?thesis using assms(2) ok c Inr
      by (cases db2 rule: lease_stmt_cases) (auto simp: claim_def lease_map_def)
  qed
qed

lemma claim_err: "claim w sid db = (Inl e, db') \<Longrightarrow> e = LeaseSql"
  by (cases e) (auto simp: claim_def claim_locked_def sm_simps lease_stmt_def Let_def
      split: prod.splits sum.splits option.splits if_splits)

lemma lease_inv_update:
  assumes "\<And>r. lease_key (f r) = lease_key r" and "\<And>r. lr_generation r \<le> lr_generation (f r)"
    and "pk_ok lease_key rows \<and> (\<forall>r\<in>set rows. 1 \<le> lr_generation r)"
  shows "pk_ok lease_key (row_update P f rows) \<and> (\<forall>r\<in>set (row_update P f rows). 1 \<le> lr_generation r)"
  using assms by (auto simp: pk_ok_row_update set_row_update intro: order_trans)

lemma claim_locked_inv: "lease_inv db \<Longrightarrow> lease_inv (snd (claim_locked w sid db))"
proof (cases db rule: lease_stmt_cases)
  case (ok sc t)
  assume inv: "lease_inv db"
  let ?db1 = "db\<lparr>sc_script := sc, sc_now := t\<rparr>"
  show ?thesis
  proof (cases "row_at lease_key (ldb_rows db) (sl_tenant w, sid)")
    case None
    then have "(sl_tenant w, sid) \<notin> lease_key ` set (ldb_rows db)" by (simp add: row_at_None_iff)
    then show ?thesis using ok None inv
      by (cases ?db1 rule: lease_stmt_cases)
        (auto simp: claim_locked_def sm_simps lease_inv_def lease_key_def)
  next
    case (Some p)
    then show ?thesis using ok inv
      by (cases ?db1 rule: lease_stmt_cases)
        (auto simp: claim_locked_def sm_simps Let_def lease_inv_def lease_key_def pk_ok_row_update
          set_row_update)
  qed
qed (simp add: claim_locked_def sm_simps)

lemma claim_inv: "lease_inv db \<Longrightarrow> lease_inv (snd (claim w sid db))"
proof (cases db rule: lease_stmt_cases)
  case (ok sc t)
  assume inv: "lease_inv db"
  let ?db1 = "db\<lparr>sc_script := sc, sc_now := t\<rparr>"
  obtain r2 db2 where c: "claim_locked w sid ?db1 = (r2, db2)" by fastforce
  moreover have "lease_inv db2" using claim_locked_inv [of ?db1 w sid] inv c by simp
  ultimately show ?thesis using ok inv
    by (cases r2; cases db2 rule: lease_stmt_cases) (auto simp: claim_def lease_inv_def)
qed (simp add: claim_def)

lemma renew_inv: "lease_inv db \<Longrightarrow> lease_inv (snd (renew w sid db))"
  by (cases db rule: lease_stmt_cases)
    (auto simp: renew_def sm_simps Let_def lease_inv_def pk_ok_row_update set_row_update)

lemma release_inv: "lease_inv db \<Longrightarrow> lease_inv (snd (release w sid db))"
  by (cases db rule: lease_stmt_cases)
    (auto simp: release_def sm_simps lease_inv_def pk_ok_row_update set_row_update)

lemma is_current_rows: "ldb_rows (snd (is_current p w sid g db)) = ldb_rows db"
  by (cases db rule: lease_stmt_cases) (auto simp: is_current_def)

lemma lease_step_inv: "lease_step db e db' \<Longrightarrow> lease_inv db \<Longrightarrow> lease_inv db'"
proof (induction rule: lease_step.induct)
  case (ls_check p w sid g db b db')
  then show ?case using is_current_rows [of p w sid g db] by (simp add: lease_inv_def)
next
  case (ls_renew w sid db rb db')
  then show ?case using renew_inv [of db w sid] by simp
next
  case (ls_release w sid db ru db')
  then show ?case using release_inv [of db w sid] by simp
next
  case (ls_won w sid db info db')
  then show ?case using claim_inv [of db w sid] by simp
next
  case (ls_lost w sid db db')
  then show ?case using claim_inv [of db w sid] by simp
next
  case (ls_claim_err w sid db e db')
  then show ?case using claim_inv [of db w sid] by simp
qed simp

definition lease_gen :: "lease_db \<Rightarrow> string \<times> string \<Rightarrow> int option" where
  "lease_gen db k = map_option lr_generation (lease_map db k)"

lemma renew_gen: "lease_gen (snd (renew w sid db)) k = lease_gen db k"
  by (cases db rule: lease_stmt_cases; cases "lease_map db k")
    (auto simp: renew_def sm_simps Let_def lease_gen_def lease_map_def row_at_update)

lemma release_gen: "lease_gen (snd (release w sid db)) k = lease_gen db k"
  by (cases db rule: lease_stmt_cases; cases "lease_map db k")
    (auto simp: release_def sm_simps lease_gen_def lease_map_def row_at_update)

lemma lease_inv_gen: "lease_inv db \<Longrightarrow> lease_map db k = Some r \<Longrightarrow> 1 \<le> lr_generation r"
  by (auto simp: lease_inv_def lease_map_def dest: row_at_SomeD)

lemma claim_won_gen:
  assumes "lease_inv db" "claim w sid db = (Inr (Some info), db')"
  shows "lease_gen db' (sl_tenant w, sid) = Some (int (ci_generation info))"
    and "lease_gen db (sl_tenant w, sid) = Some g0 \<Longrightarrow> g0 < int (ci_generation info)"
    and "k \<noteq> (sl_tenant w, sid) \<Longrightarrow> lease_gen db' k = lease_gen db k"
proof -
  obtain now where sp: "spec_claim w sid now (lease_map db) = (Some info, lease_map db')"
    using claim_effect [OF _ assms(2)] assms(1) by (auto simp: lease_inv_def)
  show "lease_gen db' (sl_tenant w, sid) = Some (int (ci_generation info))"
    using sp [symmetric] lease_inv_gen [OF assms(1)]
    by (cases "lease_map db (sl_tenant w, sid)")
      (force simp: spec_claim_def lease_gen_def fresh_lease_def split: if_splits)+
  show "lease_gen db (sl_tenant w, sid) = Some g0 \<Longrightarrow> g0 < int (ci_generation info)"
    using sp lease_inv_gen [OF assms(1)]
    by (auto simp: spec_claim_def lease_gen_def split: if_splits)
  show "k \<noteq> (sl_tenant w, sid) \<Longrightarrow> lease_gen db' k = lease_gen db k"
    using sp [symmetric]
    by (auto simp: spec_claim_def Let_def lease_gen_def split: if_splits option.splits)
qed

lemma claim_other_map:
  assumes "lease_inv db" "claim w sid db = (r, db')" "r = Inr None \<or> r = Inl e"
  shows "lease_map db' = lease_map db"
  using claim_effect [OF _ assms(2)] assms(1, 3)
  by (auto simp: lease_inv_def spec_claim_def Let_def split: if_splits option.splits)

definition lease_holder :: "lease_db \<Rightarrow> string \<times> string \<Rightarrow> string option" where
  "lease_holder db k = (case lease_map db k of None \<Rightarrow> None
     | Some r \<Rightarrow> if lr_owner r = '''' then None else Some (lr_owner r))"

lemma is_current_row:
  assumes "lease_inv db" and "g < 2 ^ 63" and "fst (is_current p w sid g db)"
  shows "\<exists>r. lease_map db (sl_tenant w, sid) = Some r \<and> lr_owner r = sl_owner w \<and>
     lr_generation r = int g \<and> (\<exists>now\<in>sql_times db. now < lr_expires_at_ms r)"
proof (cases db rule: lease_stmt_cases)
  case (fail sc t)
  then show ?thesis using assms(3) by (auto simp: is_current_def split: if_splits)
next
  case (ok sc t)
  then show ?thesis using assms
    by (auto simp: is_current_def lease_inv_def lease_map_def row_count_key as_i64_def
        split: if_splits option.splits)
qed

lemma fence_current_row:
  assumes "lease_inv db" and "fence_current db k ow g"
  shows "\<exists>r. lease_map db k = Some r \<and> lr_owner r = ow \<and> lr_owner r \<noteq> '''' \<and> lr_generation r = g"
  using is_current_row [of db "nat g" False "\<lparr>sl_tenant = fst k, sl_owner = ow, sl_ttl_ms = 0\<rparr>" "snd k"]
    assms by (auto simp: fence_current_def nat_less_iff)

lemma renew_holder: "lease_holder (snd (renew w sid db)) k = lease_holder db k"
  by (cases db rule: lease_stmt_cases; cases "lease_map db k")
    (auto simp: renew_def sm_simps Let_def lease_holder_def lease_map_def row_at_update)

lemma release_holder:
  "lease_holder (snd (release w sid db)) k = lease_holder db k \<or> lease_holder (snd (release w sid db)) k = None"
  by (cases db rule: lease_stmt_cases; cases "lease_map db k")
    (auto simp: release_def sm_simps lease_holder_def lease_map_def row_at_update)

lemma claim_won_holder:
  assumes "lease_inv db" "claim w sid db = (Inr (Some info), db')" "sl_owner w \<noteq> ''''"
  shows "lease_holder db' (sl_tenant w, sid) = Some (sl_owner w)"
    and "k \<noteq> (sl_tenant w, sid) \<Longrightarrow> lease_holder db' k = lease_holder db k"
proof -
  obtain now where sp: "spec_claim w sid now (lease_map db) = (Some info, lease_map db')"
    using claim_effect [OF _ assms(2)] assms(1) by (auto simp: lease_inv_def)
  show "lease_holder db' (sl_tenant w, sid) = Some (sl_owner w)"
    using sp [symmetric] assms(3)
    by (auto simp: spec_claim_def Let_def lease_holder_def fresh_lease_def split: if_splits option.splits)
  show "k \<noteq> (sl_tenant w, sid) \<Longrightarrow> lease_holder db' k = lease_holder db k"
    using sp [symmetric]
    by (auto simp: spec_claim_def Let_def lease_holder_def split: if_splits option.splits)
qed

lemma lease_silent:
  assumes "lease_inv db" "lease_step db None db'"
  shows "lease_gen db' k = lease_gen db k"
    and "lease_holder db' k = lease_holder db k \<or> lease_holder db' k = None"
proof -
  have "lease_map db' = lease_map db \<or> (\<exists>w sid. db' = snd (renew w sid db)) \<or>
    (\<exists>w sid. db' = snd (release w sid db))"
    using assms(2)
  proof (cases rule: lease_step.cases)
    case (ls_renew w sid rb)
    then have "db' = snd (renew w sid db)" by simp
    then show ?thesis by blast
  next
    case (ls_release w sid ru)
    then have "db' = snd (release w sid db)" by simp
    then show ?thesis by blast
  next
    case (ls_check p w sid g b)
    then show ?thesis using is_current_rows [of p w sid g db] by (simp add: lease_map_def)
  qed (auto dest: claim_other_map [OF assms(1)])
  then consider "lease_map db' = lease_map db" | w sid where "db' = snd (renew w sid db)"
    | w sid where "db' = snd (release w sid db)" by blast
  then have "lease_gen db' k = lease_gen db k \<and>
      (lease_holder db' k = lease_holder db k \<or> lease_holder db' k = None)"
  proof cases
    case 1
    then show ?thesis by (simp add: lease_gen_def lease_holder_def)
  next
    case 2
    then show ?thesis by (simp add: renew_gen renew_holder)
  next
    case (3 w sid)
    then show ?thesis using release_gen [of w sid db k] release_holder [of w sid db k] by simp
  qed
  then show "lease_gen db' k = lease_gen db k"
    and "lease_holder db' k = lease_holder db k \<or> lease_holder db' k = None" by auto
qed

interpretation slf: fencing lease_inv lease_gen lease_holder lease_step fence_current
proof
  fix s t :: lease_db and e assume "lease_inv s" "lease_step s e t"
  then show "lease_inv t" by (rule lease_step_inv [rotated])
next
  fix s t :: lease_db and k g assume "lease_inv s" "lease_step s None t" "lease_gen s k = Some g"
  then show "lease_gen t k = Some g" using lease_silent(1) by simp
next
  fix s t :: lease_db and k w g assume "lease_inv s" "lease_step s (Some (k, w, g)) t"
  then show "lease_gen t k = Some g" by (auto elim!: lease_step_wonE dest: claim_won_gen(1))
next
  fix s t :: lease_db and k w g g0
  assume "lease_inv s" "lease_step s (Some (k, w, g)) t" "lease_gen s k = Some g0"
  then show "g0 < g" by (auto elim!: lease_step_wonE dest: claim_won_gen(2))
next
  fix s t :: lease_db and k w g k' g'
  assume "lease_inv s" "lease_step s (Some (k, w, g)) t" "k' \<noteq> k" "lease_gen s k' = Some g'"
  then show "lease_gen t k' = Some g'" by (auto elim!: lease_step_wonE dest: claim_won_gen(3))
next
  fix s :: lease_db and k w g assume "lease_inv s" "fence_current s k w g"
  then show "lease_gen s k = Some g" using fence_current_row by (fastforce simp: lease_gen_def)
next
  fix s :: lease_db and k w g assume "lease_inv s" "fence_current s k w g"
  then show "lease_holder s k = Some w" using fence_current_row by (fastforce simp: lease_holder_def)
next
  fix s t :: lease_db and k w g assume "lease_inv s" "lease_step s (Some (k, w, g)) t"
  then show "lease_holder t k = Some w" by (auto elim!: lease_step_wonE dest: claim_won_holder(1))
next
  fix s t :: lease_db and k g assume "lease_inv s" "lease_step s None t" "lease_gen s k = Some g"
  then show "lease_holder t k = lease_holder s k \<or> lease_holder t k = None" by (auto dest: lease_silent(2))
next
  fix s t :: lease_db and k w g k' assume "lease_inv s" "lease_step s (Some (k, w, g)) t" "k' \<noteq> k"
  then show "lease_holder t k' = lease_holder s k'" by (auto elim!: lease_step_wonE dest: claim_won_holder(2))
qed

lemma fence_currentI:
  assumes "fst (is_current p w sid g db)" "sl_owner w \<noteq> ''''" "g < 2 ^ 63"
  shows "fence_current db (sl_tenant w, sid) (sl_owner w) (int g)"
  using assms
  by (cases db rule: lease_stmt_cases) (auto simp: fence_current_def is_current_def split: if_splits)

section \<open>Properties\<close>

text \<open>
  C3. Fencing: take any interleaving of claims, renewals, releases, fence checks and clock changes by
  any workers. If a worker's check of generation \<open>g\<close> passes at the end, then it is the worker that
  won generation \<open>g\<close>, and nobody (itself included) has won the schedule since. A superseded worker
  can never pass its check again.
\<close>

theorem fence_passes_only_for_last_claim:
  assumes "traced lease_step db (tr1 @ ((sl_tenant w, sid), ow, int g) # tr2) db'"
    and "lease_inv db" and "sl_owner w \<noteq> ''''" and "g < 2 ^ 63"
    and "fst (is_current p w sid g db')"
  shows "sl_owner w = ow \<and> (sl_tenant w, sid) \<notin> fst ` set tr2"
  using slf.current_is_last_claimer [OF assms(1, 2) fence_currentI [OF assms(5, 3, 4)]] .

definition ex_worker :: "string \<Rightarrow> schedule_leases" where
  "ex_worker ow = \<lparr>sl_tenant = ''default'', sl_owner = ow, sl_ttl_ms = 1000\<rparr>"

definition ex_lease_db :: "lease_row list \<Rightarrow> int \<Rightarrow> lease_db" where
  "ex_lease_db rows now = \<lparr>sc_script = [], sc_now = now, ldb_rows = rows\<rparr>"

definition ex_key :: "string \<times> string" where
  "ex_key = (''default'', ''nightly'')"

definition ex_row :: "string \<Rightarrow> int \<Rightarrow> int \<Rightarrow> lease_row" where
  "ex_row ow now g = fresh_lease (ex_worker ow) ''nightly'' now g"

lemmas ex_lease_defs = ex_worker_def ex_lease_db_def ex_row_def ex_key_def fresh_lease_def

lemmas lease_op_defs = claim_def claim_locked_def renew_def release_def is_current_def lease_stmt_def
  sql_stmt_def sm_simps Let_def row_at_def row_count_def row_update_def lease_key_def as_i64_def

lemma ex_first_claim:
  "claim (ex_worker ''a'') ''nightly'' (ex_lease_db [] 100) =
     (Inr (Some \<lparr>ci_generation = 1, ci_took_over = None\<rparr>), ex_lease_db [ex_row ''a'' 100 1] 100)"
  by (simp add: ex_lease_defs lease_op_defs)

lemma ex_takeover:
  "claim (ex_worker ''b'') ''nightly'' (ex_lease_db [ex_row ''a'' 100 1] 5000) =
     (Inr (Some \<lparr>ci_generation = 2, ci_took_over = Some (''a'', 100)\<rparr>),
      ex_lease_db [ex_row ''b'' 5000 2] 5000)"
  by (simp add: ex_lease_defs lease_op_defs)

lemma ex_trace:
  "traced lease_step (ex_lease_db [] 100) [(ex_key, ''a'', 1), (ex_key, ''b'', 2)]
     (ex_lease_db [ex_row ''b'' 5000 2] 5000)"
proof -
  have 1: "lease_step (ex_lease_db [] 100) (Some (ex_key, ''a'', 1)) (ex_lease_db [ex_row ''a'' 100 1] 100)"
    using ls_won [OF ex_first_claim] by (simp add: ex_worker_def ex_key_def)
  have 2: "lease_step (ex_lease_db [ex_row ''a'' 100 1] 100) None (ex_lease_db [ex_row ''a'' 100 1] 5000)"
    using ls_environment [of "ex_lease_db [ex_row ''a'' 100 1] 100" 5000 "[]"] by (simp add: ex_lease_db_def)
  have 3: "lease_step (ex_lease_db [ex_row ''a'' 100 1] 5000) (Some (ex_key, ''b'', 2))
      (ex_lease_db [ex_row ''b'' 5000 2] 5000)"
    using ls_won [OF ex_takeover] by (simp add: ex_worker_def ex_key_def)
  have "traced lease_step (ex_lease_db [] 100) ([] @ [(ex_key, ''a'', 1)]) (ex_lease_db [ex_row ''a'' 100 1] 100)"
    by (rule traced_label [where step = lease_step, OF traced_refl 1])
  from traced_label [where step = lease_step, OF traced_silent [where step = lease_step, OF this 2] 3]
  show ?thesis by simp
qed

theorem fence_passes_only_for_last_claim_witness:
  "fst (is_current False (ex_worker ''b'') ''nightly'' 2 (ex_lease_db [ex_row ''b'' 5000 2] 5000))
   \<and> sl_owner (ex_worker ''b'') = ''b'' \<and> ex_key \<notin> fst ` set ([] :: ((string \<times> string) \<times> string \<times> int) list)"
proof -
  have c: "fst (is_current False (ex_worker ''b'') ''nightly'' 2 (ex_lease_db [ex_row ''b'' 5000 2] 5000))"
    by (simp add: ex_lease_defs lease_op_defs)
  show ?thesis
    using fence_passes_only_for_last_claim [where db = "ex_lease_db [] 100"
        and ow = "''b''" and ?tr1.0 = "[(ex_key, ''a'', 1)]" and ?tr2.0 = "[]", OF _ _ _ _ c] ex_trace c
    by (simp add: ex_worker_def ex_lease_db_def lease_inv_def ex_key_def)
qed

text \<open>
  Generations identify claims: in any execution the successful claims of one schedule carry
  strictly increasing generations, across takeovers, releases and re-claims.
\<close>

lemma claim_generations_increase:
  assumes "traced lease_step db tr db'" and "lease_inv db"
  shows "sorted_wrt (\<lambda>(k, w, g) (k', w', g'). k = k' \<longrightarrow> g < g') tr"
  using slf.generations_increase [OF assms] .

text \<open>
  C17. A claim refines the atomic specification on the key-to-row map: when it returns a result, the
  result and the new map are those of one \<open>spec_claim\<close> at an instant the database clock showed
  during the call; when it returns an error the map is unchanged.
\<close>

theorem claim_refines_spec:
  assumes "lease_inv db"
  shows "case claim w sid db of
      (Inr info, db') \<Rightarrow> \<exists>now\<in>sql_times db. spec_claim w sid now (lease_map db) = (info, lease_map db')
    | (Inl e, db') \<Rightarrow> lease_map db' = lease_map db"
  using claim_effect [of db w sid "fst (claim w sid db)" "snd (claim w sid db)"] assms
  by (auto simp: lease_inv_def split: prod.splits sum.splits)

theorem claim_refines_spec_witness:
  "lease_inv (ex_lease_db [ex_row ''a'' 100 1] 5000) \<and>
   (\<exists>now\<in>{5000}. spec_claim (ex_worker ''b'') ''nightly'' now (lease_map (ex_lease_db [ex_row ''a'' 100 1] 5000)) =
      (Some \<lparr>ci_generation = 2, ci_took_over = Some (''a'', 100)\<rparr>,
       lease_map (ex_lease_db [ex_row ''b'' 5000 2] 5000)))"
proof -
  have i: "lease_inv (ex_lease_db [ex_row ''a'' 100 1] 5000)"
    by (simp add: ex_lease_defs lease_inv_def pk_ok_def)
  have "sql_times (ex_lease_db [ex_row ''a'' 100 1] 5000) = {5000}"
    by (simp add: ex_lease_db_def sql_times_def)
  then show ?thesis
    using claim_refines_spec [OF i, of "ex_worker ''b''" "''nightly''"] i by (simp add: ex_takeover)
qed

text \<open>
  Single flight: while a lease is owned and unexpired at every instant of a call, no claim by any worker (the holder included)
  wins it, and the table keeps every row.
\<close>

lemma live_lease_claim:
  assumes "lease_inv db" and "lease_map db (sl_tenant w, sid) = Some r" and "lr_owner r \<noteq> ''''"
    and "\<forall>t\<in>sql_times db. t < lr_expires_at_ms r" and "claim w sid db = (x, db')"
  shows "x \<in> {Inr None, Inl LeaseSql} \<and> lease_map db' = lease_map db"
proof -
  have "x = Inr None \<or> (\<exists>e. x = Inl e) \<and> lease_map db' = lease_map db"
    and "x = Inr None \<Longrightarrow> lease_map db' = lease_map db"
    using claim_effect [OF _ assms(5)] assms(1-4) by (force simp: lease_inv_def spec_claim_def)+
  moreover have "e = LeaseSql" if "x = Inl e" for e
    using claim_err [of w sid db e db'] assms(5) that by simp
  ultimately show ?thesis by auto
qed

text \<open>
  Only the owner changes a lease: renewing or releasing a lease held by somebody else leaves
  every row as it was, and the renewal does not report success.
\<close>

lemma stranger_cannot_renew_or_release:
  assumes "lease_inv db"
    and "\<forall>r. lease_map db (sl_tenant w, sid) = Some r \<longrightarrow> lr_owner r \<noteq> sl_owner w"
  shows "lease_map (snd (renew w sid db)) = lease_map db \<and> fst (renew w sid db) \<noteq> Inr True
    \<and> lease_map (snd (release w sid db)) = lease_map db"
proof (cases db rule: lease_stmt_cases)
  case (fail sc t)
  then show ?thesis by (simp add: renew_def release_def sm_simps)
next
  case (ok sc t)
  then show ?thesis using assms
    by (cases "lease_map db (sl_tenant w, sid)")
      (simp_all add: renew_def release_def sm_simps Let_def lease_map_def row_at_update_key
        row_count_key lease_inv_def)
qed

text \<open>
  Two stores opened by different processes, or one after the other in one process, never share
  an owner id, and no owner id is empty.
\<close>

lemma owner_ids_distinct:
  assumes "open_leases True pid seq ten = (Inr w, seq2)" and "open_leases True pid' seq' ten' = (Inr w', seq2')"
    and "(pid, seq) \<noteq> (pid', seq')"
  shows "sl_owner w \<noteq> sl_owner w' \<and> sl_owner w \<noteq> ''''"
proof -
  have dash: "CHR ''-'' \<notin> set (show_nat n)" for n
    using show_nat_digits [of "CHR ''-''" n] by (auto simp: byte_of_def)
  have "split_once CHR ''-'' (show_nat p @ CHR ''-'' # show_nat q) = Some (show_nat p, show_nat q)" for p q
    by (rule split_once_no_sep [OF dash])
  then have "show_nat pid @ CHR ''-'' # show_nat seq \<noteq> show_nat pid' @ CHR ''-'' # show_nat seq'"
    using assms(3) by (metis option.inject prod.inject show_nat_inj)
  then show ?thesis using assms(1, 2) by (auto simp: open_leases_def)
qed

end
