(* ===== verification/Hash_Chain.thy ===== *)
theory Hash_Chain
  imports Prelude
begin

text \<open>
  The contract of a hash-chained log and what follows from it. \<open>accept p l\<close> is the verifier's test
  of one line against the hash \<open>p\<close> of its predecessor: the line's own hash when the line is accepted.
  Both the action-review log and the grant audit log implement the contract. Tamper evidence is
  stated as a reduction: two accepted logs of the same length that end in the same hash are the same
  log, or the two logs themselves contain two different hashed messages with the same digest.
\<close>

fun chain_run :: "('h \<Rightarrow> 'l \<Rightarrow> 'h option) \<Rightarrow> 'h \<Rightarrow> 'l list \<Rightarrow> 'h option" where
  "chain_run accept p [] = Some p"
| "chain_run accept p (l # ls) = (case accept p l of None \<Rightarrow> None | Some h \<Rightarrow> chain_run accept h ls)"

lemma chain_run_append:
  "chain_run accept p (xs @ ys) =
     (case chain_run accept p xs of None \<Rightarrow> None | Some h \<Rightarrow> chain_run accept h ys)"
  by (induction xs arbitrary: p) (auto split: option.splits)

lemma chain_run_prefix:
  "chain_run accept p ls = Some h \<Longrightarrow> \<exists>h'. chain_run accept p (take n ls) = Some h'"
  using chain_run_append [of accept p "take n ls" "drop n ls"] by (auto split: option.splits)

locale hash_chain =
  fixes accept :: "'h \<Rightarrow> 'l \<Rightarrow> 'h option"
    and msg :: "'l \<Rightarrow> 'm"
    and digest :: "'m \<Rightarrow> 'h"
  assumes accept_digest: "accept p l = Some h \<Longrightarrow> h = digest (msg l)"
    and accept_prev: "accept p l = Some h \<Longrightarrow> accept p' l = Some h' \<Longrightarrow> p = p'"
    and accept_canonical: "accept p l = Some h \<Longrightarrow> accept p' l' = Some h \<Longrightarrow> msg l = msg l' \<Longrightarrow> l = l'"
begin

lemma same_digest_line:
  assumes "accept p l = Some h" "accept p' l' = Some h"
  shows "l = l' \<or> msg l \<noteq> msg l' \<and> digest (msg l) = digest (msg l')"
  using assms accept_digest accept_canonical by metis

lemma chain_ends_in_digest:
  assumes "chain_run accept g ls = Some h" "ls \<noteq> []"
  shows "h = digest (msg (last ls))"
  using assms by (cases ls rule: rev_cases) (auto simp: chain_run_append accept_digest split: option.splits)

theorem tamper_evident:
  assumes "chain_run accept g ls = Some h" "chain_run accept g' ls' = Some h" "length ls = length ls'"
  shows "ls = ls' \<or> (\<exists>l\<in>set ls. \<exists>l'\<in>set ls'. msg l \<noteq> msg l' \<and> digest (msg l) = digest (msg l'))"
  using assms
proof (induction ls arbitrary: ls' h rule: rev_induct)
  case (snoc l ls)
  obtain m l' where ls': "ls' = m @ [l']" using snoc.prems(3) by (cases ls' rule: rev_cases) auto
  obtain p where p: "chain_run accept g ls = Some p" "accept p l = Some h"
    using snoc.prems(1) by (auto simp: chain_run_append split: option.splits)
  obtain p' where p': "chain_run accept g' m = Some p'" "accept p' l' = Some h"
    using snoc.prems(2) ls' by (auto simp: chain_run_append split: option.splits)
  show ?case
  proof (cases "l = l'")
    case True
    then have "p = p'" using p p' accept_prev by blast
    then have "ls = m \<or> (\<exists>l\<in>set ls. \<exists>l'\<in>set m. msg l \<noteq> msg l' \<and> digest (msg l) = digest (msg l'))"
      using snoc.IH [of p m] p p' snoc.prems(3) ls' by simp
    then show ?thesis using True ls' by auto
  next
    case False
    then show ?thesis using same_digest_line [OF p(2) p'(2)] ls' by auto
  qed
qed auto

text \<open>
  When no digest equals the genesis value the lengths need not be known: a log cannot be cut at its
  beginning either.
\<close>

theorem tamper_evident_any_length:
  assumes "\<And>m. digest m \<noteq> g" and "chain_run accept g ls = Some h" "chain_run accept g ls' = Some h"
  shows "ls = ls' \<or> (\<exists>l\<in>set ls. \<exists>l'\<in>set ls'. msg l \<noteq> msg l' \<and> digest (msg l) = digest (msg l'))"
  using assms(2, 3)
proof (induction ls arbitrary: ls' h rule: rev_induct)
  case Nil
  then show ?case using assms(1) chain_ends_in_digest [of g ls' h] by (cases ls' rule: rev_cases) auto
next
  case (snoc l ls)
  have "h = digest (msg l)" using chain_ends_in_digest [OF snoc.prems(1)] by simp
  then have "ls' \<noteq> []" using snoc.prems(2) assms(1) [of "msg l"] by auto
  then obtain m l' where ls': "ls' = m @ [l']" by (cases ls' rule: rev_cases) auto
  obtain p where p: "chain_run accept g ls = Some p" "accept p l = Some h"
    using snoc.prems(1) by (auto simp: chain_run_append split: option.splits)
  obtain p' where p': "chain_run accept g m = Some p'" "accept p' l' = Some h"
    using snoc.prems(2) ls' by (auto simp: chain_run_append split: option.splits)
  show ?case
  proof (cases "l = l'")
    case True
    then have "p = p'" using p p' accept_prev by blast
    then have "ls = m \<or> (\<exists>l\<in>set ls. \<exists>l'\<in>set m. msg l \<noteq> msg l' \<and> digest (msg l) = digest (msg l'))"
      using snoc.IH [of p m] p p' by simp
    then show ?thesis using True ls' by auto
  next
    case False
    then show ?thesis using same_digest_line [OF p(2) p'(2)] ls' by auto
  qed
qed

text \<open>Editing a line that is not the last one, and nothing else, breaks the chain.\<close>

theorem edit_detected:
  assumes "chain_run accept g (xs @ l # y # ys) = Some h" "chain_run accept g (xs @ l' # y # ys) = Some h'"
  shows "l = l' \<or> msg l \<noteq> msg l' \<and> digest (msg l) = digest (msg l')"
proof -
  obtain p hl where p: "chain_run accept g xs = Some p" "accept p l = Some hl" "accept hl y \<noteq> None"
    using assms(1) by (auto simp: chain_run_append split: option.splits)
  obtain hl' where p': "accept p l' = Some hl'" "accept hl' y \<noteq> None"
    using assms(2) p by (auto simp: chain_run_append split: option.splits)
  have "hl = hl'" using p p' accept_prev by (metis not_None_eq)
  then show ?thesis using same_digest_line p p' by blast
qed

end

end
