(* ===== verification/Action_Reviews.thy ===== *)
theory Action_Reviews
  imports Hash_Chain
begin

text \<open>
  Model of \<^verbatim>\<open>supercli-core/src/action_reviews.rs\<close>: the hash-chained, append-only log in which every
  authorised tool call is recorded before it runs and its outcome afterwards. The log is the list of
  lines of \<^verbatim>\<open>action-reviews.jsonl\<close>; the line type \<open>'l\<close>, JSON parsing and printing, the blank-line
  test and SHA-256 come from other crates and are the parameter \<open>'l review_codec\<close>. What the code relies
  on is \<open>codec_ok\<close>: parsing inverts printing and a printed value is not a blank line.
\<close>

section \<open>Data\<close>

record 'l review_codec =
  from_str :: "'l \<Rightarrow> json option"
  to_text :: "json \<Rightarrow> 'l"
  is_blank :: "'l \<Rightarrow> bool"
  sha256_hex :: "'l \<Rightarrow> string"

definition codec_ok :: "'l review_codec \<Rightarrow> bool" where
  "codec_ok C = (\<forall>v. from_str C (to_text C v) = Some v \<and> \<not> is_blank C (to_text C v))"

datatype actor = Human string | Scheduled string | PolicyAllow | Hook string

fun actor_display :: "actor \<Rightarrow> string" where
  "actor_display (Human device_id) = ''human:'' @ device_id"
| "actor_display (Scheduled trigger_id) = ''scheduled:'' @ trigger_id"
| "actor_display PolicyAllow = ''policy:allow''"
| "actor_display (Hook name) = ''hook:'' @ name"

definition actor_parse :: "string \<Rightarrow> actor" where
  "actor_parse s =
     (case strip_prefix ''human:'' s of Some i \<Rightarrow> Human i
      | None \<Rightarrow> (case strip_prefix ''scheduled:'' s of Some i \<Rightarrow> Scheduled i
      | None \<Rightarrow> (case strip_prefix ''hook:'' s of Some n \<Rightarrow> Hook n
      | None \<Rightarrow> if s = ''policy:allow'' then PolicyAllow else Human ''unidentified'')))"

datatype review_decision = Approved | Denied

fun decision_str :: "review_decision \<Rightarrow> string" where
  "decision_str Approved = ''approved''"
| "decision_str Denied = ''denied''"

record review_entry =
  re_review_id :: string
  re_ts_ms :: nat
  re_actor :: actor
  re_connector :: string
  re_tool :: string
  re_args_hash :: string
  re_decision :: review_decision
  re_replaces_attempt :: "string option"
  re_prev_hash :: string
  re_entry_hash :: string

datatype attempt_outcome = Executed bool | Ambiguous string | NeverRan string

fun kind_str :: "attempt_outcome \<Rightarrow> string" where
  "kind_str (Executed success) = ''executed''"
| "kind_str (Ambiguous reason) = ''ambiguous''"
| "kind_str (NeverRan reason) = ''never_ran''"

record outcome_entry =
  oe_review_id :: string
  oe_ts_ms :: nat
  oe_actor :: actor
  oe_outcome :: attempt_outcome
  oe_prev_hash :: string
  oe_entry_hash :: string

text \<open>Why a review could not be recorded; the source carries a message for each case.\<close>

datatype write_failure =
  LockFailed | ReadFailed | CorruptLog | UnknownReview | AlreadyRecorded | OpenFailed | AppendFailed
  | FlushFailed | FsyncFailed

datatype review_error = WriteFailed write_failure

fun is_already_recorded :: "review_error \<Rightarrow> bool" where
  "is_already_recorded (WriteFailed f) = (f = AlreadyRecorded)"

datatype chain_error =
  ChainIo | CorruptLine nat | HashMismatch nat | BrokenLink nat | NonCanonical nat

datatype chainless_entry = Review review_entry | Outcome outcome_entry

definition GENESIS_PREV_HASH :: string where
  "GENESIS_PREV_HASH = ''genesis''"

section \<open>Canonical serialisation\<close>

fun opt_str :: "string option \<Rightarrow> json" where
  "opt_str None = JNull"
| "opt_str (Some s) = JStr s"

definition review_fields :: "review_entry \<Rightarrow> (string \<times> json) list" where
  "review_fields e =
     [(''review_id'', JStr (re_review_id e)),
      (''ts_ms'', JNum (int (re_ts_ms e))),
      (''actor'', JStr (actor_display (re_actor e))),
      (''connector'', JStr (re_connector e)),
      (''tool'', JStr (re_tool e)),
      (''args_hash'', JStr (re_args_hash e)),
      (''decision'', JStr (decision_str (re_decision e))),
      (''replaces_attempt'', opt_str (re_replaces_attempt e)),
      (''prev_hash'', JStr (re_prev_hash e))]"

definition canonical_bytes :: "'l review_codec \<Rightarrow> review_entry \<Rightarrow> 'l" where
  "canonical_bytes C e = to_text C (json_obj (review_fields e))"

definition entry_line :: "'l review_codec \<Rightarrow> review_entry \<Rightarrow> 'l" where
  "entry_line C e = to_text C (json_obj (review_fields e @ [(''entry_hash'', JStr (re_entry_hash e))]))"

definition outcome_fields :: "outcome_entry \<Rightarrow> (string \<times> json) list" where
  "outcome_fields e =
     (let (success, reason) =
        (case oe_outcome e of
           Executed s \<Rightarrow> (JBool s, JNull)
         | Ambiguous r \<Rightarrow> (JNull, JStr r)
         | NeverRan r \<Rightarrow> (JNull, JStr r)) in
      [(''type'', JStr ''attempt_outcome''),
       (''review_id'', JStr (oe_review_id e)),
       (''ts_ms'', JNum (int (oe_ts_ms e))),
       (''actor'', JStr (actor_display (oe_actor e))),
       (''outcome'', JStr (kind_str (oe_outcome e))),
       (''success'', success),
       (''reason'', reason),
       (''prev_hash'', JStr (oe_prev_hash e))])"

definition canonical_outcome_bytes :: "'l review_codec \<Rightarrow> outcome_entry \<Rightarrow> 'l" where
  "canonical_outcome_bytes C e = to_text C (json_obj (outcome_fields e))"

definition outcome_entry_line :: "'l review_codec \<Rightarrow> outcome_entry \<Rightarrow> 'l" where
  "outcome_entry_line C e =
     to_text C (json_obj (outcome_fields e @ [(''entry_hash'', JStr (oe_entry_hash e))]))"

section \<open>The log and the file system\<close>

text \<open>
  \<open>rw_log\<close> is the log file (\<open>None\<close>: it does not exist), \<open>rw_profile\<close> the approval counters of
  \<^verbatim>\<open>profile.rs\<close> (tool to approvals and denials), \<open>rw_io\<close> what the file system answers: one flag per
  operation, \<open>True\<close> when it fails. An append that fails leaves the file as it was; a flush or
  fsync that fails leaves the line in the file and still reports an error.
\<close>

record 'l review_world =
  rw_log :: "'l list option"
  rw_profile :: "string \<Rightarrow> (nat \<times> nat) option"
  rw_io :: "bool list"

definition fs_op :: "'e \<Rightarrow> ('l review_world, 'e, unit) sm" where
  "fs_op e w =
     (case rw_io w of
        [] \<Rightarrow> (Inr (), w)
      | fails # rest \<Rightarrow> (if fails then Inl e else Inr (), w\<lparr>rw_io := rest\<rparr>))"

definition log_lines :: "'l review_world \<Rightarrow> 'l list" where
  "log_lines w = (case rw_log w of None \<Rightarrow> [] | Some ls \<Rightarrow> ls)"

definition append_line :: "'l \<Rightarrow> ('l review_world, review_error, unit) sm" where
  "append_line l =
     bindS (fs_op (WriteFailed OpenFailed)) (\<lambda>_.
     bindS (modifyS (\<lambda>w. w\<lparr>rw_log := Some (log_lines w)\<rparr>)) (\<lambda>_.
     bindS (fs_op (WriteFailed AppendFailed)) (\<lambda>_.
     bindS (modifyS (\<lambda>w. w\<lparr>rw_log := Some (log_lines w @ [l])\<rparr>)) (\<lambda>_.
     bindS (fs_op (WriteFailed FlushFailed)) (\<lambda>_.
     fs_op (WriteFailed FsyncFailed))))))"

definition record_approval ::
  "string \<Rightarrow> bool \<Rightarrow> (string \<Rightarrow> (nat \<times> nat) option) \<Rightarrow> (string \<Rightarrow> (nat \<times> nat) option)" where
  "record_approval tool approved m =
     (let (a, d) = (case m tool of None \<Rightarrow> (0, 0) | Some e \<Rightarrow> e) in
      m(tool \<mapsto> (if approved then (a + 1, d) else (a, d + 1))))"

text \<open>\<^verbatim>\<open>update_profile\<close> swallows every error: the counters change only when the save succeeds.\<close>

definition update_profile ::
  "((string \<Rightarrow> (nat \<times> nat) option) \<Rightarrow> (string \<Rightarrow> (nat \<times> nat) option)) \<Rightarrow> ('l review_world, 'e, unit) sm" where
  "update_profile f =
     bindS (okS (fs_op ())) (\<lambda>saved.
     if saved = None then retS () else modifyS (\<lambda>w. w\<lparr>rw_profile := f (rw_profile w)\<rparr>))"

definition last_entry_hash :: "'l review_codec \<Rightarrow> ('l review_world, review_error, string option) sm" where
  "last_entry_hash C =
     bindS (fs_op (WriteFailed ReadFailed)) (\<lambda>_.
     bindS (getS (\<lambda>w. filter (\<lambda>l. \<not> is_blank C l) (log_lines w))) (\<lambda>ls.
     if ls = [] then retS None
     else (case from_str C (last ls) of
             None \<Rightarrow> throwS (WriteFailed CorruptLog)
           | Some v \<Rightarrow> retS (get_str ''entry_hash'' v))))"

section \<open>Recording\<close>

text \<open>\<open>uuid\<close> and \<open>now\<close> are what \<^verbatim>\<open>Uuid::new_v4\<close> and \<^verbatim>\<open>now_ms\<close> return for this call.\<close>

definition record_review ::
  "'l review_codec \<Rightarrow> string \<Rightarrow> nat \<Rightarrow> actor \<Rightarrow> string \<Rightarrow> string \<Rightarrow> string \<Rightarrow> review_decision \<Rightarrow> string option
     \<Rightarrow> ('l review_world, review_error, review_entry) sm" where
  "record_review C uuid now actor connector tool args_hash decision replaces_attempt =
     bindS (fs_op (WriteFailed LockFailed)) (\<lambda>_.
     bindS (last_entry_hash C) (\<lambda>h.
     let entry0 = \<lparr>re_review_id = uuid, re_ts_ms = now, re_actor = actor, re_connector = connector,
           re_tool = tool, re_args_hash = args_hash, re_decision = decision,
           re_replaces_attempt = replaces_attempt,
           re_prev_hash = (case h of None \<Rightarrow> GENESIS_PREV_HASH | Some p \<Rightarrow> p), re_entry_hash = ''''\<rparr>;
         entry = entry0\<lparr>re_entry_hash := sha256_hex C (canonical_bytes C entry0)\<rparr> in
     bindS (append_line (entry_line C entry)) (\<lambda>_.
     bindS (case actor of
              Human _ \<Rightarrow> update_profile (record_approval tool (decision = Approved))
            | _ \<Rightarrow> retS ()) (\<lambda>_.
     retS entry))))"

text \<open>The scan of the log for \<open>review_id\<close>: does it have a review, does it have an outcome.\<close>

fun scan_review ::
  "'l review_codec \<Rightarrow> string \<Rightarrow> 'l list \<Rightarrow> bool \<Rightarrow> bool \<Rightarrow> review_error + (bool \<times> bool)" where
  "scan_review C rid [] have_review have_outcome = Inr (have_review, have_outcome)"
| "scan_review C rid (l # ls) have_review have_outcome =
     (if is_blank C l then scan_review C rid ls have_review have_outcome
      else (case from_str C l of
          None \<Rightarrow> Inl (WriteFailed CorruptLog)
        | Some v \<Rightarrow>
            if get_str ''review_id'' v \<noteq> Some rid then scan_review C rid ls have_review have_outcome
            else if get_str ''type'' v = Some ''attempt_outcome'' then scan_review C rid ls have_review True
            else scan_review C rid ls True have_outcome))"

definition record_attempt_outcome ::
  "'l review_codec \<Rightarrow> nat \<Rightarrow> string \<Rightarrow> attempt_outcome \<Rightarrow> actor
     \<Rightarrow> ('l review_world, review_error, outcome_entry) sm" where
  "record_attempt_outcome C now review_id outcome actor =
     bindS (fs_op (WriteFailed LockFailed)) (\<lambda>_.
     bindS (getS rw_log) (\<lambda>file.
     bindS (if file = None then retS () else fs_op (WriteFailed ReadFailed)) (\<lambda>_.
     bindS (getS log_lines) (\<lambda>ls.
     bindS (liftE (scan_review C review_id ls False False)) (\<lambda>(have_review, have_outcome).
     if \<not> have_review then throwS (WriteFailed UnknownReview)
     else if have_outcome then throwS (WriteFailed AlreadyRecorded)
     else
       bindS (last_entry_hash C) (\<lambda>h.
       let entry0 = \<lparr>oe_review_id = review_id, oe_ts_ms = now, oe_actor = actor, oe_outcome = outcome,
             oe_prev_hash = (case h of None \<Rightarrow> GENESIS_PREV_HASH | Some p \<Rightarrow> p), oe_entry_hash = ''''\<rparr>;
           entry = entry0\<lparr>oe_entry_hash := sha256_hex C (canonical_outcome_bytes C entry0)\<rparr> in
       bindS (append_line (outcome_entry_line C entry)) (\<lambda>_.
       retS entry)))))))"

fun scan_inflight ::
  "'l review_codec \<Rightarrow> 'l list \<Rightarrow> string list \<Rightarrow> string list \<Rightarrow> review_error + (string list \<times> string list)" where
  "scan_inflight C [] approved resolved = Inr (approved, resolved)"
| "scan_inflight C (l # ls) approved resolved =
     (if is_blank C l then scan_inflight C ls approved resolved
      else (case from_str C l of
          None \<Rightarrow> Inl (WriteFailed CorruptLog)
        | Some v \<Rightarrow>
            (case get_str ''review_id'' v of
               None \<Rightarrow> scan_inflight C ls approved resolved
             | Some rid \<Rightarrow>
                 if get_str ''type'' v = Some ''attempt_outcome''
                 then scan_inflight C ls approved (rid # resolved)
                 else if get_str ''decision'' v = Some ''approved''
                 then scan_inflight C ls (approved @ [rid]) resolved
                 else scan_inflight C ls approved resolved)))"

definition inflight_reviews :: "'l review_codec \<Rightarrow> ('l review_world, review_error, string list) sm" where
  "inflight_reviews C =
     bindS (getS rw_log) (\<lambda>file.
     if file = None then retS []
     else
       bindS (fs_op (WriteFailed ReadFailed)) (\<lambda>_.
       bindS (getS log_lines) (\<lambda>ls.
       bindS (liftE (scan_inflight C ls [] [])) (\<lambda>(approved, resolved).
       retS (filter (\<lambda>i. i \<notin> set resolved) approved)))))"

section \<open>Verifying\<close>

definition need_str :: "nat \<Rightarrow> json \<Rightarrow> string \<Rightarrow> chain_error + string" where
  "need_str ln v k = ok_or (CorruptLine ln) (get_str k v)"

definition parse_outcome :: "nat \<Rightarrow> json \<Rightarrow> chain_error + attempt_outcome" where
  "parse_outcome ln v =
     bindE (need_str ln v ''outcome'') (\<lambda>k.
     if k = ''executed'' then
       bindE (ok_or (CorruptLine ln) (get_bool ''success'' v)) (\<lambda>s. Inr (Executed s))
     else if k = ''ambiguous'' then bindE (need_str ln v ''reason'') (\<lambda>r. Inr (Ambiguous r))
     else if k = ''never_ran'' then bindE (need_str ln v ''reason'') (\<lambda>r. Inr (NeverRan r))
     else Inl (CorruptLine ln))"

definition parse_decision :: "nat \<Rightarrow> json \<Rightarrow> chain_error + review_decision" where
  "parse_decision ln v =
     bindE (need_str ln v ''decision'') (\<lambda>d.
     if d = ''approved'' then Inr Approved else if d = ''denied'' then Inr Denied
     else Inl (CorruptLine ln))"

text \<open>The part of the verifier's loop body that turns one parsed line into an entry.\<close>

definition parse_log_entry :: "nat \<Rightarrow> json \<Rightarrow> chain_error + chainless_entry" where
  "parse_log_entry ln v =
     (if get_str ''type'' v = Some ''attempt_outcome'' then
        bindE (parse_outcome ln v) (\<lambda>outcome.
        bindE (need_str ln v ''review_id'') (\<lambda>rid.
        bindE (ok_or (CorruptLine ln) (get_u64 ''ts_ms'' v)) (\<lambda>ts.
        bindE (need_str ln v ''actor'') (\<lambda>ac.
        bindE (need_str ln v ''prev_hash'') (\<lambda>ph.
        bindE (need_str ln v ''entry_hash'') (\<lambda>eh.
        Inr (Outcome \<lparr>oe_review_id = rid, oe_ts_ms = ts, oe_actor = actor_parse ac,
          oe_outcome = outcome, oe_prev_hash = ph, oe_entry_hash = eh\<rparr>)))))))
      else
        bindE (need_str ln v ''review_id'') (\<lambda>rid.
        bindE (ok_or (CorruptLine ln) (get_u64 ''ts_ms'' v)) (\<lambda>ts.
        bindE (need_str ln v ''actor'') (\<lambda>ac.
        bindE (need_str ln v ''connector'') (\<lambda>co.
        bindE (need_str ln v ''tool'') (\<lambda>tl.
        bindE (need_str ln v ''args_hash'') (\<lambda>ah.
        bindE (parse_decision ln v) (\<lambda>de.
        bindE (need_str ln v ''prev_hash'') (\<lambda>ph.
        bindE (need_str ln v ''entry_hash'') (\<lambda>eh.
        Inr (Review \<lparr>re_review_id = rid, re_ts_ms = ts, re_actor = actor_parse ac, re_connector = co,
          re_tool = tl, re_args_hash = ah, re_decision = de,
          re_replaces_attempt = get_str ''replaces_attempt'' v, re_prev_hash = ph,
          re_entry_hash = eh\<rparr>)))))))))))"

fun entry_fields :: "chainless_entry \<Rightarrow> (string \<times> json) list" where
  "entry_fields (Review e) = review_fields e"
| "entry_fields (Outcome e) = outcome_fields e"

fun entry_prev :: "chainless_entry \<Rightarrow> string" where
  "entry_prev (Review e) = re_prev_hash e"
| "entry_prev (Outcome e) = oe_prev_hash e"

fun entry_hash :: "chainless_entry \<Rightarrow> string" where
  "entry_hash (Review e) = re_entry_hash e"
| "entry_hash (Outcome e) = oe_entry_hash e"

fun entry_canonical :: "'l review_codec \<Rightarrow> chainless_entry \<Rightarrow> 'l" where
  "entry_canonical C (Review e) = canonical_bytes C e"
| "entry_canonical C (Outcome e) = canonical_outcome_bytes C e"

fun entry_text :: "'l review_codec \<Rightarrow> chainless_entry \<Rightarrow> 'l" where
  "entry_text C (Review e) = entry_line C e"
| "entry_text C (Outcome e) = outcome_entry_line C e"

text \<open>One iteration of the verifier on a line that is not blank; the result is the next \<open>prev_hash\<close>.\<close>

definition check_line :: "'l review_codec \<Rightarrow> string \<Rightarrow> nat \<Rightarrow> 'l \<Rightarrow> chain_error + string" where
  "check_line C prev ln l =
     bindE (ok_or (CorruptLine ln) (from_str C l)) (\<lambda>v.
     bindE (parse_log_entry ln v) (\<lambda>e.
     if entry_prev e \<noteq> prev then Inl (BrokenLink ln)
     else if entry_text C e \<noteq> l then Inl (NonCanonical ln)
     else if sha256_hex C (entry_canonical C e) \<noteq> entry_hash e then Inl (HashMismatch ln)
     else Inr (entry_hash e)))"

fun verify_lines :: "'l review_codec \<Rightarrow> string \<Rightarrow> nat \<Rightarrow> nat \<Rightarrow> 'l list \<Rightarrow> chain_error + nat" where
  "verify_lines C prev count ln [] = Inr count"
| "verify_lines C prev count ln (l # ls) =
     (if is_blank C l then verify_lines C prev count (Suc ln) ls
      else bindE (check_line C prev ln l) (\<lambda>h. verify_lines C h (Suc count) (Suc ln) ls))"

definition verify_review_reader :: "'l review_codec \<Rightarrow> 'l list \<Rightarrow> chain_error + nat" where
  "verify_review_reader C ls = verify_lines C GENESIS_PREV_HASH 0 1 ls"

definition verify_review_chain :: "'l review_codec \<Rightarrow> ('l review_world, chain_error, nat) sm" where
  "verify_review_chain C =
     bindS (getS rw_log) (\<lambda>file.
     case file of
       None \<Rightarrow> retS 0
     | Some ls \<Rightarrow> bindS (fs_op ChainIo) (\<lambda>_. liftE (verify_review_reader C ls)))"

section \<open>Migrating a log without a chain\<close>

definition REVIEW_DATA_KEYS :: "string list" where
  "REVIEW_DATA_KEYS = [''review_id'', ''ts_ms'', ''actor'', ''connector'', ''tool'', ''args_hash'',
     ''decision'', ''replaces_attempt'']"

definition OUTCOME_DATA_KEYS :: "string list" where
  "OUTCOME_DATA_KEYS = [''type'', ''review_id'', ''ts_ms'', ''actor'', ''outcome'', ''success'', ''reason'']"

definition scan_chainless_line :: "nat \<Rightarrow> json \<Rightarrow> chain_error + chainless_entry" where
  "scan_chainless_line ln v =
     bindE (ok_or (CorruptLine ln) (as_object v)) (\<lambda>obj.
     if \<exists>k\<in>set [''prev_hash'', ''entry_hash'']. map_of obj k \<noteq> None \<and> map_of obj k \<noteq> Some JNull
     then Inl (CorruptLine ln)
     else
     let is_outcome = (get_str ''type'' v = Some ''attempt_outcome'');
         allowed = (if is_outcome then OUTCOME_DATA_KEYS else REVIEW_DATA_KEYS) in
     if \<exists>k\<in>set (map fst obj). k \<notin> set allowed \<and> k \<noteq> ''prev_hash'' \<and> k \<noteq> ''entry_hash''
     then Inl (CorruptLine ln)
     else
     bindE (ok_or (CorruptLine ln) (get_u64 ''ts_ms'' v)) (\<lambda>ts.
     bindE (need_str ln v ''actor'') (\<lambda>ac.
     bindE (need_str ln v ''review_id'') (\<lambda>rid.
     if is_outcome then
       bindE (parse_outcome ln v) (\<lambda>outcome.
       Inr (Outcome \<lparr>oe_review_id = rid, oe_ts_ms = ts, oe_actor = actor_parse ac,
         oe_outcome = outcome, oe_prev_hash = '''', oe_entry_hash = ''''\<rparr>))
     else
       bindE (parse_decision ln v) (\<lambda>de.
       bindE (need_str ln v ''connector'') (\<lambda>co.
       bindE (need_str ln v ''tool'') (\<lambda>tl.
       bindE (need_str ln v ''args_hash'') (\<lambda>ah.
       Inr (Review \<lparr>re_review_id = rid, re_ts_ms = ts, re_actor = actor_parse ac, re_connector = co,
         re_tool = tl, re_args_hash = ah, re_decision = de,
         re_replaces_attempt = get_str ''replaces_attempt'' v, re_prev_hash = '''',
         re_entry_hash = ''''\<rparr>)))))))))"

fun scan_chainless_lines :: "'l review_codec \<Rightarrow> nat \<Rightarrow> 'l list \<Rightarrow> chain_error + chainless_entry list" where
  "scan_chainless_lines C ln [] = Inr []"
| "scan_chainless_lines C ln (l # ls) =
     (if is_blank C l then scan_chainless_lines C (Suc ln) ls
      else
        bindE (ok_or (CorruptLine ln) (from_str C l)) (\<lambda>v.
        bindE (scan_chainless_line ln v) (\<lambda>e.
        bindE (scan_chainless_lines C (Suc ln) ls) (\<lambda>es. Inr (e # es)))))"

definition scan_chainless_entries ::
  "'l review_codec \<Rightarrow> ('l review_world, chain_error, chainless_entry list) sm" where
  "scan_chainless_entries C =
     bindS (getS rw_log) (\<lambda>file.
     case file of
       None \<Rightarrow> retS []
     | Some ls \<Rightarrow> bindS (fs_op ChainIo) (\<lambda>_. liftE (scan_chainless_lines C 1 ls)))"

datatype rechain_need = Current nat | PreChain nat | Broken chain_error

definition classify_review_log :: "'l review_codec \<Rightarrow> 'l review_world \<Rightarrow> rechain_need \<times> 'l review_world" where
  "classify_review_log C w =
     (case verify_review_chain C w of
        (Inr count, w1) \<Rightarrow> (Current count, w1)
      | (Inl verify_err, w1) \<Rightarrow>
          (case scan_chainless_entries C w1 of
             (Inr entries, w2) \<Rightarrow> (PreChain (length entries), w2)
           | (Inl _, w2) \<Rightarrow> (Broken verify_err, w2)))"

text \<open>Assigning the chain in file order.\<close>

fun link_entry :: "'l review_codec \<Rightarrow> string \<Rightarrow> chainless_entry \<Rightarrow> chainless_entry" where
  "link_entry C prev (Review e) =
     (let e1 = e\<lparr>re_prev_hash := prev\<rparr> in Review (e1\<lparr>re_entry_hash := sha256_hex C (canonical_bytes C e1)\<rparr>))"
| "link_entry C prev (Outcome e) =
     (let e1 = e\<lparr>oe_prev_hash := prev\<rparr> in
      Outcome (e1\<lparr>oe_entry_hash := sha256_hex C (canonical_outcome_bytes C e1)\<rparr>))"

fun assign_chain :: "'l review_codec \<Rightarrow> string \<Rightarrow> chainless_entry list \<Rightarrow> 'l list" where
  "assign_chain C prev [] = []"
| "assign_chain C prev (e # es) =
     (let e' = link_entry C prev e in entry_text C e' # assign_chain C (entry_hash e') es)"

definition rechain_review_log :: "'l review_codec \<Rightarrow> ('l review_world, chain_error, nat) sm" where
  "rechain_review_log C =
     bindS (scan_chainless_entries C) (\<lambda>entries.
     if entries = [] then retS 0
     else
       let out = assign_chain C GENESIS_PREV_HASH entries in
       bindS (fs_op ChainIo) (\<lambda>_.
       bindS (fs_op ChainIo) (\<lambda>_.
       bindS (fs_op ChainIo) (\<lambda>_.
       bindS (fs_op ChainIo) (\<lambda>_.
       bindS (modifyS (\<lambda>w. w\<lparr>rw_log := Some out\<rparr>)) (\<lambda>_.
       verify_review_chain C))))))"

section \<open>Entries and their text\<close>

lemma actor_parse_display [simp]: "actor_parse (actor_display a) = a"
  by (cases a) (simp_all add: actor_parse_def)

fun entry_ts :: "chainless_entry \<Rightarrow> nat" where
  "entry_ts (Review e) = re_ts_ms e"
| "entry_ts (Outcome e) = oe_ts_ms e"

fun entry_id :: "chainless_entry \<Rightarrow> string" where
  "entry_id (Review e) = re_review_id e"
| "entry_id (Outcome e) = oe_review_id e"

definition entry_json :: "chainless_entry \<Rightarrow> json" where
  "entry_json x = json_obj (entry_fields x @ [(''entry_hash'', JStr (entry_hash x))])"

lemma entry_text_json: "entry_text C x = to_text C (entry_json x)"
  by (cases x) (simp_all add: entry_json_def entry_line_def outcome_entry_line_def)

lemma entry_canonical_json: "entry_canonical C x = to_text C (json_obj (entry_fields x))"
  by (cases x) (simp_all add: canonical_bytes_def canonical_outcome_bytes_def)

lemma json_obj_snoc:
  "json_obj (a @ [(k, v)]) = (case json_obj a of JObj m \<Rightarrow> JObj (obj_insert k v m) | j \<Rightarrow> j)"
  by (simp add: json_obj_def)

lemma entry_json_cong:
  "json_obj (entry_fields x) = json_obj (entry_fields y) \<Longrightarrow> entry_hash x = entry_hash y \<Longrightarrow>
     entry_json x = entry_json y"
  by (simp add: entry_json_def json_obj_snoc)

lemma get_entry_json [simp]:
  "get_str ''review_id'' (entry_json x) = Some (entry_id x)"
  "get_str ''entry_hash'' (entry_json x) = Some (entry_hash x)"
  "get_str ''prev_hash'' (entry_json x) = Some (entry_prev x)"
  "get_str ''type'' (entry_json x) = (case x of Review _ \<Rightarrow> None | Outcome _ \<Rightarrow> Some ''attempt_outcome'')"
  "get_str ''decision'' (entry_json x) =
     (case x of Review e \<Rightarrow> Some (decision_str (re_decision e)) | Outcome _ \<Rightarrow> None)"
  by (cases x; simp add: entry_json_def json_simps review_fields_def outcome_fields_def
      split: attempt_outcome.splits)+

lemma parse_entry_json:
  assumes "entry_ts x \<le> u64_max"
  shows "parse_log_entry ln (entry_json x) = Inr x"
proof (cases x)
  case (Review e)
  then show ?thesis using assms
    by (cases "re_decision e"; cases "re_replaces_attempt e")
      (simp_all add: parse_log_entry_def need_str_def parse_decision_def entry_json_def json_simps review_fields_def)
next
  case (Outcome e)
  then show ?thesis using assms
    by (cases "oe_outcome e")
      (simp_all add: parse_log_entry_def need_str_def parse_outcome_def entry_json_def json_simps outcome_fields_def)
qed

lemma parse_log_entry_ln: "parse_log_entry ln v = Inr e \<longleftrightarrow> parse_log_entry 0 v = Inr e"
  by (auto simp: parse_log_entry_def parse_outcome_def parse_decision_def need_str_def bindE_Inr_iff
      ok_or_Inr_iff split: if_splits)

lemma parse_log_entry_ts: "parse_log_entry ln v = Inr e \<Longrightarrow> entry_ts e \<le> u64_max"
proof -
  assume "parse_log_entry ln v = Inr e"
  then have "get_u64 ''ts_ms'' v = Some (entry_ts e)"
    by (auto simp: parse_log_entry_def bindE_Inr_iff ok_or_Inr_iff split: if_splits)
  then show ?thesis
    by (auto simp: get_u64_def bind_eq_Some_conv elim!: as_u64.elims split: if_splits)
qed

section \<open>The log as a hash chain\<close>

definition accept_line :: "'l review_codec \<Rightarrow> string \<Rightarrow> 'l \<Rightarrow> string option" where
  "accept_line C p l = (case check_line C p 0 l of Inl _ \<Rightarrow> None | Inr h \<Rightarrow> Some h)"

definition line_msg :: "'l review_codec \<Rightarrow> 'l \<Rightarrow> json" where
  "line_msg C l =
     (case from_str C l of
        None \<Rightarrow> JNull
      | Some v \<Rightarrow> (case parse_log_entry 0 v of Inl _ \<Rightarrow> JNull | Inr e \<Rightarrow> json_obj (entry_fields e)))"

lemma check_line_Inr_iff:
  "check_line C p ln l = Inr h \<longleftrightarrow>
     (\<exists>v e. from_str C l = Some v \<and> parse_log_entry 0 v = Inr e \<and> entry_prev e = p \<and> entry_text C e = l \<and>
        sha256_hex C (entry_canonical C e) = h \<and> entry_hash e = h)"
proof
  assume "check_line C p ln l = Inr h"
  then show "\<exists>v e. from_str C l = Some v \<and> parse_log_entry 0 v = Inr e \<and> entry_prev e = p \<and>
      entry_text C e = l \<and> sha256_hex C (entry_canonical C e) = h \<and> entry_hash e = h"
    by (auto simp: check_line_def bindE_Inr_iff ok_or_Inr_iff parse_log_entry_ln [of ln] split: if_splits)
next
  assume "\<exists>v e. from_str C l = Some v \<and> parse_log_entry 0 v = Inr e \<and> entry_prev e = p \<and>
      entry_text C e = l \<and> sha256_hex C (entry_canonical C e) = h \<and> entry_hash e = h"
  then obtain v e where "from_str C l = Some v" "parse_log_entry ln v = Inr e" "entry_prev e = p"
      "entry_text C e = l" "sha256_hex C (entry_canonical C e) = h" "entry_hash e = h"
    by (auto simp: parse_log_entry_ln [of ln])
  then show "check_line C p ln l = Inr h" by (simp add: check_line_def)
qed

lemma check_line_ln: "check_line C p ln l = Inr h \<longleftrightarrow> check_line C p 0 l = Inr h"
  by (simp only: check_line_Inr_iff)

lemma accept_line_iff: "accept_line C p l = Some h \<longleftrightarrow> check_line C p 0 l = Inr h"
  by (auto simp: accept_line_def split: sum.splits)

lemma accept_lineE:
  assumes "accept_line C p l = Some h"
  obtains v e where "from_str C l = Some v" "parse_log_entry 0 v = Inr e" "entry_prev e = p"
    "entry_text C e = l" "sha256_hex C (entry_canonical C e) = h" "entry_hash e = h"
  using assms unfolding accept_line_iff check_line_Inr_iff by blast

lemma accept_line_msg:
  assumes "accept_line C p l = Some h"
  obtains e where "line_msg C l = json_obj (entry_fields e)" "entry_prev e = p" "entry_hash e = h"
    "l = to_text C (entry_json e)" "h = sha256_hex C (to_text C (line_msg C l))"
proof -
  obtain v e where e: "from_str C l = Some v" "parse_log_entry 0 v = Inr e" "entry_prev e = p"
    "entry_text C e = l" "sha256_hex C (entry_canonical C e) = h" "entry_hash e = h"
    using assms by (rule accept_lineE)
  have msg: "line_msg C l = json_obj (entry_fields e)" using e(1, 2) by (simp add: line_msg_def)
  have "l = to_text C (entry_json e)" using e(4) entry_text_json [of C e] by simp
  moreover have "h = sha256_hex C (to_text C (line_msg C l))"
    using e(5) entry_canonical_json [of C e] msg by simp
  ultimately show ?thesis by (rule that [OF msg e(3) e(6)])
qed

interpretation rlc: hash_chain "accept_line C" "line_msg C" "\<lambda>v. sha256_hex C (to_text C v)"
  for C :: "'l review_codec"
proof
  fix p l h assume "accept_line C p l = Some h"
  then show "h = sha256_hex C (to_text C (line_msg C l))" by (rule accept_line_msg)
next
  fix p l h p' h' assume a: "accept_line C p l = Some h" "accept_line C p' l = Some h'"
  show "p = p'"
    by (rule accept_lineE [OF a(1)], rule accept_lineE [OF a(2)]) simp
next
  fix p l h p' l'
  assume a: "accept_line C p l = Some h" "accept_line C p' l' = Some h" and m: "line_msg C l = line_msg C l'"
  obtain e where e: "line_msg C l = json_obj (entry_fields e)" "entry_hash e = h" "l = to_text C (entry_json e)"
    using a(1) by (rule accept_line_msg)
  obtain e' where e': "line_msg C l' = json_obj (entry_fields e')" "entry_hash e' = h" "l' = to_text C (entry_json e')"
    using a(2) by (rule accept_line_msg)
  show "l = l'" using entry_json_cong [of e e'] e e' m by simp
qed

definition live_lines :: "'l review_codec \<Rightarrow> 'l list \<Rightarrow> 'l list" where
  "live_lines C ls = filter (\<lambda>l. \<not> is_blank C l) ls"

lemma verify_lines_iff:
  "verify_lines C p c ln ls = Inr n \<longleftrightarrow>
     (\<exists>h. chain_run (accept_line C) p (live_lines C ls) = Some h) \<and> n = c + length (live_lines C ls)"
proof (induction ls arbitrary: p c ln)
  case (Cons l ls)
  show ?case
  proof (cases "is_blank C l")
    case False
    show ?thesis
    proof (cases "accept_line C p l")
      case None
      then have "check_line C p ln l \<noteq> Inr h" for h
        using accept_line_iff [of C p l h] check_line_ln [of C p ln l h] by simp
      then obtain e where "check_line C p ln l = Inl e" by (cases "check_line C p ln l") auto
      then show ?thesis using False None by (simp add: live_lines_def)
    next
      case (Some h)
      then have "check_line C p ln l = Inr h"
        using accept_line_iff [of C p l h] check_line_ln [of C p ln l h] by simp
      then show ?thesis using False Some Cons.IH [of h "Suc c" "Suc ln"] by (simp add: live_lines_def)
    qed
  qed (simp add: Cons live_lines_def)
qed (auto simp: live_lines_def)

lemma verify_review_reader_iff:
  "verify_review_reader C ls = Inr n \<longleftrightarrow>
     (\<exists>h. chain_run (accept_line C) GENESIS_PREV_HASH (live_lines C ls) = Some h) \<and> n = length (live_lines C ls)"
  by (simp add: verify_review_reader_def verify_lines_iff)

section \<open>What the writers do to the log\<close>

abbreviation chain_hash :: "'l review_codec \<Rightarrow> 'l list \<Rightarrow> string option" where
  "chain_hash C ls \<equiv> chain_run (accept_line C) GENESIS_PREV_HASH (live_lines C ls)"

lemma fs_op_cases:
  obtains (fail) io where "fs_op e w = (Inl e, w\<lparr>rw_io := io\<rparr>)"
  | (ok) io where "fs_op e w = (Inr (), w\<lparr>rw_io := io\<rparr>)"
proof (cases "rw_io w")
  case Nil
  then have "fs_op e w = (Inr (), w\<lparr>rw_io := []\<rparr>)" by (simp add: fs_op_def)
  then show ?thesis by (rule ok)
next
  case (Cons f rest)
  then show ?thesis using fail [of rest] ok [of rest] by (cases f) (simp_all add: fs_op_def)
qed

lemma log_lines_simps [simp]:
  "log_lines (w\<lparr>rw_io := io\<rparr>) = log_lines w"
  "log_lines (w\<lparr>rw_profile := pr\<rparr>) = log_lines w"
  "log_lines (w\<lparr>rw_log := Some ls\<rparr>) = ls"
  by (simp_all add: log_lines_def)

lemma fs_op_log: "fs_op e w = (r, w') \<Longrightarrow> log_lines w' = log_lines w"
  by (cases e w rule: fs_op_cases) auto

lemma append_line_effect:
  assumes "append_line l w = (r, w')"
  shows "log_lines w' = log_lines w \<and> \<not> is_ok r \<or> log_lines w' = log_lines w @ [l]"
proof (cases "WriteFailed OpenFailed" w rule: fs_op_cases)
  case (ok io)
  let ?w1 = "w\<lparr>rw_io := io, rw_log := Some (log_lines w)\<rparr>"
  show ?thesis
  proof (cases "WriteFailed AppendFailed" ?w1 rule: fs_op_cases)
    case (fail io2)
    then show ?thesis using assms ok by (auto simp: append_line_def sm_simps)
  next
    case (ok io2)
    let ?w2 = "w\<lparr>rw_io := io2, rw_log := Some (log_lines w @ [l])\<rparr>"
    have "bindS (fs_op (WriteFailed FlushFailed)) (\<lambda>_. fs_op (WriteFailed FsyncFailed)) ?w2 = (r, w')"
      using assms \<open>fs_op (WriteFailed OpenFailed) w = _\<close> ok by (simp add: append_line_def sm_simps)
    then have "log_lines w' = log_lines ?w2" by (rule bindS_E) (metis fs_op_log)+
    then show ?thesis by simp
  qed
qed (use assms in \<open>auto simp: append_line_def sm_simps\<close>)

lemma parse_log_entry_fields:
  assumes "parse_log_entry ln v = Inr e"
  shows "get_str ''entry_hash'' v = Some (entry_hash e)" "get_str ''review_id'' v = Some (entry_id e)"
  using assms
  by (auto simp: parse_log_entry_def need_str_def bindE_Inr_iff ok_or_Inr_iff split: if_splits)

lemma chain_tail_hash:
  assumes "chain_run (accept_line C) p xs = Some h" "xs \<noteq> []"
  shows "\<exists>v. from_str C (last xs) = Some v \<and> get_str ''entry_hash'' v = Some h"
proof -
  obtain ys l where xs: "xs = ys @ [l]" using assms(2) by (cases xs rule: rev_cases) auto
  then obtain q where "accept_line C q l = Some h"
    using assms(1) by (auto simp: chain_run_append split: option.splits)
  then obtain v e where "from_str C l = Some v" "parse_log_entry 0 v = Inr e" "entry_hash e = h"
    by (rule accept_lineE)
  then show ?thesis using parse_log_entry_fields(1) xs by fastforce
qed

lemma last_entry_hash_effect:
  assumes "chain_hash C (log_lines w) = Some h" "last_entry_hash C w = (r, w')"
  shows "log_lines w' = log_lines w" and "r = Inr x \<Longrightarrow> (case x of None \<Rightarrow> GENESIS_PREV_HASH | Some p \<Rightarrow> p) = h"
proof -
  have "log_lines w' = log_lines w \<and> (r = Inr x \<longrightarrow> (case x of None \<Rightarrow> GENESIS_PREV_HASH | Some p \<Rightarrow> p) = h)"
  proof (cases "live_lines C (log_lines w) = []")
    case True
    then show ?thesis using assms
      by (cases "WriteFailed ReadFailed" w rule: fs_op_cases)
        (auto simp: last_entry_hash_def sm_simps live_lines_def)
  next
    case False
    then obtain v where "from_str C (last (live_lines C (log_lines w))) = Some v" "get_str ''entry_hash'' v = Some h"
      using chain_tail_hash [OF assms(1)] by auto
    then show ?thesis using assms(2) False
      by (cases "WriteFailed ReadFailed" w rule: fs_op_cases)
        (auto simp: last_entry_hash_def sm_simps live_lines_def)
  qed
  then show "log_lines w' = log_lines w" and "r = Inr x \<Longrightarrow> (case x of None \<Rightarrow> GENESIS_PREV_HASH | Some p \<Rightarrow> p) = h"
    by auto
qed

lemma link_entry_simps [simp]:
  "entry_prev (link_entry C p x) = p" "entry_ts (link_entry C p x) = entry_ts x"
  "entry_id (link_entry C p x) = entry_id x"
  "entry_hash (link_entry C p x) = sha256_hex C (entry_canonical C (link_entry C p x))"
  by (cases x; simp add: Let_def canonical_bytes_def canonical_outcome_bytes_def review_fields_def
      outcome_fields_def)+

lemma accept_linked:
  assumes "codec_ok C" "entry_ts x \<le> u64_max"
  shows "accept_line C p (entry_text C (link_entry C p x)) = Some (entry_hash (link_entry C p x))"
  unfolding accept_line_iff check_line_Inr_iff
  using assms parse_entry_json [of "link_entry C p x" 0]
  by (intro exI [of _ "entry_json (link_entry C p x)"] exI [of _ "link_entry C p x"])
    (simp add: entry_text_json codec_ok_def)

lemma not_blank_entry [simp]: "codec_ok C \<Longrightarrow> \<not> is_blank C (entry_text C x)"
  by (simp add: entry_text_json codec_ok_def)

lemma live_lines_append: "live_lines C (xs @ ys) = live_lines C xs @ live_lines C ys"
  by (simp add: live_lines_def)

lemma chain_hash_append:
  assumes "codec_ok C" "entry_ts x \<le> u64_max" "chain_hash C ls = Some h"
  shows "chain_hash C (ls @ [entry_text C (link_entry C h x)]) = Some (entry_hash (link_entry C h x))"
  using assms accept_linked [OF assms(1, 2), of h]
  by (simp add: live_lines_append chain_run_append live_lines_def)

definition review_of ::
  "string \<Rightarrow> nat \<Rightarrow> actor \<Rightarrow> string \<Rightarrow> string \<Rightarrow> string \<Rightarrow> review_decision \<Rightarrow> string option \<Rightarrow> chainless_entry" where
  "review_of uuid now actor connector tool args_hash decision replaces =
     Review \<lparr>re_review_id = uuid, re_ts_ms = now, re_actor = actor, re_connector = connector,
       re_tool = tool, re_args_hash = args_hash, re_decision = decision,
       re_replaces_attempt = replaces, re_prev_hash = '''', re_entry_hash = ''''\<rparr>"

definition outcome_of :: "nat \<Rightarrow> string \<Rightarrow> attempt_outcome \<Rightarrow> actor \<Rightarrow> chainless_entry" where
  "outcome_of now rid outcome actor =
     Outcome \<lparr>oe_review_id = rid, oe_ts_ms = now, oe_actor = actor, oe_outcome = outcome,
       oe_prev_hash = '''', oe_entry_hash = ''''\<rparr>"

lemma update_profile_log: "update_profile f w = (r, w') \<Longrightarrow> log_lines w' = log_lines w \<and> is_ok r"
  by (cases "()" w rule: fs_op_cases) (auto simp: update_profile_def sm_simps)

fun prev_of :: "string option \<Rightarrow> string" where
  "prev_of None = GENESIS_PREV_HASH"
| "prev_of (Some p) = p"

text \<open>Both writers read the tail hash, append one linked entry, and finish without touching the log.\<close>

definition tail_append ::
  "'l review_codec \<Rightarrow> chainless_entry \<Rightarrow> (chainless_entry \<Rightarrow> ('l review_world, review_error, 'a) sm)
     \<Rightarrow> ('l review_world, review_error, 'a) sm" where
  "tail_append C x K =
     bindS (last_entry_hash C) (\<lambda>h.
     bindS (append_line (entry_text C (link_entry C (prev_of h) x))) (\<lambda>_. K (link_entry C (prev_of h) x)))"

lemma tail_append_effect:
  assumes "chain_hash C (log_lines w) = Some h" and "tail_append C x K w = (r, w')"
    and K: "\<And>e w r w'. K e w = (r, w') \<Longrightarrow> log_lines w' = log_lines w \<and> r = Inr (f e)"
  shows "log_lines w' = log_lines w \<and> \<not> is_ok r \<or>
    log_lines w' = log_lines w @ [entry_text C (link_entry C h x)] \<and> (is_ok r \<longrightarrow> r = Inr (f (link_entry C h x)))"
  using assms(2) unfolding tail_append_def
proof (rule bindS_E)
  fix e assume "last_entry_hash C w = (Inl e, w')" "r = Inl e"
  then show ?thesis using last_entry_hash_effect(1) [OF assms(1)] by auto
next
  fix t w2
  assume t: "last_entry_hash C w = (Inr t, w2)"
    and rest: "bindS (append_line (entry_text C (link_entry C (prev_of t) x))) (\<lambda>_. K (link_entry C (prev_of t) x)) w2 = (r, w')"
  have l2: "log_lines w2 = log_lines w" using last_entry_hash_effect(1) [OF assms(1) t] .
  have h: "prev_of t = h" using last_entry_hash_effect(2) [OF assms(1) t refl] by (cases t) auto
  from rest show ?thesis unfolding h
  proof (rule bindS_E)
    fix e assume "append_line (entry_text C (link_entry C h x)) w2 = (Inl e, w')" "r = Inl e"
    then show ?thesis using append_line_effect l2 by fastforce
  next
    fix u w3
    assume 3: "append_line (entry_text C (link_entry C h x)) w2 = (Inr u, w3)"
      and 4: "K (link_entry C h x) w3 = (r, w')"
    show ?thesis using append_line_effect [OF 3] K [OF 4] l2 by auto
  qed
qed

definition profile_step :: "actor \<Rightarrow> string \<Rightarrow> review_decision \<Rightarrow> ('l review_world, 'e, unit) sm" where
  "profile_step ac tn de =
     (case ac of Human _ \<Rightarrow> update_profile (record_approval tn (de = Approved)) | _ \<Rightarrow> retS ())"

lemma profile_step_log: "profile_step ac tn de w = (r, w') \<Longrightarrow> log_lines w' = log_lines w \<and> is_ok r"
  by (cases ac) (auto simp: profile_step_def retS_def dest: update_profile_log)

definition the_review :: "chainless_entry \<Rightarrow> review_entry" where
  "the_review x = (case x of Review e \<Rightarrow> e | Outcome _ \<Rightarrow> undefined)"

definition the_outcome :: "chainless_entry \<Rightarrow> outcome_entry" where
  "the_outcome x = (case x of Outcome e \<Rightarrow> e | Review _ \<Rightarrow> undefined)"

lemma prev_of_case: "(case h of None \<Rightarrow> GENESIS_PREV_HASH | Some p \<Rightarrow> p) = prev_of h"
  by (cases h) auto

lemma record_review_alt:
  "record_review C uuid now ac co tn ah de rp =
     bindS (fs_op (WriteFailed LockFailed)) (\<lambda>_.
     tail_append C (review_of uuid now ac co tn ah de rp)
       (\<lambda>e. bindS (profile_step ac tn de) (\<lambda>_. retS (the_review e))))"
  by (simp add: record_review_def tail_append_def review_of_def prev_of_case profile_step_def Let_def
      the_review_def)

lemma record_review_effect:
  assumes "chain_hash C (log_lines w) = Some h"
    and "record_review C uuid now ac co tn ah de rp w = (r, w')"
  shows "log_lines w' = log_lines w \<and> \<not> is_ok r \<or>
    log_lines w' = log_lines w @ [entry_text C (link_entry C h (review_of uuid now ac co tn ah de rp))] \<and>
    (is_ok r \<longrightarrow> r = Inr (the_review (link_entry C h (review_of uuid now ac co tn ah de rp))))"
  using assms(2) unfolding record_review_alt
proof (rule bindS_E)
  fix e assume "fs_op (WriteFailed LockFailed) w = (Inl e, w')" "r = Inl e"
  then show ?thesis using fs_op_log by fastforce
next
  fix x w1
  assume 1: "fs_op (WriteFailed LockFailed) w = (Inr x, w1)"
    and 2: "tail_append C (review_of uuid now ac co tn ah de rp)
       (\<lambda>e. bindS (profile_step ac tn de) (\<lambda>_. retS (the_review e))) w1 = (r, w')"
  have K: "log_lines w' = log_lines w \<and> r = Inr (the_review e)"
    if "bindS (profile_step ac tn de) (\<lambda>_. retS (the_review e)) w = (r, w')" for e w r and w' :: "'a review_world"
    using that by (rule bindS_E) (auto simp: retS_def dest: profile_step_log)
  have "chain_hash C (log_lines w1) = Some h" using assms(1) fs_op_log [OF 1] by simp
  from tail_append_effect [where f = the_review, OF this 2 K] show ?thesis using fs_op_log [OF 1] by simp
qed

lemma record_attempt_outcome_alt:
  "record_attempt_outcome C now rid oc ac =
     bindS (fs_op (WriteFailed LockFailed)) (\<lambda>_.
     bindS (getS rw_log) (\<lambda>file.
     bindS (if file = None then retS () else fs_op (WriteFailed ReadFailed)) (\<lambda>_.
     bindS (getS log_lines) (\<lambda>ls.
     bindS (liftE (scan_review C rid ls False False)) (\<lambda>(have_review, have_outcome).
     if \<not> have_review then throwS (WriteFailed UnknownReview)
     else if have_outcome then throwS (WriteFailed AlreadyRecorded)
     else tail_append C (outcome_of now rid oc ac) (\<lambda>e. retS (the_outcome e)))))))"
  by (simp add: record_attempt_outcome_def tail_append_def outcome_of_def prev_of_case Let_def
      the_outcome_def cong: if_cong)

lemma record_attempt_outcome_effect:
  assumes "chain_hash C (log_lines w) = Some h"
    and "record_attempt_outcome C now rid oc ac w = (r, w')"
  shows "log_lines w' = log_lines w \<and> \<not> is_ok r \<or>
    scan_review C rid (log_lines w) False False = Inr (True, False) \<and>
    log_lines w' = log_lines w @ [entry_text C (link_entry C h (outcome_of now rid oc ac))] \<and>
    (is_ok r \<longrightarrow> r = Inr (the_outcome (link_entry C h (outcome_of now rid oc ac))))"
  using assms(2) unfolding record_attempt_outcome_alt
proof (rule bindS_E)
  fix e assume "fs_op (WriteFailed LockFailed) w = (Inl e, w')" "r = Inl e"
  then show ?thesis using fs_op_log by fastforce
next
  fix x w1
  let ?rest = "\<lambda>ls. bindS (liftE (scan_review C rid ls False False)) (\<lambda>(have_review, have_outcome).
     if \<not> have_review then throwS (WriteFailed UnknownReview)
     else if have_outcome then throwS (WriteFailed AlreadyRecorded)
     else tail_append C (outcome_of now rid oc ac) (\<lambda>e. retS (the_outcome e)))"
  assume 1: "fs_op (WriteFailed LockFailed) w = (Inr x, w1)"
    and "bindS (getS rw_log) (\<lambda>file. bindS (if file = None then retS () else fs_op (WriteFailed ReadFailed)) (\<lambda>_.
     bindS (getS log_lines) ?rest)) w1 = (r, w')"
  then have "bindS (if rw_log w1 = None then retS () else fs_op (WriteFailed ReadFailed)) (\<lambda>_.
     bindS (getS log_lines) ?rest) w1 = (r, w')" by (simp add: sm_simps)
  then show ?thesis
  proof (rule bindS_E)
    fix e assume "(if rw_log w1 = None then retS () else fs_op (WriteFailed ReadFailed)) w1 = (Inl e, w')" "r = Inl e"
    then show ?thesis using fs_op_log [OF 1] by (auto simp: retS_def dest: fs_op_log split: if_splits)
  next
    fix y w2
    assume a: "(if rw_log w1 = None then retS () else fs_op (WriteFailed ReadFailed)) w1 = (Inr y, w2)"
      and b: "bindS (getS log_lines) ?rest w2 = (r, w')"
    have l2: "log_lines w2 = log_lines w"
      using a fs_op_log [OF 1] by (auto simp: retS_def dest: fs_op_log split: if_splits)
    have "?rest (log_lines w) w2 = (r, w')" using b l2 by (simp add: bindS_def getS_def)
    then consider "log_lines w' = log_lines w2 \<and> \<not> is_ok r"
      | "scan_review C rid (log_lines w) False False = Inr (True, False)"
        "tail_append C (outcome_of now rid oc ac) (\<lambda>e. retS (the_outcome e)) w2 = (r, w')"
      by (cases "scan_review C rid (log_lines w) False False")
        (auto simp: bindS_def liftE_def throwS_def split: if_splits)
    then show ?thesis
    proof cases
      case 2
      have "chain_hash C (log_lines w2) = Some h" using assms(1) l2 by simp
      from tail_append_effect [where f = the_outcome, OF this 2(2)] 2(1) l2
      show ?thesis by (auto simp: retS_def)
    qed (simp add: l2)
  qed
qed

section \<open>Review ids, and the invariant of the log\<close>

definition line_tag :: "'l review_codec \<Rightarrow> 'l \<Rightarrow> (bool \<times> string) option" where
  "line_tag C l =
     (case from_str C l of
        None \<Rightarrow> None
      | Some v \<Rightarrow> map_option (\<lambda>rid. (get_str ''type'' v = Some ''attempt_outcome'', rid)) (get_str ''review_id'' v))"

definition tagged_ids :: "'l review_codec \<Rightarrow> bool \<Rightarrow> 'l list \<Rightarrow> string list" where
  "tagged_ids C oc ls =
     map snd (filter (\<lambda>t. fst t = oc) (List.map_filter (line_tag C) (live_lines C ls)))"

abbreviation outcome_ids :: "'l review_codec \<Rightarrow> 'l list \<Rightarrow> string list" where
  "outcome_ids C \<equiv> tagged_ids C True"

abbreviation review_ids :: "'l review_codec \<Rightarrow> 'l list \<Rightarrow> string list" where
  "review_ids C \<equiv> tagged_ids C False"

text \<open>Every entry is chained, a review has at most one outcome, every outcome has its review.\<close>

definition review_inv :: "'l review_codec \<Rightarrow> 'l review_world \<Rightarrow> bool" where
  "review_inv C w =
     (is_ok (verify_review_reader C (log_lines w)) \<and> distinct (outcome_ids C (log_lines w)) \<and>
      set (outcome_ids C (log_lines w)) \<subseteq> set (review_ids C (log_lines w)))"

text \<open>
  The steps of the log: any call of the module by any process, with any file-system answers. The
  exclusive lock makes each call one step.
\<close>

inductive review_step :: "'l review_codec \<Rightarrow> 'l review_world \<Rightarrow> 'l review_world \<Rightarrow> bool" for C where
  rs_review: "record_review C uuid now ac co tn ah de rp w = (r, w') \<Longrightarrow> now \<le> u64_max \<Longrightarrow> review_step C w w'"
| rs_outcome: "record_attempt_outcome C now rid oc ac w = (ro, w') \<Longrightarrow> now \<le> u64_max \<Longrightarrow> review_step C w w'"
| rs_inflight: "inflight_reviews C w = (ri, w') \<Longrightarrow> review_step C w w'"
| rs_classify: "classify_review_log C w = (rc, w') \<Longrightarrow> review_step C w w'"
| rs_rechain: "rechain_review_log C w = (rn, w') \<Longrightarrow> review_step C w w'"
| rs_environment: "review_step C w (w\<lparr>rw_io := io\<rparr>)"

lemma is_ok_iff: "is_ok r \<longleftrightarrow> (\<exists>x. r = Inr x)"
  by (cases r) auto

lemma review_inv_chain:
  "is_ok (verify_review_reader C ls) \<longleftrightarrow> (\<exists>h. chain_hash C ls = Some h)"
  by (auto simp: is_ok_iff verify_review_reader_iff)

fun is_outcome :: "chainless_entry \<Rightarrow> bool" where
  "is_outcome (Review e) = False"
| "is_outcome (Outcome e) = True"

lemma is_outcome_link: "is_outcome (link_entry C h x) = is_outcome x"
  by (cases x) (simp_all add: Let_def)

lemma line_tag_entry [simp]:
  "codec_ok C \<Longrightarrow> line_tag C (entry_text C x) = Some (is_outcome x, entry_id x)"
  by (cases x) (simp_all add: line_tag_def entry_text_json codec_ok_def)

lemma tagged_ids_append: "tagged_ids C oc (xs @ ys) = tagged_ids C oc xs @ tagged_ids C oc ys"
  by (simp add: tagged_ids_def live_lines_def List.map_filter_def)

lemma tagged_ids_entry:
  "codec_ok C \<Longrightarrow> tagged_ids C oc [entry_text C x] =
     (if oc = is_outcome x then [entry_id x] else [])"
  by (auto simp: tagged_ids_def live_lines_def List.map_filter_def)

lemma tagged_ids_Cons: "tagged_ids C oc (l # ls) = tagged_ids C oc [l] @ tagged_ids C oc ls"
  using tagged_ids_append [of C oc "[l]" ls] by simp

lemma scan_review_ids:
  "scan_review C rid ls a b = Inr (x, y) \<Longrightarrow>
     x = (a \<or> rid \<in> set (review_ids C ls)) \<and> y = (b \<or> rid \<in> set (outcome_ids C ls))"
proof (induction ls arbitrary: a b)
  case Nil
  then show ?case by (simp add: tagged_ids_def live_lines_def List.map_filter_def)
next
  case (Cons l ls)
  show ?case
  proof (cases "is_blank C l")
    case True
    then show ?thesis using Cons by (simp add: tagged_ids_def live_lines_def)
  next
    case False
    then obtain v where v: "from_str C l = Some v" using Cons.prems by (cases "from_str C l") auto
    have tag: "tagged_ids C oc [l] = (case get_str ''review_id'' v of None \<Rightarrow> []
        | Some i \<Rightarrow> if oc = (get_str ''type'' v = Some ''attempt_outcome'') then [i] else [])" for oc
      using False v by (auto simp: tagged_ids_def live_lines_def List.map_filter_def line_tag_def split: option.splits)
    show ?thesis using Cons False v
      by (cases "get_str ''review_id'' v = Some rid"; cases "get_str ''type'' v = Some ''attempt_outcome''")
        (auto simp: tagged_ids_Cons [of C _ l ls] tag split: option.splits)
  qed
qed

lemma scan_chainless_hash:
  assumes "scan_chainless_line ln v = Inr e"
  shows "get_str ''entry_hash'' v = None" and "entry_ts e \<le> u64_max"
proof -
  obtain m where m: "v = JObj m" "map_of m ''entry_hash'' = None \<or> map_of m ''entry_hash'' = Some JNull"
    using assms by (cases v) (auto simp: scan_chainless_line_def ok_or_def split: if_splits)
  then show "get_str ''entry_hash'' v = None" by (auto simp: get_str_def)
  have "get_u64 ''ts_ms'' v = Some (entry_ts e)"
    using assms by (auto simp: scan_chainless_line_def Let_def bindE_Inr_iff ok_or_Inr_iff split: if_splits)
  then show "entry_ts e \<le> u64_max"
    by (auto simp: get_u64_def bind_eq_Some_conv elim!: as_u64.elims split: if_splits)
qed

lemma scan_chainless_lines_ts:
  "scan_chainless_lines C ln ls = Inr es \<Longrightarrow> e \<in> set es \<Longrightarrow> entry_ts e \<le> u64_max"
  by (induction ls arbitrary: ln es)
    (auto simp: bindE_Inr_iff ok_or_Inr_iff dest: scan_chainless_hash(2) split: if_splits)

lemma scan_chained_lines:
  assumes "scan_chainless_lines C ln ls = Inr es" "chain_run (accept_line C) p (live_lines C ls) = Some h"
  shows "es = [] \<and> live_lines C ls = []"
  using assms
proof (induction ls arbitrary: ln es)
  case (Cons l ls)
  show ?case
  proof (cases "is_blank C l")
    case False
    then obtain hl where "accept_line C p l = Some hl"
      using Cons.prems(2) by (auto simp: live_lines_def split: option.splits)
    then obtain v e where "from_str C l = Some v" "parse_log_entry 0 v = Inr e" by (rule accept_lineE)
    then show ?thesis using False Cons.prems(1) parse_log_entry_fields(1) scan_chainless_hash(1)
      by (fastforce simp: bindE_Inr_iff)
  qed (use Cons in \<open>simp add: live_lines_def\<close>)
qed (simp add: live_lines_def)

lemma assign_chain_ok:
  assumes "codec_ok C" "\<And>e. e \<in> set es \<Longrightarrow> entry_ts e \<le> u64_max"
  shows "\<exists>h. chain_run (accept_line C) p (assign_chain C p es) = Some h"
    and "live_lines C (assign_chain C p es) = assign_chain C p es"
    and "length (assign_chain C p es) = length es"
proof -
  have "(\<exists>h. chain_run (accept_line C) p (assign_chain C p es) = Some h) \<and>
      live_lines C (assign_chain C p es) = assign_chain C p es \<and> length (assign_chain C p es) = length es"
    using assms
  proof (induction es arbitrary: p)
    case (Cons e es)
    then show ?case
      using accept_linked [of C e p] by (simp add: Let_def live_lines_def del: link_entry_simps(4))
  qed (simp add: live_lines_def)
  then show "\<exists>h. chain_run (accept_line C) p (assign_chain C p es) = Some h"
    and "live_lines C (assign_chain C p es) = assign_chain C p es"
    and "length (assign_chain C p es) = length es" by blast+
qed

lemma scan_chainless_entries_effect:
  assumes "scan_chainless_entries C w = (r, w')"
  shows "log_lines w' = log_lines w" and "r = Inr es \<Longrightarrow> scan_chainless_lines C 1 (log_lines w) = Inr es"
proof -
  have "log_lines w' = log_lines w \<and> (r = Inr es \<longrightarrow> scan_chainless_lines C 1 (log_lines w) = Inr es)"
  proof (cases "rw_log w")
    case None
    then show ?thesis using assms by (auto simp: scan_chainless_entries_def sm_simps log_lines_def)
  next
    case (Some ls)
    then have [simp]: "log_lines w = ls" by (simp add: log_lines_def)
    show ?thesis using assms Some
      by (cases ChainIo w rule: fs_op_cases) (auto simp: scan_chainless_entries_def sm_simps)
  qed
  then show "log_lines w' = log_lines w" and "r = Inr es \<Longrightarrow> scan_chainless_lines C 1 (log_lines w) = Inr es"
    by auto
qed

lemma verify_review_chain_log: "verify_review_chain C w = (r, w') \<Longrightarrow> log_lines w' = log_lines w"
  by (cases ChainIo w rule: fs_op_cases) (auto simp: verify_review_chain_def sm_simps split: option.splits)

lemma classify_log: "classify_review_log C w = (r, w') \<Longrightarrow> log_lines w' = log_lines w"
  by (auto simp: classify_review_log_def split: prod.splits sum.splits
      dest!: verify_review_chain_log scan_chainless_entries_effect(1))

lemma inflight_log: "inflight_reviews C w = (r, w') \<Longrightarrow> log_lines w' = log_lines w"
  by (cases "WriteFailed ReadFailed" w rule: fs_op_cases; cases "scan_inflight C (log_lines w) [] []")
    (auto simp: inflight_reviews_def sm_simps split: if_splits)

lemma fs_bind_log:
  assumes "bindS (fs_op e) (\<lambda>_. m) w = (r, w')"
  obtains "log_lines w' = log_lines w" "\<not> is_ok r" | w1 where "log_lines w1 = log_lines w" "m w1 = (r, w')"
  using assms by (rule bindS_E) (auto dest: fs_op_log)

lemma rechain_effect:
  assumes "rechain_review_log C w = (r, w')"
  shows "log_lines w' = log_lines w \<or>
    (\<exists>es. scan_chainless_lines C 1 (log_lines w) = Inr es \<and> es \<noteq> [] \<and>
       log_lines w' = assign_chain C GENESIS_PREV_HASH es)"
  using assms unfolding rechain_review_log_def
proof (rule bindS_E)
  fix e assume "scan_chainless_entries C w = (Inl e, w')"
  then show ?thesis using scan_chainless_entries_effect(1) by blast
next
  fix es w1
  let ?commit = "bindS (modifyS (\<lambda>w. w\<lparr>rw_log := Some (assign_chain C GENESIS_PREV_HASH es)\<rparr>)) (\<lambda>_. verify_review_chain C)"
  assume 1: "scan_chainless_entries C w = (Inr es, w1)"
    and 2: "(if es = [] then retS 0 else let out = assign_chain C GENESIS_PREV_HASH es in
       bindS (fs_op ChainIo) (\<lambda>_. bindS (fs_op ChainIo) (\<lambda>_. bindS (fs_op ChainIo) (\<lambda>_. bindS (fs_op ChainIo) (\<lambda>_.
       bindS (modifyS (\<lambda>w. w\<lparr>rw_log := Some out\<rparr>)) (\<lambda>_. verify_review_chain C)))))) w1 = (r, w')"
  note eff = scan_chainless_entries_effect [OF 1]
  show ?thesis
  proof (cases "es = []")
    case True
    then show ?thesis using 2 eff(1) by (simp add: retS_def)
  next
    case False
    then have "bindS (fs_op ChainIo) (\<lambda>_. bindS (fs_op ChainIo) (\<lambda>_. bindS (fs_op ChainIo) (\<lambda>_.
        bindS (fs_op ChainIo) (\<lambda>_. ?commit)))) w1 = (r, w')" using 2 by (simp add: Let_def)
    then consider "log_lines w' = log_lines w1" | w5 where "?commit w5 = (r, w')"
      by (auto elim!: fs_bind_log)
    then show ?thesis
    proof cases
      case 2
      then have "log_lines w' = assign_chain C GENESIS_PREV_HASH es"
        by (auto simp: bindS_def modifyS_def dest: verify_review_chain_log)
      then show ?thesis using False eff(2) by blast
    qed (simp add: eff(1))
  qed
qed

lemma review_step_inv:
  assumes "review_step C w w'" "codec_ok C" "review_inv C w"
  shows "review_inv C w'"
proof -
  obtain h where h: "chain_hash C (log_lines w) = Some h"
    using assms(3) by (auto simp: review_inv_def review_inv_chain)
  have same: "log_lines w' = log_lines w \<Longrightarrow> review_inv C w'" using assms(3) by (simp add: review_inv_def)
  have grow: "review_inv C w'"
    if "log_lines w' = log_lines w @ [entry_text C (link_entry C h x)]" "entry_ts x \<le> u64_max"
      "\<And>e. x = Outcome e \<Longrightarrow> entry_id x \<in> set (review_ids C (log_lines w)) - set (outcome_ids C (log_lines w))" for x
  proof -
    have "is_ok (verify_review_reader C (log_lines w'))"
      using chain_hash_append [OF assms(2) that(2) h] that(1) unfolding review_inv_chain by metis
    moreover have "tagged_ids C oc (log_lines w') = tagged_ids C oc (log_lines w) @
        (if oc = is_outcome x then [entry_id x] else [])" for oc
      by (simp add: that(1) tagged_ids_append tagged_ids_entry [OF assms(2)] is_outcome_link)
    ultimately show ?thesis using assms(3) that(3) by (cases x) (auto simp: review_inv_def)
  qed
  show ?thesis using assms(1)
  proof cases
    case (rs_review uuid now ac co tn ah de rp r)
    then show ?thesis using record_review_effect [OF h rs_review(1)] same grow [of "review_of uuid now ac co tn ah de rp"]
      by (auto simp: review_of_def)
  next
    case (rs_outcome now rid oc ac ro)
    have "rid \<in> set (review_ids C (log_lines w)) - set (outcome_ids C (log_lines w))"
      if "scan_review C rid (log_lines w) False False = Inr (True, False)"
      using scan_review_ids [OF that] by simp
    then show ?thesis
      using record_attempt_outcome_effect [OF h rs_outcome(1)] same grow [of "outcome_of now rid oc ac"] rs_outcome(2)
      by (auto simp: outcome_of_def)
  next
    case (rs_rechain rn)
    have "live_lines C (log_lines w) = [] \<and> es = []" if "scan_chainless_lines C 1 (log_lines w) = Inr es" for es
      using scan_chained_lines [OF that h] by simp
    then show ?thesis using rechain_effect [OF rs_rechain] same by auto
  next
    case (rs_environment io)
    then show ?thesis by (intro same) simp
  qed (auto intro!: same dest: classify_log inflight_log)
qed

lemma scan_inflight_ids:
  assumes "scan_inflight C ls a b = Inr (x, y)"
  shows "set y = set b \<union> set (outcome_ids C ls)"
  using assms
proof (induction ls arbitrary: a b)
  case Nil
  then show ?case by (simp add: tagged_ids_def live_lines_def List.map_filter_def)
next
  case (Cons l ls)
  show ?case
  proof (cases "is_blank C l")
    case True
    then show ?thesis using Cons by (simp add: tagged_ids_def live_lines_def)
  next
    case False
    then obtain v where v: "from_str C l = Some v" using Cons.prems by (cases "from_str C l") auto
    have tag: "outcome_ids C [l] = (case get_str ''review_id'' v of None \<Rightarrow> []
        | Some i \<Rightarrow> if get_str ''type'' v = Some ''attempt_outcome'' then [i] else [])"
      using False v by (auto simp: tagged_ids_def live_lines_def List.map_filter_def line_tag_def split: option.splits)
    show ?thesis using Cons False v
      by (cases "get_str ''review_id'' v"; cases "get_str ''type'' v = Some ''attempt_outcome''")
        (auto simp: tagged_ids_Cons [of C _ l ls] tag split: option.splits if_splits)
  qed
qed

lemma scan_inflight_append:
  "scan_inflight C (xs @ ys) a b =
     bindE (scan_inflight C xs a b) (\<lambda>(a', b'). scan_inflight C ys a' b')"
  by (induction xs arbitrary: a b) (simp_all split: option.splits)

lemma inflight_eval:
  "rw_io w = [] \<Longrightarrow> fst (inflight_reviews C w) =
     bindE (scan_inflight C (log_lines w) [] []) (\<lambda>(a, b). Inr (filter (\<lambda>i. i \<notin> set b) a))"
  by (cases "rw_log w"; cases "scan_inflight C (log_lines w) [] []")
    (auto simp: inflight_reviews_def sm_simps fs_op_def log_lines_def)

lemma rechain_no_faults:
  assumes "codec_ok C" "rw_io w = []" "rw_log w = Some ls" "scan_chainless_lines C 1 ls = Inr es" "es \<noteq> []"
  shows "rechain_review_log C w = (Inr (length es), w\<lparr>rw_log := Some (assign_chain C GENESIS_PREV_HASH es)\<rparr>)"
proof -
  have ts: "e \<in> set es \<Longrightarrow> entry_ts e \<le> u64_max" for e using scan_chainless_lines_ts [OF assms(4)] .
  have "verify_review_reader C (assign_chain C GENESIS_PREV_HASH es) = Inr (length es)"
    unfolding verify_review_reader_iff using assign_chain_ok [OF assms(1) ts] by metis
  then show ?thesis using assms(2-5)
    by (simp add: rechain_review_log_def scan_chainless_entries_def verify_review_chain_def sm_simps
        fs_op_def Let_def)
qed

section \<open>What the writers do in general, and on a healthy log\<close>

lemma last_entry_hash_log: "last_entry_hash C w = (r, w') \<Longrightarrow> log_lines w' = log_lines w"
  unfolding last_entry_hash_def
  by (elim bindS_E) (auto simp: sm_simps dest!: fs_op_log split: if_splits option.splits)

lemma tail_append_log:
  assumes "tail_append C x K w = (r, w')" and K: "\<And>e w r w'. K e w = (r, w') \<Longrightarrow> log_lines w' = log_lines w \<and> r = Inr (f e)"
  shows "log_lines w' = log_lines w \<and> \<not> is_ok r \<or>
    (\<exists>h. log_lines w' = log_lines w @ [entry_text C (link_entry C h x)] \<and> (is_ok r \<longrightarrow> r = Inr (f (link_entry C h x))))"
  using assms(1) unfolding tail_append_def
proof (elim bindS_E)
  fix e assume "last_entry_hash C w = (Inl e, w')" "r = Inl e"
  then show ?thesis by (auto dest: last_entry_hash_log)
next
  fix t w2 e
  assume "last_entry_hash C w = (Inr t, w2)" "append_line (entry_text C (link_entry C (prev_of t) x)) w2 = (Inl e, w')" "r = Inl e"
  then show ?thesis using append_line_effect last_entry_hash_log by fastforce
next
  fix t w2 u w3
  assume 1: "last_entry_hash C w = (Inr t, w2)" and 2: "append_line (entry_text C (link_entry C (prev_of t) x)) w2 = (Inr u, w3)"
    and 3: "K (link_entry C (prev_of t) x) w3 = (r, w')"
  show ?thesis using last_entry_hash_log [OF 1] append_line_effect [OF 2] K [OF 3] by auto
qed

lemma record_review_log:
  assumes "record_review C uuid now ac co tn ah de rp w = (r, w')"
  shows "log_lines w' = log_lines w \<and> \<not> is_ok r \<or>
    (\<exists>h. let x = link_entry C h (review_of uuid now ac co tn ah de rp) in
       log_lines w' = log_lines w @ [entry_text C x] \<and> (is_ok r \<longrightarrow> r = Inr (the_review x)))"
  using assms unfolding record_review_alt
proof (elim bindS_E)
  fix x w1
  assume 1: "fs_op (WriteFailed LockFailed) w = (Inr x, w1)"
    and 2: "tail_append C (review_of uuid now ac co tn ah de rp)
       (\<lambda>e. bindS (profile_step ac tn de) (\<lambda>_. retS (the_review e))) w1 = (r, w')"
  have K: "log_lines w' = log_lines w \<and> r = Inr (the_review e)"
    if "bindS (profile_step ac tn de) (\<lambda>_. retS (the_review e)) w = (r, w')" for e w r and w' :: "'a review_world"
    using that by (rule bindS_E) (auto simp: retS_def dest: profile_step_log)
  show ?thesis using tail_append_log [where f = the_review, OF 2 K] fs_op_log [OF 1] by (auto simp: Let_def)
qed (auto dest: fs_op_log)

lemma record_attempt_outcome_log:
  assumes "record_attempt_outcome C now rid oc ac w = (r, w')"
  shows "\<exists>ls. log_lines w' = log_lines w @ ls"
  using assms unfolding record_attempt_outcome_alt
proof (elim bindS_E, goal_cases)
  case (6 x1 w1 f w2 x3 w3 ls w4 p w5)
  have l: "log_lines w5 = log_lines w"
    using 6 by (auto simp: sm_simps dest!: fs_op_log split: if_splits)
  have K: "log_lines w' = log_lines w \<and> r = Inr (the_outcome e)"
    if "retS (the_outcome e) w = (r, w')" for e w r and w' :: "'a review_world"
    using that by (simp add: retS_def)
  have "\<exists>ls. log_lines w' = log_lines w5 @ ls"
    if "tail_append C (outcome_of now rid oc ac) (\<lambda>e. retS (the_outcome e)) w5 = (r, w')"
    using tail_append_log [where f = the_outcome, OF that K] by auto
  then show ?case using 6(6) l by (auto simp: throwS_def split: prod.splits if_splits)
qed (auto simp: sm_simps dest!: fs_op_log split: if_splits)

lemma fs_op_empty [simp]: "rw_io w = [] \<Longrightarrow> fs_op e w = (Inr (), w)"
  by (simp add: fs_op_def)

lemma tail_append_healthy:
  assumes "rw_io w = []" "chain_hash C (log_lines w) = Some h"
  shows "\<exists>w'. tail_append C x K w = K (link_entry C h x) w' \<and> rw_io w' = [] \<and>
    log_lines w' = log_lines w @ [entry_text C (link_entry C h x)]"
proof -
  obtain t where t: "last_entry_hash C w = (Inr t, w)" "prev_of t = h"
  proof (cases "live_lines C (log_lines w) = []")
    case True
    then have "last_entry_hash C w = (Inr None, w)" using assms(1) by (simp add: last_entry_hash_def sm_simps live_lines_def)
    then show ?thesis using that True assms(2) by simp
  next
    case False
    then obtain v where "from_str C (last (live_lines C (log_lines w))) = Some v" "get_str ''entry_hash'' v = Some h"
      using chain_tail_hash [OF assms(2)] by auto
    then have "last_entry_hash C w = (Inr (Some h), w)"
      using assms(1) False by (simp add: last_entry_hash_def sm_simps live_lines_def)
    then show ?thesis using that by simp
  qed
  let ?w = "w\<lparr>rw_log := Some (log_lines w @ [entry_text C (link_entry C h x)])\<rparr>"
  have "append_line (entry_text C (link_entry C h x)) w = (Inr (), ?w)"
    using assms(1) by (simp add: append_line_def sm_simps)
  then show ?thesis using t assms(1) by (intro exI [of _ ?w]) (simp add: tail_append_def bindS_def)
qed

lemma profile_step_healthy: "rw_io w = [] \<Longrightarrow> \<exists>w'. profile_step ac tn de w = (Inr (), w') \<and> rw_io w' = []"
  by (cases ac) (simp_all add: profile_step_def update_profile_def sm_simps)

lemma record_review_healthy:
  assumes "rw_io w = []" "chain_hash C (log_lines w) = Some h"
  shows "\<exists>w'. record_review C uuid now ac co tn ah de rp w =
      (Inr (the_review (link_entry C h (review_of uuid now ac co tn ah de rp))), w') \<and> rw_io w' = [] \<and>
    log_lines w' = log_lines w @ [entry_text C (link_entry C h (review_of uuid now ac co tn ah de rp))]"
proof -
  let ?x = "review_of uuid now ac co tn ah de rp" and ?K = "\<lambda>e. bindS (profile_step ac tn de) (\<lambda>_. retS (the_review e))"
  obtain w1 where 1: "tail_append C ?x ?K w = ?K (link_entry C h ?x) w1" "rw_io w1 = []"
      "log_lines w1 = log_lines w @ [entry_text C (link_entry C h ?x)]"
    using tail_append_healthy [OF assms, where x = ?x and K = ?K] by blast
  obtain w2 where 2: "profile_step ac tn de w1 = (Inr () :: review_error + unit, w2)" "rw_io w2 = []"
    using profile_step_healthy [OF 1(2)] by blast
  have "record_review C uuid now ac co tn ah de rp w = tail_append C ?x ?K w"
    using assms(1) by (simp add: record_review_alt bindS_def)
  also have "\<dots> = (Inr (the_review (link_entry C h ?x)), w2)"
    unfolding 1(1) using 2(1) by (simp add: bindS_def retS_def)
  finally show ?thesis using 1(3) 2(2) profile_step_log [OF 2(1)] by simp
qed

lemma chain_parses: "chain_run (accept_line C) p ls = Some h \<Longrightarrow> l \<in> set ls \<Longrightarrow> \<exists>v. from_str C l = Some v"
proof (induction ls arbitrary: p)
  case (Cons k ks)
  then obtain h1 where "accept_line C p k = Some h1" "chain_run (accept_line C) h1 ks = Some h"
    by (auto split: option.splits)
  then show ?case using Cons by (auto elim: accept_lineE)
qed simp

lemma scan_review_total:
  "(\<And>l. l \<in> set (live_lines C ls) \<Longrightarrow> \<exists>v. from_str C l = Some v) \<Longrightarrow> \<exists>x y. scan_review C rid ls a b = Inr (x, y)"
proof (induction ls arbitrary: a b)
  case (Cons l ls)
  then have IH: "\<exists>x y. scan_review C rid ls a b = Inr (x, y)" for a b by (auto simp: live_lines_def)
  show ?case
  proof (cases "is_blank C l")
    case False
    then obtain v where "from_str C l = Some v" using Cons.prems [of l] by (auto simp: live_lines_def)
    then show ?thesis using IH False by simp
  qed (use IH in simp)
qed simp

lemma scan_review_chained:
  assumes "chain_hash C ls = Some h"
  shows "scan_review C rid ls False False = Inr (rid \<in> set (review_ids C ls), rid \<in> set (outcome_ids C ls))"
proof -
  obtain x y where "scan_review C rid ls False False = Inr (x, y)"
    using scan_review_total chain_parses [OF assms] by blast
  then show ?thesis using scan_review_ids by fastforce
qed

lemma scan_inflight_total:
  "(\<And>l. l \<in> set (live_lines C ls) \<Longrightarrow> \<exists>v. from_str C l = Some v) \<Longrightarrow> \<exists>x y. scan_inflight C ls a b = Inr (x, y)"
proof (induction ls arbitrary: a b)
  case (Cons l ls)
  then have IH: "\<exists>x y. scan_inflight C ls a b = Inr (x, y)" for a b by (auto simp: live_lines_def)
  show ?case
  proof (cases "is_blank C l")
    case False
    then obtain v where "from_str C l = Some v" using Cons.prems [of l] by (auto simp: live_lines_def)
    then show ?thesis using IH False by (auto split: option.splits)
  qed (use IH in simp)
qed simp

lemma record_attempt_outcome_healthy:
  assumes "rw_io w = []" "chain_hash C (log_lines w) = Some h"
    and "rid \<in> set (review_ids C (log_lines w))" "rid \<notin> set (outcome_ids C (log_lines w))"
  shows "\<exists>w' e. record_attempt_outcome C now rid oc ac w = (Inr e, w') \<and> rw_io w' = [] \<and>
    log_lines w' = log_lines w @ [entry_text C (link_entry C h (outcome_of now rid oc ac))]"
proof -
  let ?x = "outcome_of now rid oc ac"
  obtain w1 where 1: "tail_append C ?x (\<lambda>e. retS (the_outcome e)) w = retS (the_outcome (link_entry C h ?x)) w1" "rw_io w1 = []"
      "log_lines w1 = log_lines w @ [entry_text C (link_entry C h ?x)]"
    using tail_append_healthy [OF assms(1,2), where x = ?x and K = "\<lambda>e. retS (the_outcome e)"] by blast
  have "record_attempt_outcome C now rid oc ac w = tail_append C ?x (\<lambda>e. retS (the_outcome e)) w"
    using assms scan_review_chained [OF assms(2), of rid]
    by (simp add: record_attempt_outcome_alt bindS_def getS_def liftE_def retS_def)
  then show ?thesis using 1 by (simp add: retS_def)
qed

text \<open>The in-flight list of a log, and how an entry changes it.\<close>

definition inflight_ids :: "'l review_codec \<Rightarrow> 'l list \<Rightarrow> string list" where
  "inflight_ids C ls = (case scan_inflight C ls [] [] of Inl _ \<Rightarrow> [] | Inr (a, b) \<Rightarrow> filter (\<lambda>i. i \<notin> set b) a)"

lemma inflight_ids_entry:
  assumes "codec_ok C" "chain_hash C ls = Some h"
  shows "inflight_ids C (ls @ [entry_text C x]) =
    (case x of
       Outcome e \<Rightarrow> filter (\<lambda>i. i \<noteq> oe_review_id e) (inflight_ids C ls)
     | Review e \<Rightarrow> if re_decision e = Approved \<and> re_review_id e \<notin> set (outcome_ids C ls)
                   then inflight_ids C ls @ [re_review_id e] else inflight_ids C ls)"
proof -
  obtain a b where ab: "scan_inflight C ls [] [] = Inr (a, b)"
    using scan_inflight_total chain_parses [OF assms(2)] by blast
  have b: "set b = set (outcome_ids C ls)" using scan_inflight_ids [OF ab] by simp
  have c: "from_str C (entry_text C x) = Some (entry_json x)" "\<not> is_blank C (entry_text C x)"
    using assms(1) not_blank_entry [OF assms(1), of x] by (simp_all add: entry_text_json codec_ok_def)
  have nd: "decision_str d = ''approved'' \<longleftrightarrow> d = Approved" for d by (cases d) auto
  show ?thesis
    using ab b c by (cases x) (auto simp: inflight_ids_def scan_inflight_append nd intro: filter_cong)
qed

lemma scan_inflight_reviews:
  assumes "scan_inflight C ls a b = Inr (x, y)"
  shows "set x \<subseteq> set a \<union> set (review_ids C ls)"
  using assms
proof (induction ls arbitrary: a b)
  case (Cons l ls)
  show ?case
  proof (cases "is_blank C l")
    case True
    then show ?thesis using Cons by (simp add: tagged_ids_def live_lines_def)
  next
    case False
    then obtain v where v: "from_str C l = Some v" using Cons.prems by (cases "from_str C l") auto
    have tag: "review_ids C [l] = (case get_str ''review_id'' v of None \<Rightarrow> []
        | Some i \<Rightarrow> if get_str ''type'' v = Some ''attempt_outcome'' then [] else [i])"
      using False v by (auto simp: tagged_ids_def live_lines_def List.map_filter_def line_tag_def split: option.splits)
    show ?thesis
    proof (cases "get_str ''review_id'' v")
      case None
      then show ?thesis using Cons False v by (auto simp: tagged_ids_Cons [of C _ l ls])
    next
      case (Some i)
      then show ?thesis
        using Cons False v tag by (fastforce simp: tagged_ids_Cons [of C _ l ls] split: if_splits)
    qed
  qed
qed (simp add: tagged_ids_def)

lemma inflight_ids_reviews: "set (inflight_ids C ls) \<subseteq> set (review_ids C ls)"
  using scan_inflight_reviews [of C ls "[]" "[]"]
  by (cases "scan_inflight C ls [] []") (auto simp: inflight_ids_def)

section \<open>Properties\<close>


definition ex_codec :: "json review_codec" where
  "ex_codec = \<lparr>from_str = Some, to_text = (\<lambda>v. v), is_blank = (\<lambda>_. False), sha256_hex = (\<lambda>_. ''c0ffee'')\<rparr>"

definition ex_world :: "json review_world" where
  "ex_world = \<lparr>rw_log = None, rw_profile = (\<lambda>_. None), rw_io = []\<rparr>"

lemma ex_codec_ok: "codec_ok ex_codec"
  by (simp add: codec_ok_def ex_codec_def)

lemma ex_world_inv: "review_inv ex_codec ex_world"
  by (simp add: review_inv_def ex_world_def log_lines_def verify_review_reader_def tagged_ids_def
      live_lines_def List.map_filter_def)


text \<open>
  Write-ahead: when recording a review returns the entry, the log is the old log plus exactly that
  entry's line, the entry carries the caller's data, and the grown log verifies with one more entry.
\<close>

lemma record_review_appends_verified_entry:
  assumes "codec_ok C" and "now \<le> u64_max" and "verify_review_reader C (log_lines w) = Inr n"
    and "record_review C uuid now ac co tn ah de rp w = (Inr e, w')"
  shows "log_lines w' = log_lines w @ [entry_line C e] \<and> verify_review_reader C (log_lines w') = Inr (Suc n) \<and>
    re_review_id e = uuid \<and> re_actor e = ac \<and> re_tool e = tn \<and> re_args_hash e = ah \<and> re_decision e = de"
proof -
  obtain h where h: "chain_hash C (log_lines w) = Some h" and n: "n = length (live_lines C (log_lines w))"
    using assms(3) by (auto simp: verify_review_reader_iff)
  let ?x = "review_of uuid now ac co tn ah de rp"
  have e: "log_lines w' = log_lines w @ [entry_text C (link_entry C h ?x)]" "e = the_review (link_entry C h ?x)"
    using record_review_effect [OF h assms(4)] by auto
  have x: "link_entry C h ?x = Review e" using e(2) by (simp add: review_of_def the_review_def Let_def)
  have "chain_hash C (log_lines w') \<noteq> None"
    using chain_hash_append [OF assms(1) _ h, of ?x] assms(2) e(1) by (simp add: review_of_def)
  then have "verify_review_reader C (log_lines w') = Inr (Suc n)"
    using n assms(1) e(1) by (auto simp: verify_review_reader_iff live_lines_append) (simp add: live_lines_def)
  then show ?thesis using e x by (auto simp: review_of_def the_review_def Let_def)
qed

text \<open>
  C30. Recording an outcome takes exactly its review off the in-flight list: afterwards the list is
  the old one without that id, in the same order.
\<close>

theorem outcome_resolves_exactly_its_review:
  assumes "codec_ok C" and "is_ok (verify_review_reader C (log_lines w))"
    and "record_attempt_outcome C now rid oc ac w = (Inr e, w')"
    and "fst (inflight_reviews C (w\<lparr>rw_io := []\<rparr>)) = Inr ids"
  shows "fst (inflight_reviews C (w'\<lparr>rw_io := []\<rparr>)) = Inr (filter (\<lambda>i. i \<noteq> rid) ids)"
proof -
  obtain h where h: "chain_hash C (log_lines w) = Some h" using assms(2) by (auto simp: review_inv_chain)
  let ?x = "link_entry C h (outcome_of now rid oc ac)"
  have l: "log_lines w' = log_lines w @ [entry_text C ?x]"
    using record_attempt_outcome_effect [OF h assms(3)] by auto
  obtain a b where ab: "scan_inflight C (log_lines w) [] [] = Inr (a, b)" "ids = filter (\<lambda>i. i \<notin> set b) a"
    using assms(4) by (cases "scan_inflight C (log_lines w) [] []") (auto simp: inflight_eval)
  have x: "is_outcome ?x" "entry_id ?x = rid" by (simp_all add: outcome_of_def Let_def)
  then have "scan_inflight C [entry_text C ?x] a b = Inr (a, rid # b)"
    using assms(1) not_blank_entry [OF assms(1), of ?x] by (cases ?x) (simp_all add: entry_text_json codec_ok_def)
  then have "scan_inflight C (log_lines w') [] [] = Inr (a, rid # b)"
    by (simp add: l scan_inflight_append ab(1))
  then show ?thesis by (auto simp: inflight_eval ab(2) intro: filter_cong)
qed

definition ex_reviewed :: "json review_world" where
  "ex_reviewed = snd (record_review ex_codec ''u1'' 7 PolicyAllow ''mail'' ''send'' ''aa'' Approved None ex_world)"

lemmas review_op_defs = record_review_def record_attempt_outcome_def inflight_reviews_def last_entry_hash_def
  append_line_def fs_op_def log_lines_def sm_simps Let_def

lemma ex_reviewed_eq:
  "ex_reviewed = \<lparr>rw_log = Some [entry_json (link_entry ex_codec ''genesis''
      (review_of ''u1'' 7 PolicyAllow ''mail'' ''send'' ''aa'' Approved None))],
     rw_profile = (\<lambda>_. None), rw_io = []\<rparr>"
  by (simp add: ex_reviewed_def ex_world_def review_op_defs entry_line_def entry_json_def review_of_def
      GENESIS_PREV_HASH_def ex_codec_def)

lemma ex_reviewed_ok: "is_ok (verify_review_reader ex_codec (log_lines ex_reviewed))"
proof -
  let ?b = "review_of ''u1'' 7 PolicyAllow ''mail'' ''send'' ''aa'' Approved None"
  have b: "entry_ts ?b \<le> u64_max" by (simp add: review_of_def u64_max_def)
  have "chain_hash ex_codec [] = Some ''genesis''" by (simp add: live_lines_def GENESIS_PREV_HASH_def)
  from chain_hash_append [OF ex_codec_ok b this]
  have "\<exists>h. chain_hash ex_codec ([] @ [entry_text ex_codec (link_entry ex_codec ''genesis'' ?b)]) = Some h" by blast
  moreover have "log_lines ex_reviewed = [] @ [entry_text ex_codec (link_entry ex_codec ''genesis'' ?b)]"
    unfolding ex_reviewed_eq entry_text_json by (simp only: log_lines_def) (simp add: ex_codec_def)
  ultimately show ?thesis unfolding review_inv_chain by (simp only:)
qed

theorem outcome_resolves_exactly_its_review_witness:
  "fst (inflight_reviews ex_codec ex_reviewed) = Inr [''u1''] \<and>
   fst (inflight_reviews ex_codec
     ((snd (record_attempt_outcome ex_codec 8 ''u1'' (Executed True) PolicyAllow ex_reviewed))\<lparr>rw_io := []\<rparr>)) = Inr []"
proof -
  let ?x = "link_entry ex_codec ''genesis'' (review_of ''u1'' 7 PolicyAllow ''mail'' ''send'' ''aa'' Approved None)"
  have x: "entry_id ?x = ''u1''" "\<not> is_outcome ?x" by (simp_all add: review_of_def Let_def)
  have c: "from_str ex_codec = Some" "is_blank ex_codec = (\<lambda>_. False)" by (simp_all add: ex_codec_def)
  have d: "get_str ''decision'' (entry_json ?x) = Some ''approved''" by (simp add: review_of_def Let_def)
  have i: "fst (inflight_reviews ex_codec (ex_reviewed\<lparr>rw_io := []\<rparr>)) = Inr [''u1'']"
    using x d c by (cases ?x) (simp_all add: inflight_eval ex_reviewed_eq log_lines_def)
  let ?r = "record_attempt_outcome ex_codec 8 ''u1'' (Executed True) PolicyAllow ex_reviewed"
  have ok: "?r = (Inr (projr (fst ?r)), snd ?r)"
    using x c by (cases ?x) (simp_all add: review_op_defs ex_reviewed_eq)
  show ?thesis using outcome_resolves_exactly_its_review [OF ex_codec_ok ex_reviewed_ok ok i] i
    by (simp add: ex_reviewed_eq)
qed

text \<open>
  C16. Tamper evidence: take two verified logs, each with at least one entry, that end in the same
  line. If no digest is the word \<^verbatim>\<open>genesis\<close> (a digest is 64 hexadecimal digits), the logs agree on
  every entry, whatever their lengths, unless the two logs contain two different canonical entries
  with the same SHA-256 digest. So nobody who cannot produce a collision can change, insert, drop or
  reorder entries below a known last line.
\<close>

theorem last_line_pins_the_log:
  assumes "is_ok (verify_review_reader C ls)" and "is_ok (verify_review_reader C ls')"
    and "live_lines C ls \<noteq> []" and "live_lines C ls' \<noteq> []"
    and "last (live_lines C ls) = last (live_lines C ls')"
    and "\<forall>x. sha256_hex C x \<noteq> GENESIS_PREV_HASH"
  shows "live_lines C ls = live_lines C ls' \<or>
    (\<exists>l\<in>set (live_lines C ls). \<exists>l'\<in>set (live_lines C ls'). line_msg C l \<noteq> line_msg C l' \<and>
       sha256_hex C (to_text C (line_msg C l)) = sha256_hex C (to_text C (line_msg C l')))"
proof -
  obtain h h' where h: "chain_hash C ls = Some h" "chain_hash C ls' = Some h'"
    using assms(1, 2) by (auto simp: review_inv_chain)
  have "h = h'"
    using rlc.chain_ends_in_digest [OF h(1) assms(3)] rlc.chain_ends_in_digest [OF h(2) assms(4)] assms(5) by simp
  then show ?thesis
    using rlc.tamper_evident_any_length [OF _ h(1)] h(2) assms(6) by blast
qed

theorem last_line_pins_the_log_witness:
  "is_ok (verify_review_reader ex_codec (log_lines ex_reviewed)) \<and>
   live_lines ex_codec (log_lines ex_reviewed) = live_lines ex_codec (log_lines ex_reviewed)"
proof -
  note v = ex_reviewed_ok
  have n: "live_lines ex_codec (log_lines ex_reviewed) \<noteq> []"
    by (simp add: ex_reviewed_eq log_lines_def live_lines_def ex_codec_def)
  have g: "\<forall>x. sha256_hex ex_codec x \<noteq> GENESIS_PREV_HASH" by (simp add: ex_codec_def GENESIS_PREV_HASH_def)
  show ?thesis using last_line_pins_the_log [OF v v n n refl g] v by blast
qed

text \<open>
  Migration: a log whose lines are all chainless entries is rewritten into a log that verifies
  with the same number of entries, and success is reported with that number.
\<close>

lemma rechain_yields_verified_log:
  assumes "codec_ok C" and "rw_io w = []" and "rw_log w = Some ls"
    and "scan_chainless_lines C 1 ls = Inr es" and "es \<noteq> []"
  shows "\<exists>w'. rechain_review_log C w = (Inr (length es), w') \<and>
    verify_review_reader C (log_lines w') = Inr (length es)"
proof -
  have ts: "e \<in> set es \<Longrightarrow> entry_ts e \<le> u64_max" for e using scan_chainless_lines_ts [OF assms(4)] .
  have "verify_review_reader C (assign_chain C GENESIS_PREV_HASH es) = Inr (length es)"
    unfolding verify_review_reader_iff using assign_chain_ok [OF assms(1) ts] by metis
  then show ?thesis using rechain_no_faults [OF assms] by simp
qed

definition ex_chainless :: "json" where
  "ex_chainless = json_obj [(''review_id'', JStr ''u1''), (''ts_ms'', JNum 7), (''actor'', JStr ''policy:deny''),
     (''connector'', JStr ''mail''), (''tool'', JStr ''send''), (''args_hash'', JStr ''aa''),
     (''decision'', JStr ''denied''), (''replaces_attempt'', JNull)]"

lemma ex_chainless_scan:
  "scan_chainless_lines ex_codec 1 [ex_chainless] =
     Inr [review_of ''u1'' 7 (Human ''unidentified'') ''mail'' ''send'' ''aa'' Denied None]"
  by (simp add: ex_chainless_def json_obj_def scan_chainless_line_def REVIEW_DATA_KEYS_def need_str_def
      parse_decision_def get_str_def get_u64_def u64_max_def actor_parse_def review_of_def Let_def
      ex_codec_def)

text \<open>
  A chained log is never rewritten: when at least one entry is present and the log verifies, the
  migration returns an error and leaves every line in place, whatever the file system does.
\<close>

lemma rechain_refuses_chained_log:
  assumes "is_ok (verify_review_reader C (log_lines w))" and "live_lines C (log_lines w) \<noteq> []"
  shows "\<not> is_ok (fst (rechain_review_log C w)) \<and> log_lines (snd (rechain_review_log C w)) = log_lines w"
proof -
  obtain h where h: "chain_hash C (log_lines w) = Some h" using assms(1) by (auto simp: review_inv_chain)
  obtain r w' where r: "scan_chainless_entries C w = (r, w')" by fastforce
  have "r \<noteq> Inr es" for es
    using scan_chainless_entries_effect(2) [OF r, of es] scan_chained_lines [OF _ h] assms(2) by blast
  then obtain e where "r = Inl e" by (cases r) auto
  then show ?thesis using r scan_chainless_entries_effect(1) [OF r] by (simp add: rechain_review_log_def bindS_def)
qed

text \<open>
  Round trip: reading back the JSON the writer prints for an entry gives that entry, for every
  actor, decision and outcome.
\<close>

lemma entry_roundtrip:
  assumes "entry_ts x \<le> u64_max"
  shows "parse_log_entry ln (entry_json x) = Inr x"
  using parse_entry_json [OF assms] .

end
