(* ===== verification/Durable_Runs.thy ===== *)
theory Durable_Runs
  imports Schedule_Leases Action_Reviews
begin

text \<open>
  Model of \<^verbatim>\<open>supercli-core/src/durable_runs.rs\<close>: the crash-safe run journal. A database
  (\<open>runs_db\<close>) holds the tables \<^verbatim>\<open>runs\<close>, \<^verbatim>\<open>run_steps\<close> and \<^verbatim>\<open>run_events\<close> behind one SQL connection, and
  the shared lease database with this worker's lease handle. Text parsed by serde (budgets, plans,
  reconcile hints), the file system and SHA-256 are the parameter \<open>runs_env\<close>. A checkpoint that
  reports busy counts as a failed statement.
\<close>

section \<open>Outcome strings, states and kinds\<close>

definition OUTCOME_EXECUTED_OK :: string where "OUTCOME_EXECUTED_OK = ''executed_ok''"

definition OUTCOME_EXECUTED_FAILED :: string where "OUTCOME_EXECUTED_FAILED = ''executed_failed''"

definition OUTCOME_AMBIGUOUS :: string where "OUTCOME_AMBIGUOUS = ''ambiguous''"

definition OUTCOME_NEVER_RAN :: string where "OUTCOME_NEVER_RAN = ''never_ran''"

definition OUTCOME_STARTED :: string where "OUTCOME_STARTED = ''started''"

lemmas outcome_consts = OUTCOME_EXECUTED_OK_def OUTCOME_EXECUTED_FAILED_def OUTCOME_AMBIGUOUS_def
  OUTCOME_NEVER_RAN_def OUTCOME_STARTED_def

fun outcome_str :: "attempt_outcome \<Rightarrow> string" where
  "outcome_str (Executed success) = (if success then OUTCOME_EXECUTED_OK else OUTCOME_EXECUTED_FAILED)"
| "outcome_str (Ambiguous reason) = OUTCOME_AMBIGUOUS"
| "outcome_str (NeverRan reason) = OUTCOME_NEVER_RAN"

datatype runs_error =
    RunsOpen
  | RunsSql
  | RunsLease
  | NotFound string
  | BudgetExceeded string string
  | InvalidState string

datatype run_state =
  Queued | AwaitingModel | ExecutingTools | AwaitingApproval | Paused | Done | Failed | NeedsReview

fun run_state_str :: "run_state \<Rightarrow> string" where
  "run_state_str Queued = ''QUEUED''"
| "run_state_str AwaitingModel = ''AWAITING_MODEL''"
| "run_state_str ExecutingTools = ''EXECUTING_TOOLS''"
| "run_state_str AwaitingApproval = ''AWAITING_APPROVAL''"
| "run_state_str Paused = ''PAUSED''"
| "run_state_str Done = ''DONE''"
| "run_state_str Failed = ''FAILED''"
| "run_state_str NeedsReview = ''NEEDS_REVIEW''"

definition run_state_parse :: "string \<Rightarrow> run_state option" where
  "run_state_parse s =
     (if s = ''QUEUED'' then Some Queued
      else if s = ''AWAITING_MODEL'' then Some AwaitingModel
      else if s = ''EXECUTING_TOOLS'' then Some ExecutingTools
      else if s = ''AWAITING_APPROVAL'' then Some AwaitingApproval
      else if s = ''PAUSED'' then Some Paused
      else if s = ''DONE'' then Some Done
      else if s = ''FAILED'' then Some Failed
      else if s = ''NEEDS_REVIEW'' then Some NeedsReview
      else None)"

fun is_terminal :: "run_state \<Rightarrow> bool" where
  "is_terminal s = (s = Done \<or> s = Failed)"

datatype step_kind = Model | ReadOnly | Tool | Subagent | FileWrite | IdempotentHttp | OpaqueWrite

fun step_kind_str :: "step_kind \<Rightarrow> string" where
  "step_kind_str Model = ''model''"
| "step_kind_str ReadOnly = ''read''"
| "step_kind_str Tool = ''tool''"
| "step_kind_str Subagent = ''subagent''"
| "step_kind_str FileWrite = ''file_write''"
| "step_kind_str IdempotentHttp = ''idempotent_http''"
| "step_kind_str OpaqueWrite = ''opaque_write''"

definition step_kind_parse :: "string \<Rightarrow> step_kind option" where
  "step_kind_parse s =
     (if s = ''model'' then Some Model
      else if s = ''read'' then Some ReadOnly
      else if s = ''tool'' then Some Tool
      else if s = ''subagent'' then Some Subagent
      else if s = ''file_write'' then Some FileWrite
      else if s = ''idempotent_http'' then Some IdempotentHttp
      else if s = ''opaque_write'' then Some OpaqueWrite
      else None)"

fun counts_as_tool_call :: "step_kind \<Rightarrow> bool" where
  "counts_as_tool_call k = (k \<in> {Tool, FileWrite, IdempotentHttp, OpaqueWrite})"

interpretation rsc: str_codec run_state_str run_state_parse
proof
  show "run_state_parse (run_state_str x) = Some x" for x
    by (cases x) (simp_all add: run_state_parse_def)
  show "run_state_parse s = Some x \<Longrightarrow> run_state_str x = s" for s x
    by (auto simp: run_state_parse_def split: if_splits)
qed

interpretation skc: str_codec step_kind_str step_kind_parse
proof
  show "step_kind_parse (step_kind_str x) = Some x" for x
    by (cases x) (simp_all add: step_kind_parse_def)
  show "step_kind_parse s = Some x \<Longrightarrow> step_kind_str x = s" for s x
    by (auto simp: step_kind_parse_def split: if_splits)
qed

section \<open>Rows\<close>

record reconcile_hint =
  rh_path :: "string option"
  rh_expected_hash :: "string option"
  rh_idempotency_key :: "string option"

record run_row =
  rr_id :: string
  rr_parent_run :: "string option"
  rr_state :: string
  rr_plan :: string
  rr_budgets :: string
  rr_lease_owner :: "string option"
  rr_lease_generation :: int
  rr_lease_expires_at :: int
  rr_created_at_ms :: int
  rr_updated_at_ms :: int

record step_row =
  sr_run_id :: string
  sr_step_no :: int
  sr_attempt :: int
  sr_kind :: string
  sr_input_hash :: string
  sr_output :: "string option"
  sr_outcome :: "string option"
  sr_review_id :: "string option"
  sr_ts_ms :: int
  sr_reconcile_hint :: "string option"

record event_row =
  ev_run_id :: string
  ev_seq :: int
  ev_event_type :: string
  ev_payload :: string
  ev_created_at_ms :: int

text \<open>What the readers return.\<close>

record run =
  ru_id :: string
  ru_parent_run :: "string option"
  ru_state :: run_state
  ru_plan :: string
  ru_budgets :: string
  ru_lease_owner :: "string option"
  ru_lease_generation :: nat
  ru_lease_expires_at :: nat
  ru_created_at_ms :: nat
  ru_updated_at_ms :: nat
  ru_steps_done :: nat
  ru_steps_total :: nat

record step =
  st_run_id :: string
  st_step_no :: nat
  st_kind :: step_kind
  st_input_hash :: string
  st_output :: "string option"
  st_outcome :: "string option"
  st_attempt :: nat
  st_review_id :: "string option"
  st_ts_ms :: nat
  st_reconcile_hint :: "string option"

definition is_complete :: "step \<Rightarrow> bool" where
  "is_complete s = (case st_outcome s of None \<Rightarrow> False | Some o' \<Rightarrow> o' \<noteq> OUTCOME_STARTED)"

record step_intent =
  in_run_id :: string
  in_step_no :: nat
  in_attempt :: nat
  in_kind :: step_kind
  in_input_hash :: string
  in_reconcile_hint :: "string option"

record resume_plan =
  rp_run_id :: string
  rp_completed :: "step list"
  rp_first_incomplete_step_no :: "nat option"
  rp_needs_review_step_no :: "nat option"

record run_claim =
  rc_generation :: nat
  rc_took_over :: bool

record budgets =
  bu_max_steps :: "nat option"
  bu_max_tool_calls :: "nat option"
  bu_max_ms :: "nat option"
  bu_max_cost_cents :: "nat option"

record runs_env =
  env_from_str :: "string \<Rightarrow> json option"
  env_to_string :: "json \<Rightarrow> string"
  env_hint :: "string \<Rightarrow> reconcile_hint option"
  env_read :: "string \<Rightarrow> string option"
  env_sha256_hex :: "string \<Rightarrow> string"

definition budgets_parse :: "runs_env \<Rightarrow> string \<Rightarrow> budgets" where
  "budgets_parse E text =
     (let v = (case env_from_str E text of None \<Rightarrow> JNull | Some v \<Rightarrow> v) in
      \<lparr>bu_max_steps = get_u64 ''max_steps'' v, bu_max_tool_calls = get_u64 ''max_tool_calls'' v,
       bu_max_ms = get_u64 ''max_ms'' v, bu_max_cost_cents = get_u64 ''max_cost_cents'' v\<rparr>)"

record runs_db = sql_conn +
  rdb_runs :: "run_row list"
  rdb_steps :: "step_row list"
  rdb_events :: "event_row list"
  rdb_leases :: lease_db
  rdb_worker :: schedule_leases
  rdb_poisoned :: bool

section \<open>Reconciling an orphaned intent\<close>

datatype reconcile_verdict = VRerun | VAlreadyComplete string | VNeedsReview

datatype file_probe = Completed | Incomplete | NoProbe

definition probe_file_write :: "runs_env \<Rightarrow> string option \<Rightarrow> file_probe" where
  "probe_file_write E hint_json =
     (case Option.bind hint_json (env_hint E) of
        None \<Rightarrow> NoProbe
      | Some h \<Rightarrow>
          (case (rh_path h, rh_expected_hash h) of
             (Some p, Some e) \<Rightarrow>
               (case env_read E p of
                  Some bytes \<Rightarrow> if env_sha256_hex E bytes = e then Completed else Incomplete
                | None \<Rightarrow> Incomplete)
           | _ \<Rightarrow> NoProbe))"

definition reconcile_orphan :: "runs_env \<Rightarrow> step_intent \<Rightarrow> reconcile_verdict" where
  "reconcile_orphan E i =
     (case in_kind i of
        Model \<Rightarrow> VRerun
      | ReadOnly \<Rightarrow> VRerun
      | FileWrite \<Rightarrow>
          (case probe_file_write E (in_reconcile_hint i) of
             Completed \<Rightarrow>
               (let hash = (case Option.bind (Option.bind (in_reconcile_hint i) (env_hint E)) rh_expected_hash of
                              None \<Rightarrow> '''' | Some h \<Rightarrow> h) in
                VAlreadyComplete
                  ([CHR 0x7B, CHR 0x22] @ ''reconciled'' @ [CHR 0x22, CHR 0x3A, CHR 0x22] @ ''probe_match'' @
                   [CHR 0x22, CHR 0x2C, CHR 0x22] @ ''hash'' @ [CHR 0x22, CHR 0x3A, CHR 0x22] @ hash @
                   [CHR 0x22, CHR 0x7D]))
           | Incomplete \<Rightarrow> VRerun
           | NoProbe \<Rightarrow> VNeedsReview)
      | IdempotentHttp \<Rightarrow>
          (case Option.bind (Option.bind (in_reconcile_hint i) (env_hint E)) rh_idempotency_key of
             Some key \<Rightarrow> VRerun
           | None \<Rightarrow> VNeedsReview)
      | OpaqueWrite \<Rightarrow> VNeedsReview
      | Tool \<Rightarrow> VNeedsReview
      | Subagent \<Rightarrow> VNeedsReview)"

text \<open>The reason texts are not kept: \<open>classify_orphan\<close> carries the empty reason.\<close>

definition classify_orphan :: "runs_env \<Rightarrow> step_intent \<Rightarrow> attempt_outcome" where
  "classify_orphan E i =
     (case reconcile_orphan E i of
        VRerun \<Rightarrow> NeverRan ''''
      | VAlreadyComplete output \<Rightarrow> Executed True
      | VNeedsReview \<Rightarrow> Ambiguous '''')"

section \<open>Statements\<close>

definition runs_stmt :: "(runs_db, runs_error, int) sm" where
  "runs_stmt = map_errS (\<lambda>_. RunsSql) sql_stmt"

definition step_key :: "step_row \<Rightarrow> string \<times> int \<times> int" where
  "step_key r = (sr_run_id r, sr_step_no r, sr_attempt r)"

definition event_key :: "event_row \<Rightarrow> string \<times> int" where
  "event_key r = (ev_run_id r, ev_seq r)"

text \<open>\<^verbatim>\<open>INSERT\<close> refuses a row whose primary key is taken.\<close>

definition insert_step :: "step_row \<Rightarrow> (runs_db, runs_error, unit) sm" where
  "insert_step r =
     bindS (getS (\<lambda>db. step_key r \<in> set (map step_key (rdb_steps db)))) (\<lambda>taken.
     if taken then throwS RunsSql
     else modifyS (\<lambda>db. db\<lparr>rdb_steps := rdb_steps db @ [r]\<rparr>))"

definition attempts_of :: "runs_db \<Rightarrow> string \<Rightarrow> int \<Rightarrow> int list" where
  "attempts_of db rid sno =
     map sr_attempt (filter (\<lambda>r. sr_run_id r = rid \<and> sr_step_no r = sno) (rdb_steps db))"

text \<open>\<^verbatim>\<open>COALESCE(MAX(x), -1) + 1\<close>.\<close>

definition coalesce_max_next :: "int list \<Rightarrow> int" where
  "coalesce_max_next xs = (if xs = [] then 0 else foldr max (tl xs) (hd xs) + 1)"

definition touch_run :: "string \<Rightarrow> (runs_db, runs_error, unit) sm" where
  "touch_run rid =
     bindS runs_stmt (\<lambda>now.
     modifyS (\<lambda>db. db\<lparr>rdb_runs := row_update (\<lambda>r. rr_id r = rid) (\<lambda>r. r\<lparr>rr_updated_at_ms := now\<rparr>) (rdb_runs db)\<rparr>))"

definition fsync_db :: "(runs_db, runs_error, unit) sm" where
  "fsync_db = bindS runs_stmt (\<lambda>_. retS ())"

text \<open>A row is the latest of its step when no row of the same run and step has a higher attempt.\<close>

definition is_latest :: "step_row list \<Rightarrow> step_row \<Rightarrow> bool" where
  "is_latest rows r =
     (\<forall>q\<in>set rows. sr_run_id q = sr_run_id r \<and> sr_step_no q = sr_step_no r \<longrightarrow> sr_attempt q \<le> sr_attempt r)"

definition latest_rows :: "runs_db \<Rightarrow> string \<Rightarrow> step_row list" where
  "latest_rows db rid =
     sort_key sr_step_no (filter (\<lambda>r. sr_run_id r = rid \<and> is_latest (rdb_steps db) r) (rdb_steps db))"

definition kind_of_text :: "string \<Rightarrow> step_kind" where
  "kind_of_text s = (case step_kind_parse s of None \<Rightarrow> Tool | Some k \<Rightarrow> k)"

definition step_of_row :: "step_row \<Rightarrow> step" where
  "step_of_row r =
     \<lparr>st_run_id = sr_run_id r, st_step_no = nat (sr_step_no r), st_kind = kind_of_text (sr_kind r),
      st_input_hash = sr_input_hash r, st_output = sr_output r, st_outcome = sr_outcome r,
      st_attempt = nat (sr_attempt r), st_review_id = sr_review_id r, st_ts_ms = nat (sr_ts_ms r),
      st_reconcile_hint = sr_reconcile_hint r\<rparr>"

definition intent_of_row :: "step_row \<Rightarrow> step_intent" where
  "intent_of_row r =
     \<lparr>in_run_id = sr_run_id r, in_step_no = nat (sr_step_no r), in_attempt = nat (sr_attempt r),
      in_kind = kind_of_text (sr_kind r), in_input_hash = sr_input_hash r,
      in_reconcile_hint = sr_reconcile_hint r\<rparr>"

definition latest_steps :: "string \<Rightarrow> (runs_db, runs_error, step list) sm" where
  "latest_steps rid = bindS runs_stmt (\<lambda>_. getS (\<lambda>db. map step_of_row (latest_rows db rid)))"

definition find_orphaned_intents :: "string \<Rightarrow> (runs_db, runs_error, step_intent list) sm" where
  "find_orphaned_intents rid =
     bindS runs_stmt (\<lambda>_.
     getS (\<lambda>db. map intent_of_row (filter (\<lambda>r. sr_outcome r = Some ''started'') (latest_rows db rid))))"

record step_attempt =
  sa_attempt :: nat
  sa_kind :: step_kind
  sa_input_hash :: string
  sa_output :: "string option"
  sa_outcome :: "string option"

definition step_attempts :: "string \<Rightarrow> nat \<Rightarrow> (runs_db, runs_error, step_attempt list) sm" where
  "step_attempts rid sno =
     bindS runs_stmt (\<lambda>_.
     getS (\<lambda>db. map
       (\<lambda>r. \<lparr>sa_attempt = nat (sr_attempt r), sa_kind = kind_of_text (sr_kind r), sa_input_hash = sr_input_hash r,
              sa_output = sr_output r, sa_outcome = sr_outcome r\<rparr>)
       (sort_key sr_attempt (filter (\<lambda>r. sr_run_id r = rid \<and> sr_step_no r = as_i64 sno) (rdb_steps db)))))"

section \<open>Reading runs\<close>

definition decided :: "step_row \<Rightarrow> bool" where
  "decided r = (sr_outcome r \<noteq> None \<and> sr_outcome r \<noteq> Some ''started'')"

definition step_progress :: "string \<Rightarrow> (runs_db, runs_error, nat \<times> nat) sm" where
  "step_progress rid =
     bindS runs_stmt (\<lambda>_.
     bindS (getS (\<lambda>db. length (filter decided (latest_rows db rid)))) (\<lambda>done_count.
     bindS (unwrap_orS (bindS runs_stmt (\<lambda>_.
       getS (\<lambda>db. coalesce_max_next (map sr_step_no (filter (\<lambda>r. sr_run_id r = rid) (rdb_steps db)))))) 0) (\<lambda>total.
     retS (done_count, nat total))))"

definition row_to_run :: "run_row \<Rightarrow> run" where
  "row_to_run r =
     \<lparr>ru_id = rr_id r, ru_parent_run = rr_parent_run r,
      ru_state = (case run_state_parse (rr_state r) of None \<Rightarrow> Queued | Some s \<Rightarrow> s),
      ru_plan = rr_plan r, ru_budgets = rr_budgets r, ru_lease_owner = rr_lease_owner r,
      ru_lease_generation = nat (rr_lease_generation r), ru_lease_expires_at = nat (rr_lease_expires_at r),
      ru_created_at_ms = nat (rr_created_at_ms r), ru_updated_at_ms = nat (rr_updated_at_ms r),
      ru_steps_done = 0, ru_steps_total = 0\<rparr>"

definition with_progress :: "run \<Rightarrow> (runs_db, runs_error, run) sm" where
  "with_progress r =
     bindS (unwrap_orS (step_progress (ru_id r)) (0, 0)) (\<lambda>(d, t).
     retS (r\<lparr>ru_steps_done := d, ru_steps_total := t\<rparr>))"

definition get_run :: "string \<Rightarrow> (runs_db, runs_error, run) sm" where
  "get_run rid =
     bindS runs_stmt (\<lambda>_.
     bindS (getS (\<lambda>db. row_at rr_id (rdb_runs db) rid)) (\<lambda>row.
     case row of
       None \<Rightarrow> throwS (NotFound rid)
     | Some r \<Rightarrow> with_progress (row_to_run r)))"

fun mapS :: "('a \<Rightarrow> ('s, 'e, 'b) sm) \<Rightarrow> 'a list \<Rightarrow> ('s, 'e, 'b list) sm" where
  "mapS f [] = retS []"
| "mapS f (x # xs) = bindS (f x) (\<lambda>y. bindS (mapS f xs) (\<lambda>ys. retS (y # ys)))"

definition list_runs :: "string option \<Rightarrow> (runs_db, runs_error, run list) sm" where
  "list_runs state_filter =
     bindS runs_stmt (\<lambda>_.
     bindS (getS (\<lambda>db. map row_to_run (sort_key (\<lambda>r. - rr_created_at_ms r)
       (filter (\<lambda>r. case state_filter of None \<Rightarrow> True | Some f \<Rightarrow> rr_state r = f) (rdb_runs db))))) (\<lambda>rows.
     mapS with_progress rows))"

definition list_children :: "string \<Rightarrow> (runs_db, runs_error, run list) sm" where
  "list_children parent =
     bindS runs_stmt (\<lambda>_.
     getS (\<lambda>db. map row_to_run (sort_key rr_created_at_ms
       (filter (\<lambda>r. rr_parent_run r = Some parent) (rdb_runs db)))))"

section \<open>State transitions\<close>

definition transition :: "string \<Rightarrow> run_state \<Rightarrow> run_state \<Rightarrow> (runs_db, runs_error, bool) sm" where
  "transition rid from to =
     bindS runs_stmt (\<lambda>now.
     let hit = (\<lambda>r. rr_id r = rid \<and> rr_state r = run_state_str from) in
     bindS (getS (\<lambda>db. row_count hit (rdb_runs db))) (\<lambda>changed.
     bindS (modifyS (\<lambda>db. db\<lparr>rdb_runs := row_update hit
       (\<lambda>r. r\<lparr>rr_state := run_state_str to, rr_updated_at_ms := now\<rparr>) (rdb_runs db)\<rparr>)) (\<lambda>_.
     retS (changed = 1))))"

definition mark_needs_review :: "string \<Rightarrow> (runs_db, runs_error, bool) sm" where
  "mark_needs_review rid =
     bindS runs_stmt (\<lambda>now.
     let hit = (\<lambda>r. rr_id r = rid \<and> rr_state r \<notin> set [''DONE'', ''FAILED'', ''NEEDS_REVIEW'']) in
     bindS (getS (\<lambda>db. row_count hit (rdb_runs db))) (\<lambda>changed.
     bindS (modifyS (\<lambda>db. db\<lparr>rdb_runs := row_update hit
       (\<lambda>r. r\<lparr>rr_state := ''NEEDS_REVIEW'', rr_updated_at_ms := now\<rparr>) (rdb_runs db)\<rparr>)) (\<lambda>_.
     retS (changed = 1))))"

definition patch_plan :: "runs_env \<Rightarrow> string \<Rightarrow> string \<Rightarrow> string \<Rightarrow> (runs_db, runs_error, unit) sm" where
  "patch_plan E rid k v =
     bindS (get_run rid) (\<lambda>r.
     case env_from_str E (ru_plan r) of
       Some (JObj m) \<Rightarrow>
         let plan = env_to_string E (JObj (obj_insert k (JStr v) m)) in
         bindS runs_stmt (\<lambda>_.
         modifyS (\<lambda>db. db\<lparr>rdb_runs := row_update (\<lambda>r. rr_id r = rid) (\<lambda>r. r\<lparr>rr_plan := plan\<rparr>) (rdb_runs db)\<rparr>))
     | _ \<Rightarrow> retS ())"

definition pause_run :: "runs_env \<Rightarrow> string \<Rightarrow> (runs_db, runs_error, bool) sm" where
  "pause_run E rid =
     bindS (get_run rid) (\<lambda>r.
     let from = ru_state r in
     if from \<in> {Paused, Done, Failed} then retS False
     else bindS (transition rid from Paused) (\<lambda>won.
       if won then bindS (patch_plan E rid ''paused_from'' (run_state_str from)) (\<lambda>_. retS True)
       else retS False))"

definition cancel_run :: "runs_env \<Rightarrow> string \<Rightarrow> (runs_db, runs_error, bool) sm" where
  "cancel_run E rid =
     bindS (get_run rid) (\<lambda>r.
     let from = ru_state r in
     if is_terminal from then retS False
     else bindS (transition rid from Failed) (\<lambda>won.
       if won then bindS (patch_plan E rid ''cancelled'' ''true'') (\<lambda>_. retS True)
       else retS False))"

definition retry_run :: "string \<Rightarrow> (runs_db, runs_error, bool) sm" where
  "retry_run rid =
     bindS (get_run rid) (\<lambda>r.
     if ru_state r \<in> {Failed, NeedsReview} then transition rid (ru_state r) Queued
     else retS False)"

section \<open>Budgets\<close>

text \<open>The two counting queries: decided latest steps, and side-effecting latest steps that did work.\<close>

definition steps_used :: "runs_db \<Rightarrow> string \<Rightarrow> nat" where
  "steps_used db rid = length (filter decided (latest_rows db rid))"

definition tool_kinds :: "string list" where
  "tool_kinds = [''tool'', ''file_write'', ''idempotent_http'', ''opaque_write'']"

definition tool_calls_used :: "runs_db \<Rightarrow> string \<Rightarrow> nat" where
  "tool_calls_used db rid =
     length (filter (\<lambda>r. sr_run_id r = rid \<and> sr_kind r \<in> set tool_kinds \<and>
         is_latest (filter (\<lambda>q. sr_kind q \<in> set tool_kinds) (rdb_steps db)) r \<and>
         (sr_outcome r = Some ''executed_ok'' \<or> sr_outcome r = Some ''executed_failed'' \<or>
          sr_outcome r = Some ''ambiguous''))
       (rdb_steps db))"

text \<open>The common tail of the three checks: fail the run (errors ignored) and report the budget.\<close>

definition budget_exceeded :: "string \<Rightarrow> run_state \<Rightarrow> string \<Rightarrow> (runs_db, runs_error, unit) sm" where
  "budget_exceeded rid from budget =
     bindS (okS (transition rid from Failed)) (\<lambda>_. throwS (BudgetExceeded rid budget))"

definition tool_budget :: "budgets \<Rightarrow> bool \<Rightarrow> string \<Rightarrow> run_state \<Rightarrow> (runs_db, runs_error, unit) sm" where
  "tool_budget b counts_as_call rid state =
     (case bu_max_tool_calls b of
        Some m \<Rightarrow>
          if counts_as_call then
            bindS runs_stmt (\<lambda>_.
            bindS (getS (\<lambda>db. tool_calls_used db rid)) (\<lambda>used.
            if used + 1 > m then budget_exceeded rid state ''max_tool_calls'' else retS ()))
          else retS ()
      | None \<Rightarrow> retS ())"

definition step_budget :: "budgets \<Rightarrow> string \<Rightarrow> run_state \<Rightarrow> (runs_db, runs_error, unit) sm" where
  "step_budget b rid state =
     (case bu_max_steps b of
        Some m \<Rightarrow>
          bindS runs_stmt (\<lambda>_.
          bindS (getS (\<lambda>db. steps_used db rid)) (\<lambda>used.
          if used + 1 > m then budget_exceeded rid state ''max_steps'' else retS ()))
      | None \<Rightarrow> retS ())"

definition time_budget :: "budgets \<Rightarrow> string \<Rightarrow> run_state \<Rightarrow> nat \<Rightarrow> (runs_db, runs_error, unit) sm" where
  "time_budget b rid state created_at_ms =
     (case bu_max_ms b of
        Some m \<Rightarrow>
          bindS runs_stmt (\<lambda>now.
          let elapsed = nat (now - as_i64 created_at_ms) in
          if elapsed > m then budget_exceeded rid state ''max_ms'' else retS ())
      | None \<Rightarrow> retS ())"

definition check_budgets :: "runs_env \<Rightarrow> string \<Rightarrow> step_kind \<Rightarrow> string \<Rightarrow> (runs_db, runs_error, unit) sm" where
  "check_budgets E rid kind outcome =
     bindS (get_run rid) (\<lambda>r.
     let b = budgets_parse E (ru_budgets r);
         counts_as_call = (counts_as_tool_call kind \<and>
           outcome \<in> set [''executed_ok'', ''executed_failed'', ''ambiguous'']) in
     bindS (tool_budget b counts_as_call rid (ru_state r)) (\<lambda>_.
     bindS (step_budget b rid (ru_state r)) (\<lambda>_.
     time_budget b rid (ru_state r) (ru_created_at_ms r))))"

section \<open>Writing the journal\<close>

text \<open>\<open>uuid\<close> is the simple form of the fresh UUID.\<close>

definition create_run :: "string \<Rightarrow> string option \<Rightarrow> string \<Rightarrow> string \<Rightarrow> (runs_db, runs_error, string) sm" where
  "create_run uuid parent plan bud =
     (let rid = ''run_'' @ uuid in
      bindS runs_stmt (\<lambda>now.
      bindS (getS (\<lambda>db. rid \<in> set (map rr_id (rdb_runs db)))) (\<lambda>taken.
      if taken then throwS RunsSql
      else bindS (modifyS (\<lambda>db. db\<lparr>rdb_runs := rdb_runs db @
          [\<lparr>rr_id = rid, rr_parent_run = parent, rr_state = ''QUEUED'', rr_plan = plan, rr_budgets = bud,
            rr_lease_owner = None, rr_lease_generation = 0, rr_lease_expires_at = 0,
            rr_created_at_ms = now, rr_updated_at_ms = now\<rparr>]\<rparr>)) (\<lambda>_.
        retS rid))))"

definition next_attempt :: "string \<Rightarrow> nat \<Rightarrow> (runs_db, runs_error, int) sm" where
  "next_attempt rid sno =
     unwrap_orS (bindS runs_stmt (\<lambda>_. getS (\<lambda>db. coalesce_max_next (attempts_of db rid (as_i64 sno))))) 0"

definition append_step ::
  "runs_env \<Rightarrow> string \<Rightarrow> nat \<Rightarrow> step_kind \<Rightarrow> string \<Rightarrow> string option \<Rightarrow> attempt_outcome option
     \<Rightarrow> (runs_db, runs_error, unit) sm" where
  "append_step E rid sno kind input_hash output outcome =
     (let os = map_option outcome_str outcome in
      bindS (case os of Some s \<Rightarrow> check_budgets E rid kind s | None \<Rightarrow> retS ()) (\<lambda>_.
      bindS (next_attempt rid sno) (\<lambda>attempt.
      bindS runs_stmt (\<lambda>now.
      bindS (insert_step \<lparr>sr_run_id = rid, sr_step_no = as_i64 sno, sr_attempt = attempt,
        sr_kind = step_kind_str kind, sr_input_hash = input_hash, sr_output = output, sr_outcome = os,
        sr_review_id = None, sr_ts_ms = now, sr_reconcile_hint = None\<rparr>) (\<lambda>_.
      touch_run rid)))))"

definition begin_step_with_hint ::
  "string \<Rightarrow> nat \<Rightarrow> step_kind \<Rightarrow> string \<Rightarrow> string option \<Rightarrow> (runs_db, runs_error, step_intent) sm" where
  "begin_step_with_hint rid sno kind input_hash hint =
     bindS (next_attempt rid sno) (\<lambda>attempt.
     bindS runs_stmt (\<lambda>now.
     bindS (insert_step \<lparr>sr_run_id = rid, sr_step_no = as_i64 sno, sr_attempt = attempt,
       sr_kind = step_kind_str kind, sr_input_hash = input_hash, sr_output = None,
       sr_outcome = Some OUTCOME_STARTED, sr_review_id = None, sr_ts_ms = now, sr_reconcile_hint = hint\<rparr>) (\<lambda>_.
     bindS fsync_db (\<lambda>_.
     bindS (touch_run rid) (\<lambda>_.
     retS \<lparr>in_run_id = rid, in_step_no = sno, in_attempt = nat attempt, in_kind = kind,
       in_input_hash = input_hash, in_reconcile_hint = hint\<rparr>)))))"

definition begin_step :: "string \<Rightarrow> nat \<Rightarrow> step_kind \<Rightarrow> string \<Rightarrow> (runs_db, runs_error, step_intent) sm" where
  "begin_step rid sno kind input_hash = begin_step_with_hint rid sno kind input_hash None"

definition complete_step ::
  "runs_env \<Rightarrow> step_intent \<Rightarrow> attempt_outcome \<Rightarrow> string option \<Rightarrow> (runs_db, runs_error, unit) sm" where
  "complete_step E i outcome output =
     bindS (check_budgets E (in_run_id i) (in_kind i) (outcome_str outcome)) (\<lambda>_.
     bindS runs_stmt (\<lambda>now.
     bindS (insert_step \<lparr>sr_run_id = in_run_id i, sr_step_no = as_i64 (in_step_no i),
       sr_attempt = as_i64 (in_attempt i) + 1, sr_kind = step_kind_str (in_kind i),
       sr_input_hash = in_input_hash i, sr_output = output, sr_outcome = Some (outcome_str outcome),
       sr_review_id = None, sr_ts_ms = now, sr_reconcile_hint = in_reconcile_hint i\<rparr>) (\<lambda>_.
     bindS fsync_db (\<lambda>_.
     touch_run (in_run_id i)))))"

definition link_review :: "string \<Rightarrow> nat \<Rightarrow> string \<Rightarrow> (runs_db, runs_error, unit) sm" where
  "link_review rid sno review_id =
     bindS runs_stmt (\<lambda>_.
     modifyS (\<lambda>db. db\<lparr>rdb_steps := row_update
       (\<lambda>r. sr_run_id r = rid \<and> sr_step_no r = as_i64 sno \<and> is_latest (rdb_steps db) r)
       (\<lambda>r. r\<lparr>sr_review_id := Some review_id\<rparr>) (rdb_steps db)\<rparr>))"

definition append_event :: "string \<Rightarrow> string \<Rightarrow> string \<Rightarrow> (runs_db, runs_error, unit) sm" where
  "append_event rid event_type payload =
     bindS (unwrap_orS (bindS runs_stmt (\<lambda>_.
       getS (\<lambda>db. coalesce_max_next (map ev_seq (filter (\<lambda>e. ev_run_id e = rid) (rdb_events db)))))) 0) (\<lambda>seq.
     bindS runs_stmt (\<lambda>now.
     bindS (getS (\<lambda>db. (rid, seq) \<in> set (map event_key (rdb_events db)))) (\<lambda>taken.
     if taken then throwS RunsSql
     else modifyS (\<lambda>db. db\<lparr>rdb_events := rdb_events db @
       [\<lparr>ev_run_id = rid, ev_seq = seq, ev_event_type = event_type, ev_payload = payload,
         ev_created_at_ms = now\<rparr>]\<rparr>))))"

definition read_events :: "string \<Rightarrow> (runs_db, runs_error, event_row list) sm" where
  "read_events rid =
     bindS runs_stmt (\<lambda>_.
     getS (\<lambda>db. sort_key ev_seq (filter (\<lambda>e. ev_run_id e = rid) (rdb_events db))))"

section \<open>Resuming\<close>

definition intent_of_step :: "step \<Rightarrow> step_intent" where
  "intent_of_step s =
     \<lparr>in_run_id = st_run_id s, in_step_no = st_step_no s, in_attempt = st_attempt s, in_kind = st_kind s,
      in_input_hash = st_input_hash s, in_reconcile_hint = st_reconcile_hint s\<rparr>"

text \<open>
  The loop of \<open>resume_run\<close>: the completed steps so far and the expected step number go in; the
  completed steps, the first step to execute and the step to review come out. \<open>break\<close> is the end of
  the recursion; leaving the loop with neither set continues at the expected number.
\<close>

fun resume_scan ::
  "runs_env \<Rightarrow> step list \<Rightarrow> step list \<Rightarrow> nat \<Rightarrow> (runs_db, runs_error, step list \<times> nat option \<times> nat option) sm" where
  "resume_scan E [] completed expected = retS (completed, Some expected, None)"
| "resume_scan E (s # ss) completed expected =
     (if st_step_no s \<noteq> expected then retS (completed, Some expected, None)
      else if st_outcome s = Some ''executed_ok'' \<or> st_outcome s = Some ''executed_failed''
      then resume_scan E ss (completed @ [s]) (expected + 1)
      else if st_outcome s = Some ''ambiguous'' then retS (completed, None, Some expected)
      else if st_outcome s = Some ''started'' then
        (case reconcile_orphan E (intent_of_step s) of
           VRerun \<Rightarrow> retS (completed, Some expected, None)
         | VAlreadyComplete output \<Rightarrow>
             bindS (complete_step E (intent_of_step s) (Executed True) (Some output)) (\<lambda>_.
             resume_scan E ss
               (completed @ [s\<lparr>st_outcome := Some OUTCOME_EXECUTED_OK, st_output := Some output,
                               st_attempt := st_attempt s + 1\<rparr>]) (expected + 1))
         | VNeedsReview \<Rightarrow> retS (completed, None, Some expected))
      else retS (completed, Some expected, None))"

definition resume_run :: "runs_env \<Rightarrow> string \<Rightarrow> (runs_db, runs_error, resume_plan) sm" where
  "resume_run E rid =
     bindS (latest_steps rid) (\<lambda>steps.
     bindS (resume_scan E steps [] 0) (\<lambda>(completed, first_incomplete, needs_review).
     bindS (if needs_review \<noteq> None then bindS (mark_needs_review rid) (\<lambda>_. retS ()) else retS ()) (\<lambda>_.
     retS \<lparr>rp_run_id = rid, rp_completed = completed, rp_first_incomplete_step_no = first_incomplete,
            rp_needs_review_step_no = needs_review\<rparr>)))"

section \<open>Run leases\<close>

definition RUN_LEASE_TENANT :: string where
  "RUN_LEASE_TENANT = ''default''"

text \<open>An operation of the shared lease store, behind its mutex.\<close>

definition with_leases ::
  "(schedule_leases \<Rightarrow> (lease_db, lease_error, 'a) sm) \<Rightarrow> (runs_db, runs_error, 'a) sm" where
  "with_leases f db =
     (if rdb_poisoned db then (Inl RunsLease, db)
      else (case f (rdb_worker db) (rdb_leases db) of
          (Inl _, l) \<Rightarrow> (Inl RunsLease, db\<lparr>rdb_leases := l\<rparr>)
        | (Inr x, l) \<Rightarrow> (Inr x, db\<lparr>rdb_leases := l\<rparr>)))"

definition worker_id :: "runs_db \<Rightarrow> string" where
  "worker_id db = (if rdb_poisoned db then ''unknown'' else sl_owner (rdb_worker db))"

definition claim_run :: "string \<Rightarrow> (runs_db, runs_error, run_claim option) sm" where
  "claim_run rid =
     bindS (get_run rid) (\<lambda>_.
     bindS (with_leases (\<lambda>w. claim w rid)) (\<lambda>info.
     case info of
       None \<Rightarrow> retS None
     | Some ci \<Rightarrow>
         bindS (with_leases (\<lambda>w. lease_row_of w rid)) (\<lambda>row.
         let expires_at = (case row of None \<Rightarrow> 0 | Some v \<Rightarrow> lv_expires_at_ms v) in
         bindS runs_stmt (\<lambda>now.
         bindS (modifyS (\<lambda>db. db\<lparr>rdb_runs := row_update (\<lambda>r. rr_id r = rid)
           (\<lambda>r. r\<lparr>rr_lease_owner := Some (worker_id db), rr_lease_generation := as_i64 (ci_generation ci),
                  rr_lease_expires_at := as_i64 expires_at, rr_updated_at_ms := now\<rparr>) (rdb_runs db)\<rparr>)) (\<lambda>_.
         retS (Some \<lparr>rc_generation = ci_generation ci, rc_took_over = (ci_took_over ci \<noteq> None)\<rparr>))))))"

definition renew_run :: "string \<Rightarrow> (runs_db, runs_error, bool) sm" where
  "renew_run rid = with_leases (\<lambda>w. renew w rid)"

definition release_run :: "string \<Rightarrow> (runs_db, runs_error, unit) sm" where
  "release_run rid = with_leases (\<lambda>w. release w rid)"

definition step_input_hash :: "runs_env \<Rightarrow> string \<Rightarrow> string" where
  "step_input_hash E canonical_input = env_sha256_hex E canonical_input"

section \<open>What each operation leaves alone\<close>

definition same_steps :: "step_row list \<Rightarrow> runs_db \<Rightarrow> bool" where
  "same_steps rows db = (rdb_steps db = rows)"

lemma same_steps_simps [simp]:
  "same_steps rows (db\<lparr>sc_script := sc, sc_now := t\<rparr>) = same_steps rows db"
  "same_steps rows (db\<lparr>rdb_runs := rs\<rparr>) = same_steps rows db"
  "same_steps rows (db\<lparr>rdb_events := es\<rparr>) = same_steps rows db"
  "same_steps rows (db\<lparr>rdb_leases := l\<rparr>) = same_steps rows db"
  by (simp_all add: same_steps_def)

lemma runs_stmt_steps [preserves_intros]: "preserves (same_steps rows) runs_stmt"
  unfolding runs_stmt_def by (intro preserves_intros) simp

lemma preserves_mapS [preserves_intros]: "(\<And>x. preserves I (f x)) \<Longrightarrow> preserves I (mapS f xs)"
  by (induction xs) (auto intro!: preserves_intros)

lemma touch_run_steps [preserves_intros]: "preserves (same_steps rows) (touch_run rid)"
  unfolding touch_run_def by (intro preserves_intros) simp

lemma fsync_db_steps [preserves_intros]: "preserves (same_steps rows) fsync_db"
  unfolding fsync_db_def by (intro preserves_intros)

lemma get_run_steps [preserves_intros]: "preserves (same_steps rows) (get_run rid)"
  unfolding get_run_def with_progress_def step_progress_def by (intro preserves_intros)

lemma transition_steps [preserves_intros]: "preserves (same_steps rows) (transition rid a b)"
  unfolding transition_def by (intro preserves_intros) simp

lemma mark_needs_review_steps [preserves_intros]: "preserves (same_steps rows) (mark_needs_review rid)"
  unfolding mark_needs_review_def by (intro preserves_intros) simp

lemma check_budgets_steps [preserves_intros]: "preserves (same_steps rows) (check_budgets E rid k oc)"
  unfolding check_budgets_def tool_budget_def step_budget_def time_budget_def budget_exceeded_def
  by (intro preserves_intros)

lemma next_attempt_steps [preserves_intros]: "preserves (same_steps rows) (next_attempt rid sno)"
  unfolding next_attempt_def by (intro preserves_intros)

lemma steps_unchanged: "preserves (same_steps (rdb_steps db)) m \<Longrightarrow> m db = (r, db') \<Longrightarrow> rdb_steps db' = rdb_steps db"
  using preservesD [of "same_steps (rdb_steps db)" m db r db'] by (simp add: same_steps_def)

section \<open>The journal: attempts and latest rows\<close>

text \<open>
  A well-formed journal: the primary key holds, attempts of a step start at 0 and have no holes, no
  step number is negative.
\<close>

definition journal_ok :: "step_row list \<Rightarrow> bool" where
  "journal_ok rows =
     (pk_ok step_key rows \<and>
      (\<forall>r\<in>set rows. 0 \<le> sr_attempt r \<and> 0 \<le> sr_step_no r \<and>
         (\<forall>a. 0 \<le> a \<and> a < sr_attempt r \<longrightarrow> (sr_run_id r, sr_step_no r, a) \<in> step_key ` set rows)))"

definition latest_of :: "step_row list \<Rightarrow> string \<Rightarrow> int \<Rightarrow> step_row option" where
  "latest_of rows rid sno =
     List.find (\<lambda>r. sr_run_id r = rid \<and> sr_step_no r = sno \<and> is_latest rows r) rows"

lemma foldr_max_in: "foldr max xs (h :: int) \<in> insert h (set xs)"
  by (induction xs) (auto simp: max_def)

lemma foldr_max_ge: "x \<in> insert h (set xs) \<Longrightarrow> x \<le> foldr max xs (h :: int)"
  by (induction xs) (auto simp: le_max_iff_disj)

lemma coalesce_max_next_gt: "x \<in> set xs \<Longrightarrow> x < coalesce_max_next xs"
  using foldr_max_ge [of x "hd xs" "tl xs"] by (cases xs) (auto simp: coalesce_max_next_def)

lemma coalesce_max_next_pred: "xs \<noteq> [] \<Longrightarrow> coalesce_max_next xs - 1 \<in> set xs"
  using foldr_max_in [of "tl xs" "hd xs"] by (cases xs) (auto simp: coalesce_max_next_def)

lemma attempts_of_iff:
  "a \<in> set (attempts_of db rid sno) \<longleftrightarrow> (rid, sno, a) \<in> step_key ` set (rdb_steps db)"
  by (force simp: attempts_of_def step_key_def)

lemma fresh_attempt:
  assumes "journal_ok (rdb_steps db)" and "a = coalesce_max_next (attempts_of db rid sno) \<or> a = 0"
    and "(rid, sno, a) \<notin> step_key ` set (rdb_steps db)"
  shows "0 \<le> a" and "\<forall>q\<in>set (rdb_steps db). sr_run_id q = rid \<and> sr_step_no q = sno \<longrightarrow> sr_attempt q < a"
    and "\<forall>b. 0 \<le> b \<and> b < a \<longrightarrow> (rid, sno, b) \<in> step_key ` set (rdb_steps db)"
proof -
  let ?as = "attempts_of db rid sno"
  have mem: "sr_attempt q \<in> set ?as" if "q \<in> set (rdb_steps db)" "sr_run_id q = rid" "sr_step_no q = sno" for q
    using that by (auto simp: attempts_of_def)
  have down: "(rid, sno, b) \<in> step_key ` set (rdb_steps db)" if "x \<in> set ?as" "0 \<le> b" "b \<le> x" for b x
  proof -
    have "\<exists>q\<in>set (rdb_steps db). sr_run_id q = rid \<and> sr_step_no q = sno \<and> sr_attempt q = x"
      using that(1) by (auto simp: attempts_of_def)
    then obtain q where q: "q \<in> set (rdb_steps db)" "sr_run_id q = rid" "sr_step_no q = sno" "sr_attempt q = x"
      by blast
    show ?thesis
    proof (cases "b = x")
      case True
      then have "(rid, sno, b) = step_key q" using q by (simp add: step_key_def)
      then show ?thesis using q(1) by blast
    next
      case False
      then have "0 \<le> b \<and> b < sr_attempt q" using that(2, 3) q(4) by simp
      then show ?thesis using assms(1) q(1-3) unfolding journal_ok_def by blast
    qed
  qed
  have ge: "x \<in> set ?as \<Longrightarrow> 0 \<le> x" for x
    using assms(1) by (auto simp: attempts_of_def journal_ok_def)
  consider "?as = []" "a = 0" | "?as \<noteq> []" "a = coalesce_max_next ?as"
  proof (cases "?as = []")
    case True
    then show ?thesis using that(1) assms(2) by (auto simp: coalesce_max_next_def)
  next
    case False
    then obtain x where "x \<in> set ?as" by (cases ?as) auto
    then have "a \<noteq> 0" using down [of x 0] ge [of x] assms(3) by auto
    then show ?thesis using that(2) False assms(2) by blast
  qed
  then have "0 \<le> a \<and> (\<forall>q\<in>set (rdb_steps db). sr_run_id q = rid \<and> sr_step_no q = sno \<longrightarrow> sr_attempt q < a) \<and>
      (\<forall>b. 0 \<le> b \<and> b < a \<longrightarrow> (rid, sno, b) \<in> step_key ` set (rdb_steps db))"
  proof cases
    case 1
    then show ?thesis using mem by fastforce
  next
    case 2
    then have top: "a - 1 \<in> set ?as" using coalesce_max_next_pred by simp
    have "sr_attempt q < a" if "q \<in> set (rdb_steps db)" "sr_run_id q = rid" "sr_step_no q = sno" for q
      using coalesce_max_next_gt [OF mem [OF that]] 2(2) by simp
    moreover have "(rid, sno, b) \<in> step_key ` set (rdb_steps db)" if "0 \<le> b" "b < a" for b
      using down [OF top that(1)] that(2) by simp
    ultimately show ?thesis using ge [OF top] by simp
  qed
  then show "0 \<le> a" and "\<forall>q\<in>set (rdb_steps db). sr_run_id q = rid \<and> sr_step_no q = sno \<longrightarrow> sr_attempt q < a"
    and "\<forall>b. 0 \<le> b \<and> b < a \<longrightarrow> (rid, sno, b) \<in> step_key ` set (rdb_steps db)" by auto
qed

lemma journal_ok_snoc:
  assumes "journal_ok rows" "step_key r \<notin> step_key ` set rows" "0 \<le> sr_attempt r" "0 \<le> sr_step_no r"
    and "\<forall>b. 0 \<le> b \<and> b < sr_attempt r \<longrightarrow> (sr_run_id r, sr_step_no r, b) \<in> step_key ` set rows"
  shows "journal_ok (rows @ [r])"
  using assms by (auto simp: journal_ok_def)

lemma is_latest_snoc_other:
  "\<not> (sr_run_id q = sr_run_id r \<and> sr_step_no q = sr_step_no r) \<Longrightarrow> is_latest (rows @ [r]) q = is_latest rows q"
  by (auto simp: is_latest_def)

lemma find_append: "List.find P (xs @ ys) = (case List.find P xs of None \<Rightarrow> List.find P ys | Some x \<Rightarrow> Some x)"
  by (induction xs) auto

lemma latest_of_snoc:
  assumes "\<forall>q\<in>set rows. sr_run_id q = sr_run_id r \<and> sr_step_no q = sr_step_no r \<longrightarrow> sr_attempt q < sr_attempt r"
  shows "latest_of (rows @ [r]) rid sno =
    (if sr_run_id r = rid \<and> sr_step_no r = sno then Some r else latest_of rows rid sno)"
proof (cases "sr_run_id r = rid \<and> sr_step_no r = sno")
  case True
  have "\<not> is_latest (rows @ [r]) q" if "q \<in> set rows" "sr_run_id q = rid" "sr_step_no q = sno" for q
    using assms that True by (fastforce simp: is_latest_def)
  then have "List.find (\<lambda>q. sr_run_id q = rid \<and> sr_step_no q = sno \<and> is_latest (rows @ [r]) q) rows = None"
    by (auto simp: find_None_iff)
  moreover have "is_latest (rows @ [r]) r" using assms by (auto simp: is_latest_def intro: less_imp_le)
  ultimately show ?thesis using True by (simp add: latest_of_def find_append)
next
  case False
  have "List.find (\<lambda>q. sr_run_id q = rid \<and> sr_step_no q = sno \<and> is_latest (rows @ [r]) q) rows =
      List.find (\<lambda>q. sr_run_id q = rid \<and> sr_step_no q = sno \<and> is_latest rows q) rows"
    by (rule find_cong) (use False in \<open>auto simp: is_latest_def\<close>)
  then show ?thesis using False by (auto simp: latest_of_def find_append split: option.splits)
qed

lemma latest_of_SomeD:
  "latest_of rows rid sno = Some r \<Longrightarrow>
     r \<in> set rows \<and> sr_run_id r = rid \<and> sr_step_no r = sno \<and> is_latest rows r"
  by (auto simp: latest_of_def find_Some_iff)

lemma latest_exists:
  assumes "q \<in> set rows" "sr_run_id q = rid" "sr_step_no q = sno"
  shows "\<exists>r. latest_of rows rid sno = Some r"
proof -
  let ?A = "sr_attempt ` {q \<in> set rows. sr_run_id q = rid \<and> sr_step_no q = sno}"
  have "finite ?A" "?A \<noteq> {}" using assms by auto
  then have "Max ?A \<in> ?A" by (rule Max_in)
  then have "\<exists>r. r \<in> set rows \<and> sr_run_id r = rid \<and> sr_step_no r = sno \<and> Max ?A = sr_attempt r"
    by (simp only: image_iff mem_Collect_eq bex_simps) blast
  then obtain r where "r \<in> set rows" "sr_run_id r = rid" "sr_step_no r = sno" "sr_attempt r = Max ?A"
    by metis
  then have "is_latest rows r" using \<open>finite ?A\<close> by (auto simp: is_latest_def intro!: Max_ge)
  then show ?thesis using \<open>r \<in> set rows\<close> \<open>sr_run_id r = rid\<close> \<open>sr_step_no r = sno\<close>
    by (cases "latest_of rows rid sno") (auto simp: latest_of_def find_None_iff)
qed

lemma latest_of_iff:
  assumes "pk_ok step_key rows"
  shows "latest_of rows rid sno = Some r \<longleftrightarrow>
    r \<in> set rows \<and> sr_run_id r = rid \<and> sr_step_no r = sno \<and> is_latest rows r"
proof
  assume a: "r \<in> set rows \<and> sr_run_id r = rid \<and> sr_step_no r = sno \<and> is_latest rows r"
  then obtain r' where r': "latest_of rows rid sno = Some r'" using latest_exists by blast
  note d = latest_of_SomeD [OF r']
  have "sr_attempt r' = sr_attempt r" using a d by (auto simp: is_latest_def intro: order_antisym)
  then have "r' = r" using a d by (intro pk_ok_unique [OF assms]) (auto simp: step_key_def)
  then show "latest_of rows rid sno = Some r" using r' by simp
qed (rule latest_of_SomeD)

section \<open>How the journal grows\<close>

lemma insert_step_effect:
  assumes "insert_step r db = (x, db')"
  shows "x = Inl RunsSql \<and> db' = db \<or>
    x = Inr () \<and> step_key r \<notin> step_key ` set (rdb_steps db) \<and> db' = db\<lparr>rdb_steps := rdb_steps db @ [r]\<rparr>"
  using assms by (auto simp: insert_step_def sm_simps split: if_splits)

lemma next_attempt_effect:
  assumes "next_attempt rid sno db = (x, db')"
  obtains a where "x = Inr a" "rdb_steps db' = rdb_steps db"
    "a = coalesce_max_next (attempts_of db rid (as_i64 sno)) \<or> a = 0"
proof -
  have keep: "rdb_steps db' = rdb_steps db" using steps_unchanged [OF next_attempt_steps assms] .
  have "\<exists>a. x = Inr a \<and> (a = coalesce_max_next (attempts_of db rid (as_i64 sno)) \<or> a = 0)"
    using assms by (cases db rule: sql_stmt_cases)
      (auto simp: next_attempt_def runs_stmt_def attempts_of_def unwrap_orS_def bindS_def map_errS_def getS_def)
  then show ?thesis using that keep by blast
qed

text \<open>The insertion shared by the two writers, after the attempt number is known.\<close>

lemma guarded_insert_effect:
  assumes "bindS runs_stmt (\<lambda>now. bindS (insert_step (mk now)) (\<lambda>_. K)) db = (x, db')"
    and "\<And>rows. preserves (same_steps rows) K"
  shows "rdb_steps db' = rdb_steps db \<and> \<not> is_ok x \<or>
    (\<exists>now. step_key (mk now) \<notin> step_key ` set (rdb_steps db) \<and> rdb_steps db' = rdb_steps db @ [mk now])"
  using assms(1)
proof (rule bindS_E)
  fix e assume "runs_stmt db = (Inl e, db')" "x = Inl e"
  then show ?thesis using steps_unchanged [OF runs_stmt_steps] by auto
next
  fix now db1
  assume 1: "runs_stmt db = (Inr now, db1)" and 2: "bindS (insert_step (mk now)) (\<lambda>_. K) db1 = (x, db')"
  have s1: "rdb_steps db1 = rdb_steps db" using steps_unchanged [OF runs_stmt_steps 1] .
  from 2 show ?thesis
  proof (rule bindS_E)
    fix e assume "insert_step (mk now) db1 = (Inl e, db')" "x = Inl e"
    then show ?thesis using insert_step_effect s1 by fastforce
  next
    fix u db2
    assume 3: "insert_step (mk now) db1 = (Inr u, db2)" and 4: "K db2 = (x, db')"
    have "rdb_steps db' = rdb_steps db2" using steps_unchanged [OF assms(2) 4] .
    then show ?thesis using insert_step_effect [OF 3] s1 by auto
  qed
qed

definition started_row :: "string \<Rightarrow> nat \<Rightarrow> step_kind \<Rightarrow> string \<Rightarrow> string option \<Rightarrow> int \<Rightarrow> int \<Rightarrow> step_row" where
  "started_row rid sno kind ih hint attempt now =
     \<lparr>sr_run_id = rid, sr_step_no = as_i64 sno, sr_attempt = attempt, sr_kind = step_kind_str kind,
      sr_input_hash = ih, sr_output = None, sr_outcome = Some OUTCOME_STARTED, sr_review_id = None,
      sr_ts_ms = now, sr_reconcile_hint = hint\<rparr>"

definition outcome_row :: "step_intent \<Rightarrow> attempt_outcome \<Rightarrow> string option \<Rightarrow> int \<Rightarrow> step_row" where
  "outcome_row i oc output now =
     \<lparr>sr_run_id = in_run_id i, sr_step_no = as_i64 (in_step_no i), sr_attempt = as_i64 (in_attempt i) + 1,
      sr_kind = step_kind_str (in_kind i), sr_input_hash = in_input_hash i, sr_output = output,
      sr_outcome = Some (outcome_str oc), sr_review_id = None, sr_ts_ms = now,
      sr_reconcile_hint = in_reconcile_hint i\<rparr>"

lemma begin_step_effect:
  assumes "journal_ok (rdb_steps db)" "sno < 2 ^ 63"
    and "begin_step_with_hint rid sno kind ih hint db = (x, db')"
  shows "rdb_steps db' = rdb_steps db \<and> \<not> is_ok x \<or>
    (\<exists>a now. let r = started_row rid sno kind ih hint a now in
       0 \<le> a \<and> rdb_steps db' = rdb_steps db @ [r] \<and> journal_ok (rdb_steps db') \<and>
       (\<forall>q\<in>set (rdb_steps db). sr_run_id q = rid \<and> sr_step_no q = int sno \<longrightarrow> sr_attempt q < a) \<and>
       (is_ok x \<longrightarrow> x = Inr \<lparr>in_run_id = rid, in_step_no = sno, in_attempt = nat a, in_kind = kind,
          in_input_hash = ih, in_reconcile_hint = hint\<rparr>))"
  using assms(3) unfolding begin_step_with_hint_def
proof (rule bindS_E)
  fix e assume "next_attempt rid sno db = (Inl e, db')"
  then show ?thesis by (rule next_attempt_effect) simp
next
  fix a0 db1
  assume 1: "next_attempt rid sno db = (Inr a0, db1)"
    and 2: "bindS runs_stmt (\<lambda>now. bindS (insert_step \<lparr>sr_run_id = rid, sr_step_no = as_i64 sno, sr_attempt = a0,
       sr_kind = step_kind_str kind, sr_input_hash = ih, sr_output = None,
       sr_outcome = Some OUTCOME_STARTED, sr_review_id = None, sr_ts_ms = now, sr_reconcile_hint = hint\<rparr>) (\<lambda>_.
     bindS fsync_db (\<lambda>_. bindS (touch_run rid) (\<lambda>_.
     retS \<lparr>in_run_id = rid, in_step_no = sno, in_attempt = nat a0, in_kind = kind,
       in_input_hash = ih, in_reconcile_hint = hint\<rparr>)))) db1 = (x, db')"
  let ?i = "\<lparr>in_run_id = rid, in_step_no = sno, in_attempt = nat a0, in_kind = kind, in_input_hash = ih, in_reconcile_hint = hint\<rparr>"
  let ?K = "bindS fsync_db (\<lambda>_. bindS (touch_run rid) (\<lambda>_. retS ?i))"
  have a: "rdb_steps db1 = rdb_steps db" "a0 = coalesce_max_next (attempts_of db rid (as_i64 sno)) \<or> a0 = 0"
    using 1 by (auto elim: next_attempt_effect)
  have 2: "bindS runs_stmt (\<lambda>now. bindS (insert_step (started_row rid sno kind ih hint a0 now)) (\<lambda>_. ?K)) db1 = (x, db')"
    using 2 by (simp add: started_row_def)
  have sno: "as_i64 sno = int sno" using assms(2) by (simp add: as_i64_def)
  have ret: "is_ok x \<Longrightarrow> x = Inr ?i"
    using 2 by (auto elim!: bindS_E simp: retS_def)
  have K: "preserves (same_steps rows) ?K" for rows by (intro preserves_intros)
  from guarded_insert_effect [OF 2 K] show ?thesis
  proof (elim disjE exE conjE)
    fix now assume key: "step_key (started_row rid sno kind ih hint a0 now) \<notin> step_key ` set (rdb_steps db1)"
      and st: "rdb_steps db' = rdb_steps db1 @ [started_row rid sno kind ih hint a0 now]"
    have "(rid, as_i64 sno, a0) \<notin> step_key ` set (rdb_steps db)"
      using key a(1) by (simp add: step_key_def started_row_def)
    note fr = fresh_attempt [OF assms(1) a(2) this]
    have "journal_ok (rdb_steps db')"
      unfolding st a(1) using assms(1) key a(1) fr sno
      by (intro journal_ok_snoc) (simp_all add: started_row_def step_key_def)
    then show ?thesis using st a(1) fr sno ret by (intro disjI2 exI [of _ a0] exI [of _ now]) (simp add: Let_def)
  qed (simp add: a(1))
qed

lemma complete_step_grows:
  assumes "complete_step E i oc output db = (x, db')"
  shows "rdb_steps db' = rdb_steps db \<and> \<not> is_ok x \<or>
    (\<exists>now. step_key (outcome_row i oc output now) \<notin> step_key ` set (rdb_steps db) \<and>
       rdb_steps db' = rdb_steps db @ [outcome_row i oc output now])"
  using assms unfolding complete_step_def outcome_row_def [symmetric]
proof (rule bindS_E)
  fix e assume "check_budgets E (in_run_id i) (in_kind i) (outcome_str oc) db = (Inl e, db')" "x = Inl e"
  then show ?thesis using steps_unchanged [OF check_budgets_steps] by auto
next
  fix u db1
  assume 1: "check_budgets E (in_run_id i) (in_kind i) (outcome_str oc) db = (Inr u, db1)"
    and 2: "bindS runs_stmt (\<lambda>now. bindS (insert_step (outcome_row i oc output now)) (\<lambda>_.
       bindS fsync_db (\<lambda>_. touch_run (in_run_id i)))) db1 = (x, db')"
  have K: "preserves (same_steps rows) (bindS fsync_db (\<lambda>_. touch_run (in_run_id i)))" for rows
    by (intro preserves_intros)
  show ?thesis using guarded_insert_effect [OF 2 K] steps_unchanged [OF check_budgets_steps 1] by simp
qed

lemma complete_latest_effect:
  assumes "journal_ok (rdb_steps db)"
    and r: "latest_of (rdb_steps db) (in_run_id i) (int (in_step_no i)) = Some r" "sr_attempt r = int (in_attempt i)"
    and b: "in_step_no i < 2 ^ 63" "in_attempt i < 2 ^ 63"
    and "complete_step E i oc output db = (x, db')"
  shows "rdb_steps db' = rdb_steps db \<and> \<not> is_ok x \<or>
    (\<exists>now. rdb_steps db' = rdb_steps db @ [outcome_row i oc output now] \<and> journal_ok (rdb_steps db') \<and>
       (\<forall>rid sno. latest_of (rdb_steps db') rid sno =
          (if rid = in_run_id i \<and> sno = int (in_step_no i) then Some (outcome_row i oc output now)
           else latest_of (rdb_steps db) rid sno)))"
  using complete_step_grows [OF assms(6)]
proof (elim disjE exE conjE)
  fix now
  let ?o = "outcome_row i oc output now"
  assume key: "step_key ?o \<notin> step_key ` set (rdb_steps db)" and st: "rdb_steps db' = rdb_steps db @ [?o]"
  have o: "sr_run_id ?o = in_run_id i" "sr_step_no ?o = int (in_step_no i)" "sr_attempt ?o = sr_attempt r + 1"
    using r(2) b by (simp_all add: outcome_row_def as_i64_def)
  note d = latest_of_SomeD [OF r(1)]
  have below: "\<forall>q\<in>set (rdb_steps db). sr_run_id q = sr_run_id ?o \<and> sr_step_no q = sr_step_no ?o \<longrightarrow>
      sr_attempt q < sr_attempt ?o"
    using d o by (auto simp: is_latest_def)
  have "(sr_run_id ?o, sr_step_no ?o, a) \<in> step_key ` set (rdb_steps db)" if "0 \<le> a" "a < sr_attempt ?o" for a
  proof (cases "a = sr_attempt r")
    case True
    then have "(sr_run_id ?o, sr_step_no ?o, a) = step_key r" using d o by (simp add: step_key_def)
    then show ?thesis using d by blast
  next
    case False
    then have "0 \<le> a \<and> a < sr_attempt r" using that o(3) by simp
    then have "(sr_run_id r, sr_step_no r, a) \<in> step_key ` set (rdb_steps db)"
      using assms(1) d unfolding journal_ok_def by blast
    then show ?thesis using d o by simp
  qed
  then have "journal_ok (rdb_steps db')"
    unfolding st using assms(1) key o r(2) by (intro journal_ok_snoc) auto
  moreover have "latest_of (rdb_steps db') rid sno =
      (if rid = in_run_id i \<and> sno = int (in_step_no i) then Some ?o else latest_of (rdb_steps db) rid sno)" for rid sno
    using latest_of_snoc [OF below, of rid sno] o unfolding st by auto
  ultimately show ?thesis using st by blast
qed simp

definition executed :: "step_row \<Rightarrow> bool" where
  "executed r = (sr_outcome r = Some ''executed_ok'' \<or> sr_outcome r = Some ''executed_failed'')"

text \<open>Every step below \<open>n\<close> has an executed latest row.\<close>

definition settled :: "step_row list \<Rightarrow> string \<Rightarrow> nat \<Rightarrow> bool" where
  "settled rows rid n = (\<forall>k<n. \<exists>r. latest_of rows rid (int k) = Some r \<and> executed r)"

text \<open>The journal shows that step \<open>n\<close> may be executed: nothing ran, or running again is harmless.\<close>

definition may_execute :: "runs_env \<Rightarrow> step_row list \<Rightarrow> string \<Rightarrow> nat \<Rightarrow> bool" where
  "may_execute E rows rid n =
     (case latest_of rows rid (int n) of
        None \<Rightarrow> True
      | Some r \<Rightarrow> \<not> executed r \<and> sr_outcome r \<noteq> Some ''ambiguous'' \<and>
          (sr_outcome r = Some ''started'' \<longrightarrow> reconcile_orphan E (intent_of_row r) = VRerun))"

definition must_review :: "runs_env \<Rightarrow> step_row list \<Rightarrow> string \<Rightarrow> nat \<Rightarrow> bool" where
  "must_review E rows rid n =
     (case latest_of rows rid (int n) of
        None \<Rightarrow> False
      | Some r \<Rightarrow> sr_outcome r = Some ''ambiguous'' \<or>
          sr_outcome r = Some ''started'' \<and> reconcile_orphan E (intent_of_row r) = VNeedsReview)"

definition plan_ok :: "runs_env \<Rightarrow> step_row list \<Rightarrow> string \<Rightarrow> step list \<Rightarrow> nat option \<Rightarrow> nat option \<Rightarrow> bool" where
  "plan_ok E rows rid c fi nr =
     (case (fi, nr) of
        (Some n, None) \<Rightarrow> map st_step_no c = [0..<n] \<and> settled rows rid n \<and> may_execute E rows rid n
      | (None, Some n) \<Rightarrow> map st_step_no c = [0..<n] \<and> settled rows rid n \<and> must_review E rows rid n
      | _ \<Rightarrow> False)"

lemma intent_of_step_of_row: "intent_of_step (step_of_row r) = intent_of_row r"
  by (simp add: intent_of_step_def step_of_row_def intent_of_row_def)

lemma settled_Suc:
  "settled rows rid (Suc n) \<longleftrightarrow> settled rows rid n \<and> (\<exists>r. latest_of rows rid (int n) = Some r \<and> executed r)"
  by (auto simp: settled_def less_Suc_eq)

lemma reconciled_effect:
  assumes "journal_ok (rdb_steps db)" and "latest_of (rdb_steps db) rid (int n) = Some r"
    and "sr_step_no r < 2 ^ 63" "sr_attempt r < 2 ^ 63" and "settled (rdb_steps db) rid n"
    and "complete_step E (intent_of_row r) (Executed True) (Some out) db = (x, db1)"
  shows "journal_ok (rdb_steps db1)"
    and "is_ok x \<Longrightarrow> settled (rdb_steps db1) rid (Suc n)"
    and "k \<noteq> n \<Longrightarrow> latest_of (rdb_steps db1) rid (int k) = latest_of (rdb_steps db) rid (int k)"
proof -
  note d = latest_of_SomeD [OF assms(2)]
  let ?i = "intent_of_row r"
  have pos: "0 \<le> sr_attempt r" using assms(1) d by (auto simp: journal_ok_def)
  have i: "in_run_id ?i = rid" "in_step_no ?i = n" "int (in_attempt ?i) = sr_attempt r"
    using d pos by (simp_all add: intent_of_row_def)
  have "int n < 2 ^ 63" "int (in_attempt ?i) < 2 ^ 63" using assms(3, 4) d i(3) by simp_all
  then have b: "in_step_no ?i < 2 ^ 63" "in_attempt ?i < 2 ^ 63" using i(2) by auto
  have r: "latest_of (rdb_steps db) (in_run_id ?i) (int (in_step_no ?i)) = Some r" "sr_attempt r = int (in_attempt ?i)"
    using assms(2) i by simp_all
  consider "rdb_steps db1 = rdb_steps db" "\<not> is_ok x"
    | now where "journal_ok (rdb_steps db1)"
        "\<And>sno. latest_of (rdb_steps db1) rid sno = (if sno = int n
           then Some (outcome_row ?i (Executed True) (Some out) now) else latest_of (rdb_steps db) rid sno)"
    using complete_latest_effect [OF assms(1) r b assms(6)] i by auto
  then have "journal_ok (rdb_steps db1) \<and> (is_ok x \<longrightarrow> settled (rdb_steps db1) rid (Suc n)) \<and>
    (k \<noteq> n \<longrightarrow> latest_of (rdb_steps db1) rid (int k) = latest_of (rdb_steps db) rid (int k))"
  proof cases
    case (2 now)
    have "executed (outcome_row ?i (Executed True) (Some out) now)"
      by (simp add: executed_def outcome_row_def outcome_consts)
    then show ?thesis using 2 assms(5) by (auto simp: settled_Suc settled_def)
  qed (simp add: assms(1))
  then show "journal_ok (rdb_steps db1)"
    and "is_ok x \<Longrightarrow> settled (rdb_steps db1) rid (Suc n)"
    and "k \<noteq> n \<Longrightarrow> latest_of (rdb_steps db1) rid (int k) = latest_of (rdb_steps db) rid (int k)" by auto
qed

text \<open>The journal entries still to be scanned: exactly the latest rows from step \<open>n\<close> on, in order.\<close>

definition scan_ready :: "step_row list \<Rightarrow> string \<Rightarrow> nat \<Rightarrow> step_row list \<Rightarrow> bool" where
  "scan_ready rows rid n rs =
     (journal_ok rows \<and> settled rows rid n \<and> sorted_wrt (<) (map sr_step_no rs) \<and>
      (\<forall>r\<in>set rs. latest_of rows rid (sr_step_no r) = Some r \<and> int n \<le> sr_step_no r \<and>
         sr_step_no r < 2 ^ 63 \<and> sr_attempt r < 2 ^ 63) \<and>
      (\<forall>k\<ge>n. latest_of rows rid (int k) \<noteq> None \<longrightarrow> int k \<in> sr_step_no ` set rs))"

lemma scan_ready_gap:
  assumes "scan_ready rows rid n (r # rs)" "nat (sr_step_no r) \<noteq> n"
  shows "latest_of rows rid (int n) = None"
proof -
  have "int n < sr_step_no r" using assms by (force simp: scan_ready_def)
  then have "int n \<notin> sr_step_no ` set (r # rs)" using assms(1) by (fastforce simp: scan_ready_def)
  then show ?thesis using assms(1) by (auto simp: scan_ready_def)
qed

lemma scan_ready_next:
  assumes "scan_ready rows rid n (r # rs)" "sr_step_no r = int n"
    and "journal_ok rows'" "settled rows' rid (Suc n)"
    and same: "\<And>k. k \<noteq> n \<Longrightarrow> latest_of rows' rid (int k) = latest_of rows rid (int k)"
  shows "scan_ready rows' rid (Suc n) rs"
proof -
  have above: "int (Suc n) \<le> sr_step_no q" if "q \<in> set rs" for q
    using assms(1, 2) that by (fastforce simp: scan_ready_def)
  have "latest_of rows' rid (sr_step_no q) = Some q \<and> int (Suc n) \<le> sr_step_no q \<and>
      sr_step_no q < 2 ^ 63 \<and> sr_attempt q < 2 ^ 63" if "q \<in> set rs" for q
    using assms(1) that above [OF that] same [of "nat (sr_step_no q)"] by (auto simp: scan_ready_def)
  moreover have "int k \<in> sr_step_no ` set rs" if "Suc n \<le> k" "latest_of rows' rid (int k) \<noteq> None" for k
  proof -
    have "latest_of rows rid (int k) \<noteq> None" using that same [of k] by simp
    then have "int k \<in> insert (sr_step_no r) (sr_step_no ` set rs)"
      using assms(1) that(1) unfolding scan_ready_def by simp
    then show ?thesis using assms(2) that(1) by simp
  qed
  ultimately show ?thesis using assms(1, 3, 4) by (simp add: scan_ready_def)
qed

lemma resume_scan_effect:
  assumes "scan_ready (rdb_steps db) rid n rs" and "map st_step_no c = [0..<n]"
    and "resume_scan E (map step_of_row rs) c n db = (x, db')"
  shows "journal_ok (rdb_steps db') \<and> (\<forall>c' fi nr. x = Inr (c', fi, nr) \<longrightarrow> plan_ok E (rdb_steps db') rid c' fi nr)"
  using assms
proof (induction rs arbitrary: n c db)
  case Nil
  then have "latest_of (rdb_steps db) rid (int n) = None" by (auto simp: scan_ready_def)
  then show ?case using Nil by (auto simp: retS_def plan_ok_def may_execute_def scan_ready_def)
next
  case (Cons r rs)
  let ?s = "step_of_row r"
  have ready: "journal_ok (rdb_steps db)" "settled (rdb_steps db) rid n"
      "latest_of (rdb_steps db) rid (sr_step_no r) = Some r" "sr_step_no r < 2 ^ 63" "sr_attempt r < 2 ^ 63"
    and sno: "st_step_no ?s = nat (sr_step_no r)" "st_outcome ?s = sr_outcome r"
    using Cons.prems(1) by (simp_all add: scan_ready_def step_of_row_def)
  show ?case
  proof (cases "nat (sr_step_no r) = n")
    case False
    then show ?thesis using Cons.prems(2, 3) sno ready scan_ready_gap [OF Cons.prems(1)]
      by (auto simp: retS_def plan_ok_def may_execute_def)
  next
    case True
    then have n: "sr_step_no r = int n" using ready(1) latest_of_SomeD [OF ready(3)] by (auto simp: journal_ok_def)
    consider "executed r" | out where "\<not> executed r" "sr_outcome r = Some ''started''" "reconcile_orphan E (intent_of_row r) = VAlreadyComplete out"
      | "\<not> executed r" "x = Inr (c, if must_review E (rdb_steps db) rid n then (None, Some n) else (Some n, None))" "db' = db"
        "must_review E (rdb_steps db) rid n \<or> may_execute E (rdb_steps db) rid n"
      using Cons.prems(3) sno True n ready(3)
      by (cases "reconcile_orphan E (intent_of_row r)")
        (auto simp: executed_def retS_def intent_of_step_of_row must_review_def may_execute_def split: if_splits)
    then show ?thesis
    proof cases
      case 1
      then have "settled (rdb_steps db) rid (Suc n)" using ready n by (simp add: settled_Suc)
      then have "scan_ready (rdb_steps db) rid (Suc n) rs" using scan_ready_next [OF Cons.prems(1) n ready(1)] by simp
      then show ?thesis using Cons.IH [of db "Suc n" "c @ [?s]"] Cons.prems(2, 3) 1 sno True by (simp add: executed_def)
    next
      case (2 out)
      let ?s' = "?s\<lparr>st_outcome := Some OUTCOME_EXECUTED_OK, st_output := Some out, st_attempt := st_attempt ?s + 1\<rparr>"
      have "bindS (complete_step E (intent_of_row r) (Executed True) (Some out)) (\<lambda>_. resume_scan E (map step_of_row rs) (c @ [?s']) (Suc n)) db = (x, db')"
        using Cons.prems(3) sno True 2 by (simp add: intent_of_step_of_row)
      then show ?thesis
      proof (rule bindS_E)
        fix e assume "complete_step E (intent_of_row r) (Executed True) (Some out) db = (Inl e, db')" "x = Inl e"
        then show ?thesis using reconciled_effect(1) [OF ready(1) _ ready(4, 5, 2)] ready(3) n by simp
      next
        fix u db1
        assume c1: "complete_step E (intent_of_row r) (Executed True) (Some out) db = (Inr u, db1)"
          and c2: "resume_scan E (map step_of_row rs) (c @ [?s']) (Suc n) db1 = (x, db')"
        note eff = reconciled_effect [OF ready(1) _ ready(4, 5, 2) c1]
        have "scan_ready (rdb_steps db1) rid (Suc n) rs"
          using scan_ready_next [OF Cons.prems(1) n] eff ready(3) n by simp
        then show ?thesis using Cons.IH [OF _ _ c2] Cons.prems(2) sno True by simp
      qed
    next
      case 3
      then show ?thesis using ready Cons.prems(2) by (auto simp: plan_ok_def split: if_splits)
    qed
  qed
qed

section \<open>Resuming from a well-formed journal\<close>

text \<open>The columns hold signed 64-bit integers.\<close>

definition columns_ok :: "step_row list \<Rightarrow> bool" where
  "columns_ok rows = (\<forall>r\<in>set rows. sr_step_no r < 2 ^ 63 \<and> sr_attempt r < 2 ^ 63)"

lemma set_latest_rows:
  "set (latest_rows db rid) = {r \<in> set (rdb_steps db). sr_run_id r = rid \<and> is_latest (rdb_steps db) r}"
  by (auto simp: latest_rows_def)

lemma latest_rows_strict:
  assumes "pk_ok step_key (rdb_steps db)"
  shows "sorted_wrt (<) (map sr_step_no (latest_rows db rid))"
proof -
  have "distinct (rdb_steps db)" using assms by (simp add: pk_ok_def distinct_map)
  then have "distinct (latest_rows db rid)" by (simp add: latest_rows_def)
  moreover have "inj_on sr_step_no (set (latest_rows db rid))"
  proof (rule inj_onI)
    fix q r assume q: "q \<in> set (latest_rows db rid)" and r: "r \<in> set (latest_rows db rid)" and eq: "sr_step_no q = sr_step_no r"
    have "latest_of (rdb_steps db) rid (sr_step_no q) = Some q"
      using q latest_of_iff [OF assms, of rid "sr_step_no q" q] unfolding set_latest_rows by blast
    moreover have "latest_of (rdb_steps db) rid (sr_step_no r) = Some r"
      using r latest_of_iff [OF assms, of rid "sr_step_no r" r] unfolding set_latest_rows by blast
    ultimately show "q = r" unfolding eq by (metis option.inject)
  qed
  ultimately have "distinct (map sr_step_no (latest_rows db rid))" by (simp add: distinct_map)
  moreover have "sorted (map sr_step_no (latest_rows db rid))" by (simp add: latest_rows_def)
  ultimately show ?thesis by (simp add: strict_sorted_iff)
qed

lemma scan_ready_initial:
  assumes "journal_ok (rdb_steps db)" "columns_ok (rdb_steps db)"
  shows "scan_ready (rdb_steps db) rid 0 (latest_rows db rid)"
proof -
  have pk: "pk_ok step_key (rdb_steps db)" using assms(1) by (simp add: journal_ok_def)
  have "latest_of (rdb_steps db) rid (sr_step_no r) = Some r \<and> 0 \<le> sr_step_no r \<and> sr_step_no r < 2 ^ 63 \<and> sr_attempt r < 2 ^ 63"
    if "r \<in> set (latest_rows db rid)" for r
    using that assms latest_of_iff [OF pk, of rid "sr_step_no r" r]
    by (auto simp: set_latest_rows journal_ok_def columns_ok_def)
  moreover have "int k \<in> sr_step_no ` set (latest_rows db rid)" if "latest_of (rdb_steps db) rid (int k) \<noteq> None" for k
  proof -
    from that obtain r where r: "latest_of (rdb_steps db) rid (int k) = Some r" by blast
    have "r \<in> set (latest_rows db rid)" "int k = sr_step_no r"
      using latest_of_SomeD [OF r] unfolding set_latest_rows by auto
    then show ?thesis by blast
  qed
  ultimately show ?thesis using assms(1) latest_rows_strict [OF pk] by (simp add: scan_ready_def settled_def)
qed

lemma mark_needs_review_state:
  assumes "mark_needs_review rid db = (Inr b, db')" and "r \<in> set (rdb_runs db')" "rr_id r = rid"
  shows "rr_state r \<in> {''NEEDS_REVIEW'', ''DONE'', ''FAILED''}"
proof -
  let ?hit = "\<lambda>r. rr_id r = rid \<and> rr_state r \<notin> set [''DONE'', ''FAILED'', ''NEEDS_REVIEW'']"
  have "\<exists>now. rdb_runs db' = row_update ?hit (\<lambda>r. r\<lparr>rr_state := ''NEEDS_REVIEW'', rr_updated_at_ms := now\<rparr>) (rdb_runs db)"
    using assms(1)
    by (cases db rule: sql_stmt_cases) (auto simp: mark_needs_review_def runs_stmt_def sm_simps Let_def)
  then obtain now q where "r = (if ?hit q then q\<lparr>rr_state := ''NEEDS_REVIEW'', rr_updated_at_ms := now\<rparr> else q)"
    using assms(2) by (elim exE) (simp only: set_row_update, blast)
  then show ?thesis using assms(3) by (auto split: if_splits)
qed

lemma latest_steps_steps [preserves_intros]: "preserves (same_steps rows) (latest_steps rid)"
  unfolding latest_steps_def by (intro preserves_intros)

lemma resume_run_effect:
  assumes "journal_ok (rdb_steps db)" "columns_ok (rdb_steps db)" and "resume_run E rid db = (x, db')"
  shows "journal_ok (rdb_steps db') \<and> (\<forall>p. x = Inr p \<longrightarrow>
      plan_ok E (rdb_steps db') rid (rp_completed p) (rp_first_incomplete_step_no p) (rp_needs_review_step_no p) \<and>
      (rp_needs_review_step_no p \<noteq> None \<longrightarrow>
         (\<forall>r\<in>set (rdb_runs db'). rr_id r = rid \<longrightarrow> rr_state r \<in> {''NEEDS_REVIEW'', ''DONE'', ''FAILED''})))"
  using assms(3) unfolding resume_run_def
proof (rule bindS_E)
  fix e assume "latest_steps rid db = (Inl e, db')" "x = Inl e"
  then show ?thesis using assms(1) steps_unchanged [OF latest_steps_steps] by auto
next
  fix ss db1
  let ?park = "\<lambda>nr. if nr \<noteq> None then bindS (mark_needs_review rid) (\<lambda>_. retS ()) else retS ()"
  assume 1: "latest_steps rid db = (Inr ss, db1)"
    and 2: "bindS (resume_scan E ss [] 0) (\<lambda>(c, fi, nr). bindS (?park nr) (\<lambda>_.
      retS \<lparr>rp_run_id = rid, rp_completed = c, rp_first_incomplete_step_no = fi, rp_needs_review_step_no = nr\<rparr>)) db1 = (x, db')"
  have "ss = map step_of_row (latest_rows db rid)"
    using 1 by (cases db rule: sql_stmt_cases)
      (auto simp: latest_steps_def runs_stmt_def sm_simps latest_rows_def)
  with steps_unchanged [OF latest_steps_steps 1]
  have ss: "ss = map step_of_row (latest_rows db rid)" "rdb_steps db1 = rdb_steps db" by simp_all
  have rdy: "scan_ready (rdb_steps db1) rid 0 (latest_rows db rid)"
    using scan_ready_initial [OF assms(1, 2)] ss(2) by simp
  from 2 show ?thesis
  proof (rule bindS_E)
    fix e assume "resume_scan E ss [] 0 db1 = (Inl e, db')" "x = Inl e"
    then show ?thesis using resume_scan_effect [OF rdy, of "[]" E "Inl e" db'] ss by simp
  next
    fix y db2
    assume 3: "resume_scan E ss [] 0 db1 = (Inr y, db2)"
      and 4: "(case y of (c, fi, nr) \<Rightarrow> bindS (?park nr) (\<lambda>_. retS \<lparr>rp_run_id = rid, rp_completed = c,
        rp_first_incomplete_step_no = fi, rp_needs_review_step_no = nr\<rparr>)) db2 = (x, db')"
    obtain c fi nr where y: "y = (c, fi, nr)" by (cases y) auto
    have ok: "journal_ok (rdb_steps db2)" "plan_ok E (rdb_steps db2) rid c fi nr"
      using resume_scan_effect [OF rdy, of "[]" E "Inr y" db2] 3 ss y by auto
    have keep: "preserves (same_steps rows) (bindS (?park nr) (\<lambda>_. retS z))" for rows z
      by (intro preserves_intros)
    have st: "rdb_steps db' = rdb_steps db2" using steps_unchanged [OF keep] 4 y by auto
    have "\<forall>r\<in>set (rdb_runs db'). rr_id r = rid \<longrightarrow> rr_state r \<in> {''NEEDS_REVIEW'', ''DONE'', ''FAILED''}"
      if "nr \<noteq> None" "is_ok x"
      using 4 y that by (auto simp: retS_def elim!: bindS_E dest: mark_needs_review_state)
    moreover have "x = Inr p \<Longrightarrow> p = \<lparr>rp_run_id = rid, rp_completed = c, rp_first_incomplete_step_no = fi, rp_needs_review_step_no = nr\<rparr>" for p
      using 4 y by (auto simp: retS_def elim!: bindS_E)
    ultimately show ?thesis using ok st by auto
  qed
qed

section \<open>A worker that crashes\<close>

text \<open>
  One worker at a time drives a run (the lease discipline): it resumes, journals an intent, executes
  the side effect, journals the outcome, and goes on to the next step. It may crash in any phase, any
  statement may fail, and between its steps anything that leaves the step journal alone may happen
  to the database (state changes, retries by the operator, leases, events). The effects it has
  produced in the outside world are the list \<open>wk_effects\<close> of executed step numbers. All steps are of
  the kinds without a probe or an idempotency key.
\<close>

fun opaque_kind :: "step_kind \<Rightarrow> bool" where
  "opaque_kind k = (k \<in> {Tool, Subagent, OpaqueWrite})"

datatype wphase = Idle | Ready nat | Begun step_intent | Ran step_intent

record worker =
  wk_db :: runs_db
  wk_phase :: wphase
  wk_effects :: "nat list"

fun is_never_ran :: "attempt_outcome \<Rightarrow> bool" where
  "is_never_ran (NeverRan r) = True"
| "is_never_ran _ = False"

fun is_executed :: "attempt_outcome \<Rightarrow> bool" where
  "is_executed (Executed s) = True"
| "is_executed _ = False"

inductive worker_step :: "runs_env \<Rightarrow> string \<Rightarrow> worker \<Rightarrow> worker \<Rightarrow> bool" for E rid where
  wk_resume: "wk_phase w = Idle \<Longrightarrow> resume_run E rid (wk_db w) = (Inr p, db') \<Longrightarrow>
     worker_step E rid w (w\<lparr>wk_db := db', wk_phase :=
       (case rp_first_incomplete_step_no p of None \<Rightarrow> Idle | Some n \<Rightarrow> Ready n)\<rparr>)"
| wk_resume_err: "wk_phase w = Idle \<Longrightarrow> resume_run E rid (wk_db w) = (Inl e, db') \<Longrightarrow>
     worker_step E rid w (w\<lparr>wk_db := db'\<rparr>)"
| wk_begin: "wk_phase w = Ready n \<Longrightarrow> opaque_kind k \<Longrightarrow> n < 2 ^ 63 \<Longrightarrow>
     begin_step_with_hint rid n k ih hint (wk_db w) = (Inr i, db') \<Longrightarrow> columns_ok (rdb_steps db') \<Longrightarrow>
     in_attempt i < 2 ^ 63 - 1 \<Longrightarrow> worker_step E rid w (w\<lparr>wk_db := db', wk_phase := Begun i\<rparr>)"
| wk_begin_err: "wk_phase w = Ready n \<Longrightarrow> opaque_kind k \<Longrightarrow> n < 2 ^ 63 \<Longrightarrow>
     begin_step_with_hint rid n k ih hint (wk_db w) = (Inl e, db') \<Longrightarrow> columns_ok (rdb_steps db') \<Longrightarrow>
     worker_step E rid w (w\<lparr>wk_db := db', wk_phase := Idle\<rparr>)"
| wk_execute: "wk_phase w = Begun i \<Longrightarrow>
     worker_step E rid w (w\<lparr>wk_phase := Ran i, wk_effects := wk_effects w @ [in_step_no i]\<rparr>)"
| wk_complete: "wk_phase w = Ran i \<Longrightarrow> \<not> is_never_ran oc \<Longrightarrow>
     complete_step E i oc out (wk_db w) = (x, db') \<Longrightarrow>
     worker_step E rid w (w\<lparr>wk_db := db', wk_phase :=
       (if is_ok x \<and> is_executed oc then Ready (Suc (in_step_no i)) else Idle)\<rparr>)"
| wk_refused: "wk_phase w = Begun i \<Longrightarrow> is_never_ran oc \<Longrightarrow>
     complete_step E i oc out (wk_db w) = (x, db') \<Longrightarrow>
     worker_step E rid w (w\<lparr>wk_db := db', wk_phase := Idle\<rparr>)"
| wk_crash: "worker_step E rid w (w\<lparr>wk_phase := Idle\<rparr>)"
| wk_other: "rdb_steps db' = rdb_steps (wk_db w) \<Longrightarrow> worker_step E rid w (w\<lparr>wk_db := db'\<rparr>)"

text \<open>The run's part of the journal: only opaque kinds, and no row above an unsettled step.\<close>

definition run_journal :: "step_row list \<Rightarrow> string \<Rightarrow> bool" where
  "run_journal rows rid =
     (journal_ok rows \<and> columns_ok rows \<and>
      (\<forall>r\<in>set rows. sr_run_id r = rid \<longrightarrow>
         opaque_kind (kind_of_text (sr_kind r)) \<and> settled rows rid (nat (sr_step_no r))))"

definition blocked :: "step_row list \<Rightarrow> string \<Rightarrow> nat \<Rightarrow> bool" where
  "blocked rows rid n =
     (\<exists>r. latest_of rows rid (int n) = Some r \<and>
        (executed r \<or> sr_outcome r = Some ''ambiguous'' \<or> sr_outcome r = Some ''started''))"

definition at_step :: "step_row list \<Rightarrow> string \<Rightarrow> nat \<Rightarrow> bool" where
  "at_step rows rid n =
     (settled rows rid n \<and> (\<forall>r\<in>set rows. sr_run_id r = rid \<longrightarrow> sr_step_no r \<le> int n))"

definition holds_intent :: "step_row list \<Rightarrow> string \<Rightarrow> step_intent \<Rightarrow> bool" where
  "holds_intent rows rid i =
     (in_run_id i = rid \<and> in_step_no i < 2 ^ 63 \<and> in_attempt i < 2 ^ 63 - 1 \<and> opaque_kind (in_kind i) \<and>
      at_step rows rid (in_step_no i) \<and>
      (\<exists>r. latest_of rows rid (int (in_step_no i)) = Some r \<and> sr_attempt r = int (in_attempt i) \<and>
         sr_outcome r = Some ''started''))"

definition worker_inv :: "string \<Rightarrow> worker \<Rightarrow> bool" where
  "worker_inv rid w =
     (let rows = rdb_steps (wk_db w); eff = wk_effects w in
      run_journal rows rid \<and> distinct eff \<and> (\<forall>n\<in>set eff. blocked rows rid n) \<and>
      (case wk_phase w of
         Idle \<Rightarrow> True
       | Ready n \<Rightarrow> at_step rows rid n \<and> (\<forall>m\<in>set eff. m < n)
       | Begun i \<Rightarrow> holds_intent rows rid i \<and> (\<forall>m\<in>set eff. m < in_step_no i)
       | Ran i \<Rightarrow> holds_intent rows rid i \<and> (\<forall>m\<in>set eff. m \<le> in_step_no i)))"

lemma opaque_needs_review: "opaque_kind (in_kind i) \<Longrightarrow> reconcile_orphan E i = VNeedsReview"
  by (auto simp: reconcile_orphan_def)

lemma resume_scan_opaque:
  "\<forall>s\<in>set ss. opaque_kind (st_kind s) \<Longrightarrow> preserves (same_steps rows) (resume_scan E ss c n)"
proof (induction ss arbitrary: c n)
  case (Cons s ss)
  have "reconcile_orphan E (intent_of_step s) = VNeedsReview"
    using Cons.prems by (intro opaque_needs_review) (simp add: intent_of_step_def)
  then show ?case using Cons by (auto intro: preserves_intros)
qed (simp add: preserves_intros)

lemma resume_run_opaque:
  assumes "run_journal (rdb_steps db) rid" and "resume_run E rid db = (x, db')"
  shows "rdb_steps db' = rdb_steps db"
  using assms(2) unfolding resume_run_def
proof (rule bindS_E)
  fix e assume "latest_steps rid db = (Inl e, db')"
  then show ?thesis by (rule steps_unchanged [OF latest_steps_steps])
next
  fix ss db1
  let ?park = "\<lambda>nr. if nr \<noteq> None then bindS (mark_needs_review rid) (\<lambda>_. retS ()) else retS ()"
  assume 1: "latest_steps rid db = (Inr ss, db1)"
    and 2: "bindS (resume_scan E ss [] 0) (\<lambda>(c, fi, nr). bindS (?park nr) (\<lambda>_.
      retS \<lparr>rp_run_id = rid, rp_completed = c, rp_first_incomplete_step_no = fi, rp_needs_review_step_no = nr\<rparr>)) db1 = (x, db')"
  have "ss = map step_of_row (latest_rows db rid)"
    using 1 by (cases db rule: sql_stmt_cases)
      (auto simp: latest_steps_def runs_stmt_def sm_simps latest_rows_def)
  then have op: "\<forall>s\<in>set ss. opaque_kind (st_kind s)"
    using assms(1) by (auto simp: run_journal_def set_latest_rows step_of_row_def)
  have K: "preserves (same_steps (rdb_steps db1)) (bindS (resume_scan E ss [] 0) (\<lambda>(c, fi, nr). bindS (?park nr) (\<lambda>_.
      retS \<lparr>rp_run_id = rid, rp_completed = c, rp_first_incomplete_step_no = fi, rp_needs_review_step_no = nr\<rparr>)))"
    by (intro preserves_intros resume_scan_opaque [OF op])
  show ?thesis using steps_unchanged [OF K 2] steps_unchanged [OF latest_steps_steps 1] by simp
qed

lemma settled_snoc:
  assumes "settled rows rid m" "m \<le> n" "sr_run_id r = rid" "sr_step_no r = int n"
    and "\<forall>q\<in>set rows. sr_run_id q = sr_run_id r \<and> sr_step_no q = sr_step_no r \<longrightarrow> sr_attempt q < sr_attempt r"
  shows "settled (rows @ [r]) rid m"
  using assms(1-4) by (simp add: settled_def latest_of_snoc [OF assms(5)])

lemma run_journal_snoc:
  assumes "run_journal rows rid" "at_step rows rid n"
    and r: "sr_run_id r = rid" "sr_step_no r = int n" "opaque_kind (kind_of_text (sr_kind r))"
    and "\<forall>q\<in>set rows. sr_run_id q = sr_run_id r \<and> sr_step_no q = sr_step_no r \<longrightarrow> sr_attempt q < sr_attempt r"
    and "journal_ok (rows @ [r])" "columns_ok (rows @ [r])"
  shows "run_journal (rows @ [r]) rid \<and> at_step (rows @ [r]) rid n"
proof -
  have "settled (rows @ [r]) rid (nat (sr_step_no q))" if "q \<in> set rows" "sr_run_id q = rid" for q
  proof (rule settled_snoc [OF _ _ r(1, 2) assms(6)])
    show "settled rows rid (nat (sr_step_no q))" using assms(1) that by (simp add: run_journal_def)
    show "nat (sr_step_no q) \<le> n" using assms(2) that by (auto simp: at_step_def)
  qed
  moreover have "settled (rows @ [r]) rid n"
    using settled_snoc [OF _ le_refl r(1, 2) assms(6)] assms(2) by (simp add: at_step_def)
  ultimately show ?thesis using assms by (auto simp: run_journal_def at_step_def)
qed

lemma blocked_snoc:
  assumes "blocked rows rid m" "m \<noteq> n" "sr_run_id r = rid" "sr_step_no r = int n"
    and "\<forall>q\<in>set rows. sr_run_id q = sr_run_id r \<and> sr_step_no q = sr_step_no r \<longrightarrow> sr_attempt q < sr_attempt r"
  shows "blocked (rows @ [r]) rid m"
  using assms(1-4) by (simp add: blocked_def latest_of_snoc [OF assms(5)])

lemma resume_at_step:
  assumes "run_journal rows rid" "plan_ok E rows rid c (Some n) nr" "\<forall>m\<in>set eff. blocked rows rid m"
  shows "at_step rows rid n \<and> (\<forall>m\<in>set eff. m < n)"
proof -
  have st: "settled rows rid n" and me: "may_execute E rows rid n"
    using assms(2) by (auto simp: plan_ok_def split: option.splits)
  have nex: "\<not> (\<exists>r. latest_of rows rid (int n) = Some r \<and> executed r)"
    using me by (auto simp: may_execute_def)
  have below: "sr_step_no r \<le> int n" if "r \<in> set rows" "sr_run_id r = rid" for r
  proof (rule ccontr)
    assume "\<not> sr_step_no r \<le> int n"
    then have "n < nat (sr_step_no r)" by simp
    then show False using assms(1) that nex by (auto simp: run_journal_def settled_def)
  qed
  have "m < n" if mem: "m \<in> set eff" for m
  proof -
    obtain r where r: "latest_of rows rid (int m) = Some r"
        "executed r \<or> sr_outcome r = Some ''ambiguous'' \<or> sr_outcome r = Some ''started''"
      using assms(3) mem by (auto simp: blocked_def)
    have "m \<le> n" using below latest_of_SomeD [OF r(1)] by force
    moreover have "m \<noteq> n"
    proof
      assume "m = n"
      have "opaque_kind (in_kind (intent_of_row r))"
        using assms(1) latest_of_SomeD [OF r(1)] by (simp add: run_journal_def intent_of_row_def)
      then have "reconcile_orphan E (intent_of_row r) = VNeedsReview" by (rule opaque_needs_review)
      then show False using me r \<open>m = n\<close> by (simp add: may_execute_def)
    qed
    ultimately show ?thesis by simp
  qed
  then show ?thesis using st below by (simp add: at_step_def)
qed

lemma begin_inv:
  assumes "run_journal (rdb_steps db) rid" "at_step (rdb_steps db) rid n" "\<forall>m\<in>set eff. blocked (rdb_steps db) rid m \<and> m < n"
    and "opaque_kind k" "n < 2 ^ 63" and "columns_ok (rdb_steps db')"
    and "begin_step_with_hint rid n k ih hint db = (x, db')"
  shows "run_journal (rdb_steps db') rid" and "\<forall>m\<in>set eff. blocked (rdb_steps db') rid m"
    and "x = Inr i \<Longrightarrow> in_attempt i < 2 ^ 63 - 1 \<Longrightarrow> holds_intent (rdb_steps db') rid i \<and> in_step_no i = n"
proof -
  have jo: "journal_ok (rdb_steps db)" using assms(1) by (simp add: run_journal_def)
  have "run_journal (rdb_steps db') rid \<and> (\<forall>m\<in>set eff. blocked (rdb_steps db') rid m) \<and>
    (x = Inr i \<and> in_attempt i < 2 ^ 63 - 1 \<longrightarrow> holds_intent (rdb_steps db') rid i \<and> in_step_no i = n)"
    using begin_step_effect [OF jo assms(5, 7)] unfolding Let_def
  proof (elim disjE exE conjE)
    assume "rdb_steps db' = rdb_steps db" "\<not> is_ok x"
    then show ?thesis using assms(1, 3) by auto
  next
    fix a now
    let ?r = "started_row rid n k ih hint a now"
    assume a: "0 \<le> a" "rdb_steps db' = rdb_steps db @ [?r]" "journal_ok (rdb_steps db')"
      "\<forall>q\<in>set (rdb_steps db). sr_run_id q = rid \<and> sr_step_no q = int n \<longrightarrow> sr_attempt q < a"
      "is_ok x \<longrightarrow> x = Inr \<lparr>in_run_id = rid, in_step_no = n, in_attempt = nat a, in_kind = k, in_input_hash = ih, in_reconcile_hint = hint\<rparr>"
    have r: "sr_run_id ?r = rid" "sr_step_no ?r = int n" "sr_attempt ?r = a" "sr_outcome ?r = Some ''started''"
        "kind_of_text (sr_kind ?r) = k"
      using assms(5) by (simp_all add: started_row_def as_i64_def outcome_consts kind_of_text_def skc.parse_as_str)
    have lt: "\<forall>q\<in>set (rdb_steps db). sr_run_id q = sr_run_id ?r \<and> sr_step_no q = sr_step_no ?r \<longrightarrow> sr_attempt q < sr_attempt ?r"
      using a(4) r by simp
    have j: "run_journal (rdb_steps db') rid \<and> at_step (rdb_steps db') rid n"
      unfolding a(2) using run_journal_snoc [OF assms(1, 2) r(1, 2) _ lt] r(5) assms(4, 6) a(2, 3) by simp
    moreover have "\<forall>m\<in>set eff. blocked (rdb_steps db') rid m"
      unfolding a(2) using assms(3) blocked_snoc [OF _ _ r(1, 2) lt] by blast
    moreover have "latest_of (rdb_steps db') rid (int n) = Some ?r"
      unfolding a(2) using latest_of_snoc [OF lt] r by simp
    ultimately show ?thesis using a(1, 5) r assms(4, 5) by (auto simp: holds_intent_def)
  qed
  then show "run_journal (rdb_steps db') rid" and "\<forall>m\<in>set eff. blocked (rdb_steps db') rid m"
    and "x = Inr i \<Longrightarrow> in_attempt i < 2 ^ 63 - 1 \<Longrightarrow> holds_intent (rdb_steps db') rid i \<and> in_step_no i = n" by auto
qed

lemma complete_inv:
  assumes "run_journal (rdb_steps db) rid" "holds_intent (rdb_steps db) rid i"
    and eff: "\<forall>m\<in>set eff. blocked (rdb_steps db) rid m \<and> m \<le> in_step_no i"
    and oc: "in_step_no i \<in> set eff \<Longrightarrow> \<not> is_never_ran oc"
    and "complete_step E i oc out db = (x, db')"
  shows "run_journal (rdb_steps db') rid" and "\<forall>m\<in>set eff. blocked (rdb_steps db') rid m"
    and "is_ok x \<Longrightarrow> is_executed oc \<Longrightarrow> at_step (rdb_steps db') rid (Suc (in_step_no i))"
proof -
  let ?n = "in_step_no i"
  have jo: "journal_ok (rdb_steps db)" using assms(1) by (simp add: run_journal_def)
  obtain r where h: "in_run_id i = rid" "?n < 2 ^ 63" "in_attempt i < 2 ^ 63 - 1" "opaque_kind (in_kind i)"
      "at_step (rdb_steps db) rid ?n" "latest_of (rdb_steps db) rid (int ?n) = Some r" "sr_attempt r = int (in_attempt i)"
    using assms(2) by (auto simp: holds_intent_def)
  have b: "in_attempt i < 2 ^ 63" using h(3) by simp
  have "latest_of (rdb_steps db) (in_run_id i) (int ?n) = Some r" using h(1, 6) by simp
  from complete_latest_effect [OF jo this h(7, 2) b assms(5)]
  have "run_journal (rdb_steps db') rid \<and> (\<forall>m\<in>set eff. blocked (rdb_steps db') rid m) \<and>
    (is_ok x \<and> is_executed oc \<longrightarrow> at_step (rdb_steps db') rid (Suc ?n))"
  proof (elim disjE exE conjE)
    assume "rdb_steps db' = rdb_steps db" "\<not> is_ok x"
    then show ?thesis using assms(1) eff by auto
  next
    fix now
    let ?o = "outcome_row i oc out now"
    assume a: "rdb_steps db' = rdb_steps db @ [?o]" "journal_ok (rdb_steps db')"
      and lat: "\<forall>rid' sno. latest_of (rdb_steps db') rid' sno =
        (if rid' = in_run_id i \<and> sno = int ?n then Some ?o else latest_of (rdb_steps db) rid' sno)"
    have o: "sr_run_id ?o = rid" "sr_step_no ?o = int ?n" "sr_attempt ?o = sr_attempt r + 1"
        "kind_of_text (sr_kind ?o) = in_kind i" "sr_outcome ?o = Some (outcome_str oc)"
      using h b by (simp_all add: outcome_row_def as_i64_def kind_of_text_def skc.parse_as_str)
    have lt: "\<forall>q\<in>set (rdb_steps db). sr_run_id q = sr_run_id ?o \<and> sr_step_no q = sr_step_no ?o \<longrightarrow> sr_attempt q < sr_attempt ?o"
      using latest_of_SomeD [OF h(6)] o(1-3) by (auto simp: is_latest_def)
    have "sr_attempt ?o < 2 ^ 63" using o(3) h(3, 7) by simp
    then have "columns_ok (rdb_steps db')"
      using assms(1) o(2) h(2) a(1) by (simp add: columns_ok_def run_journal_def)
    then have j: "run_journal (rdb_steps db') rid \<and> at_step (rdb_steps db') rid ?n"
      unfolding a(1) using run_journal_snoc [OF assms(1) h(5) o(1, 2) _ lt] o(4) h(4) a by simp
    have "blocked (rdb_steps db') rid m" if "m \<in> set eff" for m
      using eff oc that lat h(1) o(5)
      by (cases oc; cases "m = ?n") (auto simp: blocked_def executed_def outcome_consts)
    moreover have "at_step (rdb_steps db') rid (Suc ?n)" if "is_executed oc"
      using j that lat h(1) o(5) by (cases oc) (auto simp: at_step_def settled_Suc executed_def outcome_consts)
    ultimately show ?thesis using j by blast
  qed
  then show "run_journal (rdb_steps db') rid" and "\<forall>m\<in>set eff. blocked (rdb_steps db') rid m"
    and "is_ok x \<Longrightarrow> is_executed oc \<Longrightarrow> at_step (rdb_steps db') rid (Suc ?n)" by auto
qed

lemma worker_step_inv:
  assumes "worker_step E rid w w'" and "worker_inv rid w"
  shows "worker_inv rid w'"
  using assms
proof (induction rule: worker_step.induct)
  case (wk_resume w p db')
  have j: "run_journal (rdb_steps (wk_db w)) rid" using wk_resume by (simp add: worker_inv_def Let_def)
  then have same: "rdb_steps db' = rdb_steps (wk_db w)" using resume_run_opaque wk_resume(2) by blast
  have "plan_ok E (rdb_steps db') rid (rp_completed p) (rp_first_incomplete_step_no p) (rp_needs_review_step_no p)"
    using resume_run_effect [OF _ _ wk_resume(2)] j by (simp add: run_journal_def)
  then show ?case using wk_resume j same
    by (auto simp: worker_inv_def Let_def split: option.splits dest: resume_at_step)
next
  case (wk_resume_err w e db')
  then show ?case using resume_run_opaque [of "wk_db w" rid E "Inl e" db'] by (simp add: worker_inv_def Let_def)
next
  case (wk_begin w n k ih hint i db')
  then show ?case
    using begin_inv(1, 2) [of "wk_db w" rid n "wk_effects w" k db' ih hint "Inr i"]
      begin_inv(3) [of "wk_db w" rid n "wk_effects w" k db' ih hint "Inr i" i] by (simp add: worker_inv_def Let_def)
next
  case (wk_begin_err w n k ih hint e db')
  then show ?case
    using begin_inv(1, 2) [of "wk_db w" rid n "wk_effects w" k db' ih hint "Inl e"]
    by (simp add: worker_inv_def Let_def)
next
  case (wk_execute w i)
  have "blocked (rdb_steps (wk_db w)) rid (in_step_no i)"
    using wk_execute by (auto simp: worker_inv_def Let_def holds_intent_def blocked_def)
  then show ?case using wk_execute by (auto simp: worker_inv_def Let_def)
next
  case (wk_complete w i oc out x db')
  have i: "run_journal (rdb_steps (wk_db w)) rid" "holds_intent (rdb_steps (wk_db w)) rid i"
      "\<forall>m\<in>set (wk_effects w). blocked (rdb_steps (wk_db w)) rid m \<and> m \<le> in_step_no i" "distinct (wk_effects w)"
    using wk_complete by (simp_all add: worker_inv_def Let_def)
  note c = complete_inv [OF i(1-3) _ wk_complete(3)]
  show ?case using c wk_complete(2) i(3, 4) by (auto simp: worker_inv_def Let_def less_Suc_eq_le)
next
  case (wk_refused w i oc out x db')
  have i: "run_journal (rdb_steps (wk_db w)) rid" "holds_intent (rdb_steps (wk_db w)) rid i"
      "\<forall>m\<in>set (wk_effects w). blocked (rdb_steps (wk_db w)) rid m \<and> m < in_step_no i" "distinct (wk_effects w)"
    using wk_refused by (simp_all add: worker_inv_def Let_def)
  then have "\<forall>m\<in>set (wk_effects w). blocked (rdb_steps (wk_db w)) rid m \<and> m \<le> in_step_no i" by auto
  note c = complete_inv [OF i(1, 2) this _ wk_refused(3)]
  show ?case using c i(3, 4) by (auto simp: worker_inv_def Let_def)
next
  case (wk_crash w)
  then show ?case by (simp add: worker_inv_def Let_def)
next
  case (wk_other db' w)
  then show ?case by (simp add: worker_inv_def Let_def)
qed

section \<open>Helpers for the properties\<close>

lemma runs_stmt_empty: "sc_script db = [] \<Longrightarrow> runs_stmt db = (Inr (sc_now db), db)"
  by (simp add: runs_stmt_def map_errS_def sql_stmt_def)

lemma resume_scan_opaque_ok:
  "\<forall>s\<in>set ss. opaque_kind (st_kind s) \<Longrightarrow> \<exists>y. resume_scan E ss c n db = (Inr y, db)"
proof (induction ss arbitrary: c n)
  case (Cons s ss)
  have "reconcile_orphan E (intent_of_step s) = VNeedsReview"
    using Cons.prems by (intro opaque_needs_review) (simp add: intent_of_step_def)
  then show ?case using Cons by (simp add: retS_def)
qed (simp add: retS_def)

lemma latest_rows_set_card:
  assumes "pk_ok step_key (rdb_steps db)"
  shows "steps_used db rid = card {r \<in> set (rdb_steps db). sr_run_id r = rid \<and> is_latest (rdb_steps db) r \<and> decided r}"
proof -
  have "distinct (latest_rows db rid)"
    using assms by (simp add: pk_ok_def distinct_map latest_rows_def)
  then have "steps_used db rid = card (set (filter decided (latest_rows db rid)))"
    unfolding steps_used_def by (simp only: distinct_card distinct_filter)
  also have "set (filter decided (latest_rows db rid)) =
      {r \<in> set (rdb_steps db). sr_run_id r = rid \<and> is_latest (rdb_steps db) r \<and> decided r}"
    by (auto simp: set_latest_rows)
  finally show ?thesis .
qed

lemma steps_used_snoc:
  assumes "pk_ok step_key (rdb_steps db')" "rdb_steps db' = rdb_steps db @ [r]"
  shows "steps_used db' rid \<le> Suc (steps_used db rid)"
proof -
  let ?D = "\<lambda>rows. {r \<in> set rows. sr_run_id r = rid \<and> is_latest rows r \<and> decided r}"
  have pk: "pk_ok step_key (rdb_steps db)" using assms by simp
  have "?D (rdb_steps db') \<subseteq> insert r (?D (rdb_steps db))"
    unfolding assms(2) by (auto simp: is_latest_def)
  then have "card (?D (rdb_steps db')) \<le> card (insert r (?D (rdb_steps db)))" by (intro card_mono) auto
  also have "\<dots> \<le> Suc (card (?D (rdb_steps db)))" by (simp add: card_insert_if)
  finally show ?thesis using latest_rows_set_card [OF pk] latest_rows_set_card [OF assms(1)] by simp
qed

definition same_run_data :: "run_row list \<Rightarrow> step_row list \<Rightarrow> runs_db \<Rightarrow> bool" where
  "same_run_data rs ss db = (rdb_runs db = rs \<and> rdb_steps db = ss)"

lemma runs_stmt_data [preserves_intros]: "preserves (same_run_data rs ss) runs_stmt"
  unfolding runs_stmt_def by (intro preserves_intros) (simp add: same_run_data_def)

lemma get_run_data: "preserves (same_run_data rs ss) (get_run rid)"
  unfolding get_run_def with_progress_def step_progress_def by (intro preserves_intros)

lemma get_run_reads:
  assumes "get_run rid db = (Inr u, db1)"
  shows "rdb_runs db1 = rdb_runs db \<and> rdb_steps db1 = rdb_steps db"
    and "\<exists>r. row_at rr_id (rdb_runs db) rid = Some r \<and> ru_budgets u = rr_budgets r \<and> ru_state u = ru_state (row_to_run r)"
proof -
  show "rdb_runs db1 = rdb_runs db \<and> rdb_steps db1 = rdb_steps db"
    using preservesD [OF get_run_data [of "rdb_runs db" "rdb_steps db"] _ assms] by (simp add: same_run_data_def)
  have wp: "ru_budgets u = rr_budgets r \<and> ru_state u = ru_state (row_to_run r)"
    if "with_progress (row_to_run r) db' = (Inr u, db1)" for r db'
    using that by (auto simp: with_progress_def retS_def row_to_run_def elim!: bindS_E)
  show "\<exists>r. row_at rr_id (rdb_runs db) rid = Some r \<and> ru_budgets u = rr_budgets r \<and> ru_state u = ru_state (row_to_run r)"
    using assms unfolding get_run_def
    by (cases db rule: sql_stmt_cases)
      (auto simp: runs_stmt_def bindS_def map_errS_def getS_def throwS_def split: option.splits dest: wp)
qed

lemma budget_exceeded_err: "\<not> is_ok (fst (budget_exceeded rid s b db))"
  by (auto simp: budget_exceeded_def bindS_def okS_def throwS_def split: prod.splits sum.splits)

lemma budget_guard:
  assumes "bindS runs_stmt (\<lambda>_. bindS (getS f) (\<lambda>used. if used + 1 > m then budget_exceeded rid s b else retS ())) db = (Inr u, db')"
    and f: "\<And>sc t. f (db\<lparr>sc_script := sc, sc_now := t\<rparr>) = f db"
  shows "f db < (m :: nat) \<and> rdb_runs db' = rdb_runs db \<and> rdb_steps db' = rdb_steps db"
proof (cases db rule: sql_stmt_cases)
  case (ok sc t)
  then have "(if f db + 1 > m then budget_exceeded rid s b else retS ()) (db\<lparr>sc_script := sc, sc_now := t\<rparr>) = (Inr u, db')"
    using assms by (simp add: runs_stmt_def map_errS_def bindS_def getS_def)
  then show ?thesis
    using budget_exceeded_err [of rid s b "db\<lparr>sc_script := sc, sc_now := t\<rparr>"]
    by (cases "f db + 1 > m") (auto simp: retS_def)
qed (use assms(1) in \<open>simp add: runs_stmt_def map_errS_def bindS_def\<close>)

lemma used_env [simp]:
  "steps_used (db\<lparr>sc_script := sc, sc_now := t\<rparr>) rid = steps_used db rid"
  "tool_calls_used (db\<lparr>sc_script := sc, sc_now := t\<rparr>) rid = tool_calls_used db rid"
  by (simp_all add: steps_used_def latest_rows_def tool_calls_used_def)

lemma used_cong:
  "rdb_steps db = rdb_steps db' \<Longrightarrow> steps_used db rid = steps_used db' rid"
  "rdb_steps db = rdb_steps db' \<Longrightarrow> tool_calls_used db rid = tool_calls_used db' rid"
  by (simp_all add: steps_used_def latest_rows_def tool_calls_used_def)

lemma check_budgets_ok:
  assumes "check_budgets E rid kind oc db = (Inr u, db')" and "row_at rr_id (rdb_runs db) rid = Some r"
  shows "bu_max_steps (budgets_parse E (rr_budgets r)) = Some m \<Longrightarrow> steps_used db rid < m"
    and "bu_max_tool_calls (budgets_parse E (rr_budgets r)) = Some m' \<Longrightarrow> counts_as_tool_call kind \<Longrightarrow>
      oc \<in> {''executed_ok'', ''executed_failed'', ''ambiguous''} \<Longrightarrow> tool_calls_used db rid < m'"
proof -
  let ?b = "budgets_parse E (rr_budgets r)"
  let ?calls = "counts_as_tool_call kind \<and> oc \<in> set [''executed_ok'', ''executed_failed'', ''ambiguous'']"
  obtain v db1 where g: "get_run rid db = (Inr v, db1)"
      and c: "bindS (tool_budget (budgets_parse E (ru_budgets v)) ?calls rid (ru_state v)) (\<lambda>_.
        bindS (step_budget (budgets_parse E (ru_budgets v)) rid (ru_state v)) (\<lambda>_.
        time_budget (budgets_parse E (ru_budgets v)) rid (ru_state v) (ru_created_at_ms v))) db1 = (Inr u, db')"
    using assms(1) unfolding check_budgets_def Let_def by (rule bindS_E) simp_all
  note gd = get_run_reads [OF g]
  have v: "ru_budgets v = rr_budgets r" using gd(2) assms(2) by auto
  obtain u1 db2 where A: "tool_budget ?b ?calls rid (ru_state v) db1 = (Inr u1, db2)"
      and c2: "bindS (step_budget ?b rid (ru_state v)) (\<lambda>_. time_budget ?b rid (ru_state v) (ru_created_at_ms v)) db2 = (Inr u, db')"
    using c unfolding v by (rule bindS_E) simp_all
  obtain u2 db3 where B: "step_budget ?b rid (ru_state v) db2 = (Inr u2, db3)"
    using c2 by (rule bindS_E) simp_all
  have a: "rdb_steps db2 = rdb_steps db \<and> (bu_max_tool_calls ?b = Some m' \<and> ?calls \<longrightarrow> tool_calls_used db rid < m')"
    using A gd(1) budget_guard [of "\<lambda>db. tool_calls_used db rid" _ rid "ru_state v" "''max_tool_calls''" db1 u1 db2]
      used_cong(2) [of db1 db rid]
    by (auto simp: tool_budget_def retS_def split: option.splits if_splits)
  moreover have "bu_max_steps ?b = Some m \<longrightarrow> steps_used db rid < m"
    using B a budget_guard [of "\<lambda>db. steps_used db rid" m rid "ru_state v" "''max_steps''" db2 u2 db3]
      used_cong(1) [of db2 db rid]
    by (auto simp: step_budget_def)
  ultimately show "bu_max_steps ?b = Some m \<Longrightarrow> steps_used db rid < m"
    and "bu_max_tool_calls ?b = Some m' \<Longrightarrow> counts_as_tool_call kind \<Longrightarrow>
      oc \<in> {''executed_ok'', ''executed_failed'', ''ambiguous''} \<Longrightarrow> tool_calls_used db rid < m'" by auto
qed

lemma outcome_counts:
  "\<not> is_never_ran oc \<Longrightarrow> outcome_str oc \<in> {''executed_ok'', ''executed_failed'', ''ambiguous''}"
  by (cases oc) (auto simp: outcome_consts)

lemma runs_stmt_err: "runs_stmt db = (Inl e, db') \<Longrightarrow> e = RunsSql"
  by (cases db rule: sql_stmt_cases) (auto simp: runs_stmt_def map_errS_def)

lemma touch_run_err: "touch_run rid db = (Inl e, db') \<Longrightarrow> e = RunsSql"
  by (auto simp: touch_run_def modifyS_def dest: runs_stmt_err elim!: bindS_E)

lemma fsync_db_err: "fsync_db db = (Inl e, db') \<Longrightarrow> e = RunsSql"
  by (auto simp: fsync_db_def retS_def dest: runs_stmt_err elim!: bindS_E)

lemma insert_step_err: "insert_step r db = (Inl e, db') \<Longrightarrow> e = RunsSql"
  using insert_step_effect by fastforce

lemma complete_step_budget_err:
  assumes "complete_step E i oc out db = (Inl (BudgetExceeded rid b), db')"
  shows "rdb_steps db' = rdb_steps db"
  using assms unfolding complete_step_def
proof (rule bindS_E)
  fix e assume "check_budgets E (in_run_id i) (in_kind i) (outcome_str oc) db = (Inl e, db')"
  then show ?thesis by (rule steps_unchanged [OF check_budgets_steps])
next
  fix u db1
  let ?K = "bindS fsync_db (\<lambda>_. touch_run (in_run_id i))"
  assume "bindS runs_stmt (\<lambda>now. bindS (insert_step \<lparr>sr_run_id = in_run_id i,
       sr_step_no = as_i64 (in_step_no i), sr_attempt = as_i64 (in_attempt i) + 1, sr_kind = step_kind_str (in_kind i),
       sr_input_hash = in_input_hash i, sr_output = out, sr_outcome = Some (outcome_str oc),
       sr_review_id = None, sr_ts_ms = now, sr_reconcile_hint = in_reconcile_hint i\<rparr>) (\<lambda>_. ?K)) db1 =
    (Inl (BudgetExceeded rid b), db')"
  then show ?thesis
    by (auto elim!: bindS_E dest: runs_stmt_err insert_step_err fsync_db_err touch_run_err)
qed

lemma get_run_empty:
  assumes "sc_script db = []" and "row_at rr_id (rdb_runs db) rid = Some r"
  shows "\<exists>v. get_run rid db = (Inr v, db) \<and> ru_state v = ru_state (row_to_run r)"
  using assms by (simp add: get_run_def with_progress_def step_progress_def sm_simps runs_stmt_empty row_to_run_def)

lemma transition_runs:
  assumes "transition rid s t db = (x, db')" and "row_at rr_id (rdb_runs db) rid = Some r"
    and "pk_ok rr_id (rdb_runs db)" and "rr_state r \<noteq> run_state_str s"
  shows "rdb_runs db' = rdb_runs db"
proof -
  have "row_count (\<lambda>q. rr_id q = rid \<and> rr_state q = run_state_str s) (rdb_runs db) = 0"
    using row_count_key [OF assms(3)] assms(2,4) by simp
  then show ?thesis
    using assms(1) by (cases db rule: sql_stmt_cases)
      (auto simp: transition_def runs_stmt_def sm_simps Let_def row_update_id)
qed

lemma transition_empty:
  assumes "sc_script db = []" and "pk_ok rr_id (rdb_runs db)"
    and "row_at rr_id (rdb_runs db) rid = Some r" and "rr_state r = run_state_str s"
  shows "\<exists>db'. transition rid s t db = (Inr True, db') \<and> sc_script db' = [] \<and> rdb_steps db' = rdb_steps db \<and>
    row_at rr_id (rdb_runs db') rid = Some (r\<lparr>rr_state := run_state_str t, rr_updated_at_ms := sc_now db\<rparr>)"
proof -
  let ?f = "\<lambda>r. r\<lparr>rr_state := run_state_str t, rr_updated_at_ms := sc_now db\<rparr>"
  let ?rows = "row_update (\<lambda>r. rr_id r = rid \<and> rr_state r = run_state_str s) ?f (rdb_runs db)"
  have "row_at rr_id ?rows rid = Some (?f r)"
    using row_at_update_key [of rr_id ?f rid "\<lambda>q. rr_state q = run_state_str s" "rdb_runs db"] assms(3,4) by simp
  moreover have "transition rid s t db = (Inr True, db\<lparr>rdb_runs := ?rows\<rparr>)"
    using assms row_count_key [OF assms(2), of rid "\<lambda>q. rr_state q = run_state_str s"]
    by (simp add: transition_def runs_stmt_empty sm_simps Let_def)
  ultimately show ?thesis using assms(1) by (intro exI [of _ "db\<lparr>rdb_runs := ?rows\<rparr>"]) simp
qed

lemma budget_exceeded_empty:
  assumes "sc_script db = []" and "pk_ok rr_id (rdb_runs db)"
    and "row_at rr_id (rdb_runs db) rid = Some r" and "rr_state r = run_state_str s"
    and "budget_exceeded rid s b db = (x, db')"
  shows "map_option rr_state (row_at rr_id (rdb_runs db') rid) = Some ''FAILED''"
proof -
  obtain db1 where t: "transition rid s Failed db = (Inr True, db1)"
      "row_at rr_id (rdb_runs db1) rid = Some (r\<lparr>rr_state := run_state_str Failed, rr_updated_at_ms := sc_now db\<rparr>)"
    using transition_empty [OF assms(1-4), of Failed] by blast
  have "db' = db1" using assms(5) t(1) by (simp add: budget_exceeded_def sm_simps)
  then show ?thesis using t(2) by simp
qed

definition budget_result :: "string \<Rightarrow> run_state \<Rightarrow> runs_db \<Rightarrow> (runs_error + unit) \<times> runs_db \<Rightarrow> bool" where
  "budget_result rid s db p = (p = (Inr (), db) \<or> (\<exists>e n. p = budget_exceeded rid s n db \<and> fst p = Inl e))"

lemma budget_result_exceeded: "budget_result rid s db (budget_exceeded rid s n db)"
  using budget_exceeded_err [of rid s n db]
  by (cases "fst (budget_exceeded rid s n db)") (auto simp: budget_result_def)

lemma budgets_empty:
  assumes "sc_script db = []"
  shows "budget_result rid s db (tool_budget b c rid s db)"
    and "budget_result rid s db (step_budget b rid s db)"
    and "budget_result rid s db (time_budget b rid s t db)"
  using runs_stmt_empty [OF assms] budget_result_exceeded
  by (auto simp: tool_budget_def step_budget_def time_budget_def sm_simps Let_def budget_result_def
      split: option.splits)

lemma budget_result_bind:
  "budget_result rid s db (m db) \<Longrightarrow> budget_result rid s db (k () db) \<Longrightarrow> budget_result rid s db (bindS m k db)"
proof (cases "m db")
  case (Pair y db1)
  assume m: "budget_result rid s db (m db)" and k: "budget_result rid s db (k () db)"
  show ?thesis
  proof (cases y)
    case (Inl e)
    then have "bindS m k db = m db" using Pair by (simp add: bindS_def)
    then show ?thesis using m by simp
  next
    case (Inr u)
    then have "m db = (Inr (), db)" using m Pair by (auto simp: budget_result_def)
    then show ?thesis using k by (simp add: bindS_def)
  qed
qed

lemma check_budgets_empty:
  assumes "sc_script db = []" and "row_at rr_id (rdb_runs db) rid = Some r"
    and "check_budgets E rid k oc db = (Inl e, db')"
  shows "\<exists>n. budget_exceeded rid (ru_state (row_to_run r)) n db = (Inl e, db')"
proof -
  obtain v where v: "get_run rid db = (Inr v, db)" "ru_state v = ru_state (row_to_run r)"
    using get_run_empty [OF assms(1,2)] by blast
  let ?c = "counts_as_tool_call k \<and> oc \<in> set [''executed_ok'', ''executed_failed'', ''ambiguous'']"
  have "bindS (tool_budget (budgets_parse E (ru_budgets v)) ?c rid (ru_state v)) (\<lambda>_.
      bindS (step_budget (budgets_parse E (ru_budgets v)) rid (ru_state v)) (\<lambda>_.
      time_budget (budgets_parse E (ru_budgets v)) rid (ru_state v) (ru_created_at_ms v))) db = (Inl e, db')"
    using assms(3) v(1) by (simp add: check_budgets_def bindS_def Let_def)
  moreover have "budget_result rid (ru_state v) db (bindS (tool_budget (budgets_parse E (ru_budgets v)) ?c rid (ru_state v)) (\<lambda>_.
      bindS (step_budget (budgets_parse E (ru_budgets v)) rid (ru_state v)) (\<lambda>_.
      time_budget (budgets_parse E (ru_budgets v)) rid (ru_state v) (ru_created_at_ms v))) db)"
    by (intro budget_result_bind budgets_empty assms(1))
  ultimately have "budget_result rid (ru_state v) db (Inl e, db')" by simp
  then show ?thesis by (auto simp: budget_result_def v(2) dest: sym)
qed

section \<open>Properties\<close>

text \<open>
  C1. At most once: a worker that journals an intent before each side effect, crashes wherever it
  likes and resumes through \<open>resume_run\<close> never executes an opaque step twice, whatever statements
  fail and whatever operators do to the run in between. The run starts with no journal rows.
\<close>

theorem opaque_steps_run_at_most_once:
  assumes "journal_ok (rdb_steps (wk_db w))" and "columns_ok (rdb_steps (wk_db w))"
    and "\<forall>r\<in>set (rdb_steps (wk_db w)). sr_run_id r \<noteq> rid"
    and "wk_phase w = Idle" and "wk_effects w = []"
    and "(worker_step E rid)\<^sup>*\<^sup>* w w'"
  shows "distinct (wk_effects w')"
proof -
  have "worker_inv rid w"
    using assms(1-5) by (simp add: worker_inv_def run_journal_def)
  then have "worker_inv rid w'"
    using assms(6) rtranclp_invariant [where I = "worker_inv rid"] worker_step_inv by blast
  then show ?thesis by (simp add: worker_inv_def Let_def)
qed

definition ex_env :: runs_env where
  "ex_env = \<lparr>env_from_str = (\<lambda>_. None), env_to_string = (\<lambda>_. ''''), env_hint = (\<lambda>_. None),
     env_read = (\<lambda>_. None), env_sha256_hex = (\<lambda>s. s)\<rparr>"

definition ex_run_row :: "string \<Rightarrow> run_row" where
  "ex_run_row st = \<lparr>rr_id = ''run_a'', rr_parent_run = None, rr_state = st, rr_plan = '''', rr_budgets = '''',
     rr_lease_owner = None, rr_lease_generation = 0, rr_lease_expires_at = 0, rr_created_at_ms = 5,
     rr_updated_at_ms = 5\<rparr>"

definition ex_runs_db :: "run_row list \<Rightarrow> step_row list \<Rightarrow> runs_db" where
  "ex_runs_db rs ss = \<lparr>sc_script = [], sc_now = 5, rdb_runs = rs, rdb_steps = ss, rdb_events = [],
     rdb_leases = ex_lease_db [] 5, rdb_worker = ex_worker ''a'', rdb_poisoned = False\<rparr>"

definition ex_wk :: worker where
  "ex_wk = \<lparr>wk_db = ex_runs_db [ex_run_row ''QUEUED''] [], wk_phase = Idle, wk_effects = []\<rparr>"

definition ex_started :: step_row where
  "ex_started = started_row ''run_a'' 0 Tool ''h'' None 0 5"

definition ex_intent :: step_intent where
  "ex_intent = \<lparr>in_run_id = ''run_a'', in_step_no = 0, in_attempt = 0, in_kind = Tool, in_input_hash = ''h'',
     in_reconcile_hint = None\<rparr>"

lemmas runs_op_defs = runs_stmt_def sql_stmt_def sm_simps Let_def latest_steps_def latest_rows_def
  next_attempt_def attempts_of_def coalesce_max_next_def insert_step_def step_key_def fsync_db_def
  touch_run_def row_update_def is_latest_def

lemma ex_resume:
  "resume_run ex_env ''run_a'' (ex_runs_db [ex_run_row ''QUEUED''] []) =
     (Inr \<lparr>rp_run_id = ''run_a'', rp_completed = [], rp_first_incomplete_step_no = Some 0,
           rp_needs_review_step_no = None\<rparr>, ex_runs_db [ex_run_row ''QUEUED''] [])"
  by (simp add: resume_run_def ex_runs_db_def runs_op_defs)

lemma ex_begin:
  "begin_step_with_hint ''run_a'' 0 Tool ''h'' None (ex_runs_db [ex_run_row ''QUEUED''] []) =
     (Inr ex_intent, ex_runs_db [ex_run_row ''QUEUED''] [ex_started])"
  by (simp add: begin_step_with_hint_def ex_runs_db_def ex_intent_def ex_started_def started_row_def
      ex_run_row_def runs_op_defs)

lemma ex_worker_run:
  "(worker_step ex_env ''run_a'')\<^sup>*\<^sup>* ex_wk
     \<lparr>wk_db = ex_runs_db [ex_run_row ''QUEUED''] [ex_started], wk_phase = Idle, wk_effects = [0]\<rparr>"
proof -
  let ?d0 = "ex_runs_db [ex_run_row ''QUEUED''] []" and ?d1 = "ex_runs_db [ex_run_row ''QUEUED''] [ex_started]"
  have 1: "worker_step ex_env ''run_a'' ex_wk \<lparr>wk_db = ?d0, wk_phase = Ready 0, wk_effects = []\<rparr>"
    using wk_resume [of ex_wk ex_env "''run_a''"] ex_resume by (simp add: ex_wk_def)
  have 2: "worker_step ex_env ''run_a'' \<lparr>wk_db = ?d0, wk_phase = Ready 0, wk_effects = []\<rparr>
      \<lparr>wk_db = ?d1, wk_phase = Begun ex_intent, wk_effects = []\<rparr>"
    using wk_begin [of "\<lparr>wk_db = ?d0, wk_phase = Ready 0, wk_effects = []\<rparr>" 0 Tool "''run_a''" "''h''" None] ex_begin
    by (simp add: ex_intent_def columns_ok_def ex_runs_db_def ex_started_def started_row_def as_i64_def)
  have 3: "worker_step ex_env ''run_a'' \<lparr>wk_db = ?d1, wk_phase = Begun ex_intent, wk_effects = []\<rparr>
      \<lparr>wk_db = ?d1, wk_phase = Ran ex_intent, wk_effects = [0]\<rparr>"
    using wk_execute [of "\<lparr>wk_db = ?d1, wk_phase = Begun ex_intent, wk_effects = []\<rparr>" ex_intent ex_env "''run_a''"]
    by (simp add: ex_intent_def)
  have 4: "worker_step ex_env ''run_a'' \<lparr>wk_db = ?d1, wk_phase = Ran ex_intent, wk_effects = [0]\<rparr>
      \<lparr>wk_db = ?d1, wk_phase = Idle, wk_effects = [0]\<rparr>"
    using wk_crash [of ex_env "''run_a''" "\<lparr>wk_db = ?d1, wk_phase = Ran ex_intent, wk_effects = [0]\<rparr>"] by simp
  show ?thesis using 1 2 3 4 by (meson rtranclp.rtrancl_into_rtrancl rtranclp.rtrancl_refl)
qed

theorem opaque_steps_run_at_most_once_witness:
  "(worker_step ex_env ''run_a'')\<^sup>*\<^sup>* ex_wk
     \<lparr>wk_db = ex_runs_db [ex_run_row ''QUEUED''] [ex_started], wk_phase = Idle, wk_effects = [0]\<rparr> \<and>
   distinct (wk_effects \<lparr>wk_db = ex_runs_db [ex_run_row ''QUEUED''] [ex_started], wk_phase = Idle, wk_effects = [0]\<rparr>)"
  using opaque_steps_run_at_most_once [OF _ _ _ _ _ ex_worker_run] ex_worker_run
  by (simp add: ex_wk_def ex_runs_db_def journal_ok_def columns_ok_def)

text \<open>
  C15. What resuming decides: the steps handed back for replay are exactly \<open>0, ..., n - 1\<close>, each
  with an executed latest row; step \<open>n\<close> is either to be executed, and then the journal shows that it
  never ran or may safely run again, or to be reviewed, and then it is ambiguous or an orphan that
  nothing can reconcile, and the run is parked (or was already over).
\<close>

theorem resume_plan_is_sound:
  assumes "journal_ok (rdb_steps db)" and "columns_ok (rdb_steps db)"
    and "resume_run E rid db = (Inr p, db')"
  shows "\<exists>n. map st_step_no (rp_completed p) = [0..<n] \<and> settled (rdb_steps db') rid n \<and>
    (rp_first_incomplete_step_no p = Some n \<and> rp_needs_review_step_no p = None \<and> may_execute E (rdb_steps db') rid n \<or>
     rp_first_incomplete_step_no p = None \<and> rp_needs_review_step_no p = Some n \<and> must_review E (rdb_steps db') rid n \<and>
     (\<forall>r\<in>set (rdb_runs db'). rr_id r = rid \<longrightarrow> rr_state r \<in> {''NEEDS_REVIEW'', ''DONE'', ''FAILED''}))"
  using resume_run_effect [OF assms] by (auto simp: plan_ok_def split: option.splits)

theorem resume_plan_is_sound_witness:
  "\<exists>n. settled [] ''run_a'' n \<and> n = 0 \<and> (may_execute ex_env [] ''run_a'' n \<or> must_review ex_env [] ''run_a'' n)"
  using resume_plan_is_sound [OF _ _ ex_resume]
  by (auto simp: ex_runs_db_def journal_ok_def columns_ok_def)

text \<open>
  An intent has one outcome: once \<open>complete_step\<close> has recorded an outcome for an intent, every
  later attempt to record another for the same intent fails and leaves the journal as it was, whatever
  else was journalled in between.
\<close>

lemma intent_has_one_outcome:
  assumes "complete_step E i oc out db = (Inr u, db1)"
    and "step_key ` set (rdb_steps db1) \<subseteq> step_key ` set (rdb_steps db2)"
    and "complete_step E' i oc' out' db2 = (x, db3)"
  shows "\<not> is_ok x \<and> rdb_steps db3 = rdb_steps db2"
proof -
  obtain now where "rdb_steps db1 = rdb_steps db @ [outcome_row i oc out now]"
    using complete_step_grows [OF assms(1)] by auto
  then have "step_key (outcome_row i oc' out' now') \<in> step_key ` set (rdb_steps db1)" for now'
    by (auto simp: step_key_def outcome_row_def)
  then show ?thesis using complete_step_grows [OF assms(3)] assms(2) by blast
qed

definition ex_done :: step_row where
  "ex_done = outcome_row ex_intent (Executed True) (Some ''ok'') 5"

lemmas budget_defs = check_budgets_def get_run_def with_progress_def step_progress_def tool_budget_def
  step_budget_def time_budget_def budgets_parse_def row_at_def row_to_run_def

lemma ex_complete:
  "complete_step ex_env ex_intent (Executed True) (Some ''ok'') (ex_runs_db [ex_run_row ''QUEUED''] [ex_started]) =
     (Inr (), ex_runs_db [ex_run_row ''QUEUED''] [ex_started, ex_done])"
  by (simp add: complete_step_def ex_runs_db_def ex_intent_def ex_started_def ex_done_def started_row_def
      outcome_row_def ex_env_def ex_run_row_def runs_op_defs budget_defs as_i64_def decided_def outcome_consts json_simps get_u64_def json_get.simps)

text \<open>
  Crash visibility: when \<open>begin_step_with_hint\<close> has returned an intent, the journal names that
  intent among the orphans of the run until an outcome is recorded; \<open>find_orphaned_intents\<close> on a
  connection without faults returns it, with kind, input hash, hint and attempt as they were.
\<close>

lemma begun_intent_is_found:
  assumes "journal_ok (rdb_steps db)" and "sno < 2 ^ 63"
    and "begin_step_with_hint rid sno kind ih hint db = (Inr i, db1)"
    and "rdb_steps db2 = rdb_steps db1" and "sc_script db2 = []"
  shows "\<exists>is. find_orphaned_intents rid db2 = (Inr is, db2) \<and> i \<in> set is"
proof -
  obtain a now where a: "0 \<le> a" "rdb_steps db1 = rdb_steps db @ [started_row rid sno kind ih hint a now]"
      "\<forall>q\<in>set (rdb_steps db). sr_run_id q = rid \<and> sr_step_no q = int sno \<longrightarrow> sr_attempt q < a"
    and i: "i = \<lparr>in_run_id = rid, in_step_no = sno, in_attempt = nat a, in_kind = kind,
          in_input_hash = ih, in_reconcile_hint = hint\<rparr>"
    using begin_step_effect [OF assms(1-3)] by (auto simp: Let_def)
  let ?r = "started_row rid sno kind ih hint a now"
  have r: "sr_run_id ?r = rid" "sr_step_no ?r = int sno" "sr_attempt ?r = a" "sr_outcome ?r = Some ''started''"
    using assms(2) by (simp_all add: started_row_def as_i64_def OUTCOME_STARTED_def)
  have "is_latest (rdb_steps db2) ?r"
    unfolding is_latest_def assms(4) a(2) r using a(3) by (auto simp: r intro: less_imp_le)
  then have "?r \<in> set (filter (\<lambda>r. sr_outcome r = Some ''started'') (latest_rows db2 rid))"
    using a(2) r assms(4) by (simp add: set_latest_rows)
  moreover have "intent_of_row ?r = i"
    unfolding i using assms(2) a(1) by (simp add: intent_of_row_def started_row_def as_i64_def kind_of_text_def skc.parse_as_str)
  moreover have "find_orphaned_intents rid db2 =
      (Inr (map intent_of_row (filter (\<lambda>r. sr_outcome r = Some ''started'') (latest_rows db2 rid))), db2)"
    using runs_stmt_empty [OF assms(5)] by (simp add: find_orphaned_intents_def sm_simps)
  ultimately show ?thesis by force
qed

text \<open>
  C33. Budgets hold: an outcome is recorded only while the step budget and the tool-call budget of the
  run have room, so the number of decided steps never exceeds \<open>max_steps\<close>; an exceeded budget adds
  no row.
\<close>

theorem recorded_outcomes_within_budgets:
  assumes "pk_ok step_key (rdb_steps db)" and "row_at rr_id (rdb_runs db) (in_run_id i) = Some r"
    and "complete_step E i oc out db = (x, db')"
  shows "(is_ok x \<and> bu_max_steps (budgets_parse E (rr_budgets r)) = Some m \<longrightarrow> steps_used db' (in_run_id i) \<le> m) \<and>
    (is_ok x \<and> bu_max_tool_calls (budgets_parse E (rr_budgets r)) = Some m' \<and>
      counts_as_tool_call (in_kind i) \<and> \<not> is_never_ran oc \<longrightarrow> tool_calls_used db (in_run_id i) < m') \<and>
    (x = Inl (BudgetExceeded rid b) \<longrightarrow> rdb_steps db' = rdb_steps db)"
proof -
  have err: "x = Inl (BudgetExceeded rid b) \<longrightarrow> rdb_steps db' = rdb_steps db"
  proof
    assume "x = Inl (BudgetExceeded rid b)"
    with assms(3) show "rdb_steps db' = rdb_steps db" by (auto dest!: complete_step_budget_err)
  qed
  show ?thesis
  proof (cases x)
    case (Inr u)
    then obtain v db1 where c: "check_budgets E (in_run_id i) (in_kind i) (outcome_str oc) db = (Inr v, db1)"
      using assms(3) unfolding complete_step_def by (auto elim: bindS_E)
    obtain now where g: "step_key (outcome_row i oc out now) \<notin> step_key ` set (rdb_steps db)"
        "rdb_steps db' = rdb_steps db @ [outcome_row i oc out now]"
      using complete_step_grows [OF assms(3)] Inr by auto
    then have "pk_ok step_key (rdb_steps db')" using assms(1) by simp
    note used = steps_used_snoc [OF this g(2), of "in_run_id i"]
    show ?thesis
      using err used check_budgets_ok [OF c assms(2)] outcome_counts [of oc] by fastforce
  qed (use err in simp)
qed

definition ex_budget_env :: runs_env where
  "ex_budget_env = ex_env\<lparr>env_from_str := (\<lambda>s. Some (json_obj [(''max_steps'', JNum 1), (''max_tool_calls'', JNum 1)]))\<rparr>"

lemma ex_budgets:
  "budgets_parse ex_budget_env s = \<lparr>bu_max_steps = Some 1, bu_max_tool_calls = Some 1, bu_max_ms = None,
     bu_max_cost_cents = None\<rparr>"
  by (simp add: budgets_parse_def ex_budget_env_def json_simps u64_max_def)

theorem recorded_outcomes_within_budgets_witness:
  "\<not> is_ok (fst (complete_step ex_budget_env (ex_intent\<lparr>in_step_no := 1\<rparr>) (Executed True) None
     (ex_runs_db [ex_run_row ''QUEUED''] [ex_done])))"
proof (rule notI)
  let ?db = "ex_runs_db [ex_run_row ''QUEUED''] [ex_done]" and ?i = "ex_intent\<lparr>in_step_no := 1\<rparr>"
  let ?p = "complete_step ex_budget_env ?i (Executed True) None ?db"
  have d: "pk_ok step_key (rdb_steps ?db)" "row_at rr_id (rdb_runs ?db) (in_run_id ?i) = Some (ex_run_row ''QUEUED'')"
    by (simp_all add: ex_runs_db_def ex_intent_def ex_run_row_def row_at_def pk_ok_def)
  assume "is_ok (fst ?p)"
  then have "tool_calls_used ?db (in_run_id ?i) < 1"
    using recorded_outcomes_within_budgets [OF d prod.collapse [symmetric], of ex_budget_env "Executed True" None _ 1]
    by (simp add: ex_budgets ex_intent_def)
  then show False
    by (simp add: tool_calls_used_def ex_runs_db_def ex_done_def outcome_row_def ex_intent_def tool_kinds_def
        is_latest_def outcome_consts)
qed

text \<open>
  A finished run stays finished for its operators: pausing, cancelling and parking a run that is
  \<open>DONE\<close> or \<open>FAILED\<close> changes nothing in the run table, nor does retrying one that is \<open>DONE\<close>.
\<close>

lemma operators_keep_terminal_runs:
  assumes "pk_ok rr_id (rdb_runs db)" and "row_at rr_id (rdb_runs db) rid = Some r"
    and "rr_state r \<in> {''DONE'', ''FAILED''}"
  shows "rdb_runs (snd (pause_run E rid db)) = rdb_runs db \<and> rdb_runs (snd (cancel_run E rid db)) = rdb_runs db \<and>
    rdb_runs (snd (mark_needs_review rid db)) = rdb_runs db \<and>
    (rr_state r = ''DONE'' \<longrightarrow> rdb_runs (snd (retry_run rid db)) = rdb_runs db)"
proof -
  have got: "rdb_runs (snd (bindS (get_run rid) f db)) = rdb_runs db"
    if "\<And>v db1. ru_state v = ru_state (row_to_run r) \<Longrightarrow> f v db1 = (Inr False, db1)" for f :: "run \<Rightarrow> (runs_db, runs_error, bool) sm"
  proof (cases "get_run rid db")
    case (Pair y db1)
    have runs: "rdb_runs db1 = rdb_runs db"
      using preservesD [OF get_run_data [of "rdb_runs db" "rdb_steps db"] _ Pair] by (simp add: same_run_data_def)
    show ?thesis
    proof (cases y)
      case (Inr v)
      then have "ru_state v = ru_state (row_to_run r)"
        using get_run_reads(2) [of rid db v db1] Pair assms(2) by auto
      then show ?thesis using that [of v db1] Pair Inr runs by (simp add: bindS_def)
    qed (use Pair runs in \<open>simp add: bindS_def\<close>)
  qed
  have st: "rr_state r = ''DONE'' \<and> ru_state (row_to_run r) = Done \<or> rr_state r = ''FAILED'' \<and> ru_state (row_to_run r) = Failed"
    using assms(3) by (auto simp: row_to_run_def run_state_parse_def)
  have "row_count (\<lambda>q. rr_id q = rid \<and> rr_state q \<notin> set [''DONE'', ''FAILED'', ''NEEDS_REVIEW'']) (rdb_runs db) = 0"
    using row_count_key [OF assms(1)] assms(2,3) by auto
  then have "rdb_runs (snd (mark_needs_review rid db)) = rdb_runs db"
    by (cases db rule: sql_stmt_cases) (simp_all add: mark_needs_review_def runs_stmt_def sm_simps Let_def row_update_id)
  moreover have "rdb_runs (snd (pause_run E rid db)) = rdb_runs db"
    unfolding pause_run_def using st by (intro got) (auto simp: Let_def retS_def)
  moreover have "rdb_runs (snd (cancel_run E rid db)) = rdb_runs db"
    unfolding cancel_run_def using st by (intro got) (auto simp: Let_def retS_def)
  moreover have "rr_state r = ''DONE'' \<longrightarrow> rdb_runs (snd (retry_run rid db)) = rdb_runs db"
    unfolding retry_run_def using st by (intro impI got) (auto simp: retS_def)
  ultimately show ?thesis by simp
qed

text \<open>
  Budget exhaustion fails the run from every state, the finished ones included: when the budget
  check of an outcome reports an exceeded budget, the run is \<open>FAILED\<close> afterwards, even if it was \<open>DONE\<close>.
\<close>

lemma exceeded_budget_fails_run:
  assumes "sc_script db = []" and "pk_ok rr_id (rdb_runs db)" and "row_at rr_id (rdb_runs db) rid = Some r"
    and "run_state_parse (rr_state r) = Some s" and "check_budgets E rid k oc db = (Inl e, db')"
  shows "map_option rr_state (row_at rr_id (rdb_runs db') rid) = Some ''FAILED''"
proof -
  have s: "rr_state r = run_state_str s" "ru_state (row_to_run r) = s"
    using assms(4) rsc.as_str_parse by (auto simp: row_to_run_def)
  show ?thesis
    using check_budgets_empty [OF assms(1,3,5)] budget_exceeded_empty [OF assms(1-3) s(1)] unfolding s(2) by blast
qed

text \<open>
  Resuming a run of opaque steps returns: on a connection without faults \<open>resume_run\<close> always
  produces a plan, whatever the journal of that run holds.
\<close>

lemma resume_returns:
  assumes "run_journal (rdb_steps db) rid" and "sc_script db = []"
  shows "\<exists>p db'. resume_run E rid db = (Inr p, db')"
proof -
  have "\<forall>s\<in>set (map step_of_row (latest_rows db rid)). opaque_kind (st_kind s)"
    using assms(1) by (auto simp: run_journal_def set_latest_rows step_of_row_def)
  then obtain c fi nr where "resume_scan E (map step_of_row (latest_rows db rid)) [] 0 db = (Inr (c, fi, nr), db)"
    using resume_scan_opaque_ok by (metis prod_cases3)
  then show ?thesis
    using assms(2) by (auto simp: resume_run_def latest_steps_def mark_needs_review_def runs_stmt_empty sm_simps Let_def)
qed

text \<open>
  Claiming an unknown run fails and leaves the lease table alone, so no lease row exists for a run
  that was never created.
\<close>

lemma claim_needs_a_run:
  assumes "row_at rr_id (rdb_runs db) rid = None"
  shows "\<not> is_ok (fst (claim_run rid db)) \<and> rdb_leases (snd (claim_run rid db)) = rdb_leases db"
  using assms by (cases db; cases db rule: sql_stmt_cases) (simp_all add: claim_run_def get_run_def runs_stmt_def sm_simps)

end
