(* ===== verification/Connectors.thy ===== *)
theory Connectors
  imports Prelude "HOL-Library.AList"
begin

text \<open>
  Model of the crate \<^verbatim>\<open>supercli-connector\<close> as far as the tool gate relies on it: the manifest and its
  validation (\<^verbatim>\<open>manifest.rs\<close>), the tighten-only approval policy (\<^verbatim>\<open>policy.rs\<close>), the classification of
  failed calls (\<^verbatim>\<open>link.rs\<close>, with the errors of \<^verbatim>\<open>process.rs\<close> and \<^verbatim>\<open>http.rs\<close>) and the attachment
  record of a session (\<^verbatim>\<open>session.rs\<close>). A hash map is the association list of its entries in the order
  the map iterates. TOML parsing, semantic versions and JSON are other crates and are parameters.
\<close>

section \<open>Manifests\<close>

datatype manifest_error =
    InvalidToml string | BadConnectorSection string | BadName string | BadVersion string | BadKind string
  | BadAuthFlow string | NoTools | BadManifestToolName string | PolicyForUnknownTool string | BadPolicy string
  | MissingField string

datatype connector_kind = McpStdio | McpHttp | Builtin

datatype auth_flow = OAuth2 | ApiKey | NoAuth

record oauth_endpoints =
  oa_authorize_url :: string
  oa_token_url :: string

datatype approval_policy = Allow | Ask | Deny

text \<open>\<open>toml::Value\<close> of the uninterpreted schema table is represented by \<^typ>\<open>json\<close>; a version is its text.\<close>

record connector_manifest =
  cm_name :: string
  cm_version :: string
  cm_display_name :: string
  cm_description :: string
  cm_kind :: connector_kind
  cm_auth_flow :: auth_flow
  cm_auth_scopes :: "string list"
  cm_provides :: "string list"
  cm_policy :: "(string \<times> approval_policy) list"
  cm_config_schema :: "(string \<times> json) list"
  cm_oauth :: "oauth_endpoints option"

record raw_connector =
  rc_name :: "string option"
  rc_version :: "string option"
  rc_display_name :: "string option"
  rc_description :: "string option"
  rc_kind :: "string option"

record raw_manifest =
  rm_connector :: "raw_connector option"
  rm_auth :: "(string option \<times> string list option) option"
  rm_tools :: "string list option option"
  rm_policy :: "(string \<times> string) list option"
  rm_config_schema :: "(string \<times> json) list option"
  rm_oauth :: "(string option \<times> string option) option"

fun policy_rank :: "approval_policy \<Rightarrow> nat" where
  "policy_rank Allow = 0"
| "policy_rank Ask = 1"
| "policy_rank Deny = 2"

text \<open>The derived order \<open>Allow < Ask < Deny\<close>.\<close>

instantiation approval_policy :: linorder
begin

definition less_eq_approval_policy :: "approval_policy \<Rightarrow> approval_policy \<Rightarrow> bool" where
  "less_eq_approval_policy p q = (policy_rank p \<le> policy_rank q)"

definition less_approval_policy :: "approval_policy \<Rightarrow> approval_policy \<Rightarrow> bool" where
  "less_approval_policy p q = (policy_rank p < policy_rank q)"

instance
proof
  fix p q r :: approval_policy
  show "(p < q) = (p \<le> q \<and> \<not> q \<le> p)"
    by (auto simp: less_eq_approval_policy_def less_approval_policy_def)
  show "p \<le> p" by (simp add: less_eq_approval_policy_def)
  show "p \<le> q \<Longrightarrow> q \<le> r \<Longrightarrow> p \<le> r" by (simp add: less_eq_approval_policy_def)
  show "p \<le> q \<Longrightarrow> q \<le> p \<Longrightarrow> p = q" by (cases p; cases q) (simp_all add: less_eq_approval_policy_def)
  show "p \<le> q \<or> q \<le> p" by (auto simp: less_eq_approval_policy_def)
qed

end

lemmas policy_order_defs = less_eq_approval_policy_def less_approval_policy_def

fun policy_str :: "approval_policy \<Rightarrow> string" where
  "policy_str Allow = ''allow''"
| "policy_str Ask = ''ask''"
| "policy_str Deny = ''deny''"

definition policy_from_str :: "string \<Rightarrow> manifest_error + approval_policy" where
  "policy_from_str s =
     (if s = ''allow'' then Inr Allow
      else if s = ''ask'' then Inr Ask
      else if s = ''deny'' then Inr Deny
      else Inl (BadPolicy s))"

definition starts_with :: "char \<Rightarrow> string \<Rightarrow> bool" where
  "starts_with c s = (s \<noteq> [] \<and> hd s = c)"

definition ends_with :: "char \<Rightarrow> string \<Rightarrow> bool" where
  "ends_with c s = (s \<noteq> [] \<and> last s = c)"

definition is_valid_name :: "string \<Rightarrow> bool" where
  "is_valid_name n =
     (n \<noteq> [] \<and> list_all (\<lambda>c. is_ascii_lowercase c \<or> is_ascii_digit c \<or> c = CHR ''-'') n \<and>
      \<not> starts_with (CHR ''-'') n \<and> \<not> ends_with (CHR ''-'') n)"

definition is_valid_tool_name :: "string \<Rightarrow> bool" where
  "is_valid_tool_name n =
     (n \<noteq> [] \<and> list_all (\<lambda>seg. seg \<noteq> [] \<and>
        list_all (\<lambda>c. is_ascii_lowercase c \<or> is_ascii_digit c \<or> c = CHR ''-'') seg) (split_on (CHR ''.'') n))"

definition required :: "'a option \<Rightarrow> string \<Rightarrow> manifest_error + 'a" where
  "required v field = ok_or (MissingField field) v"

definition parse_kind :: "string \<Rightarrow> manifest_error + connector_kind" where
  "parse_kind s =
     (if s = ''mcp-stdio'' then Inr McpStdio
      else if s = ''mcp-http'' then Inr McpHttp
      else if s = ''builtin'' then Inr Builtin
      else Inl (BadKind s))"

definition parse_auth_flow :: "string \<Rightarrow> manifest_error + auth_flow" where
  "parse_auth_flow s =
     (if s = ''oauth2'' then Inr OAuth2
      else if s = ''api-key'' then Inr ApiKey
      else if s = ''none'' then Inr NoAuth
      else Inl (BadAuthFlow s))"

fun check_tool_names :: "string list \<Rightarrow> manifest_error + unit" where
  "check_tool_names [] = Inr ()"
| "check_tool_names (t # ts) = (if \<not> is_valid_tool_name t then Inl (BadManifestToolName t) else check_tool_names ts)"

fun parse_policies ::
  "string list \<Rightarrow> (string \<times> string) list \<Rightarrow> (string \<times> approval_policy) list
     \<Rightarrow> manifest_error + (string \<times> approval_policy) list" where
  "parse_policies provides [] acc = Inr acc"
| "parse_policies provides ((tool, s) # rest) acc =
     (if tool \<notin> set provides then Inl (PolicyForUnknownTool tool)
      else bindE (policy_from_str s) (\<lambda>p. parse_policies provides rest (AList.update tool p acc)))"

definition non_blank :: "string option \<Rightarrow> string option" where
  "non_blank u = Option.bind u (\<lambda>s. if trim s \<noteq> [] then Some s else None)"

definition parse_oauth :: "(string option \<times> string option) option \<Rightarrow> manifest_error + oauth_endpoints option" where
  "parse_oauth o' =
     (case o' of
        None \<Rightarrow> Inr None
      | Some (a, t) \<Rightarrow>
          bindE (ok_or (MissingField ''oauth.authorize_url'') (non_blank a)) (\<lambda>authorize_url.
          bindE (ok_or (MissingField ''oauth.token_url'') (non_blank t)) (\<lambda>token_url.
          Inr (Some \<lparr>oa_authorize_url = authorize_url, oa_token_url = token_url\<rparr>))))"

definition parse_manifest ::
  "(string \<Rightarrow> string + raw_manifest) \<Rightarrow> (string \<Rightarrow> string option) \<Rightarrow> string \<Rightarrow> manifest_error + connector_manifest" where
  "parse_manifest from_toml semver toml_str =
     bindE (case from_toml toml_str of Inl e \<Rightarrow> Inl (InvalidToml e) | Inr raw \<Rightarrow> Inr raw) (\<lambda>raw.
     bindE (ok_or (BadConnectorSection ''missing [connector]'') (rm_connector raw)) (\<lambda>connector.
     bindE (required (rc_name connector) ''connector.name'') (\<lambda>name.
     if \<not> is_valid_name name then Inl (BadName name) else
     bindE (required (rc_version connector) ''connector.version'') (\<lambda>version_str.
     bindE (ok_or (BadVersion version_str) (semver version_str)) (\<lambda>version.
     bindE (bindE (required (rc_kind connector) ''connector.kind'') parse_kind) (\<lambda>kind.
     let auth = (case rm_auth raw of None \<Rightarrow> (None, None) | Some a \<Rightarrow> a) in
     bindE (parse_auth_flow (case fst auth of None \<Rightarrow> ''none'' | Some f \<Rightarrow> f)) (\<lambda>flow.
     bindE (required (case rm_tools raw of None \<Rightarrow> None | Some t \<Rightarrow> t) ''tools.provides'') (\<lambda>provides.
     if provides = [] then Inl NoTools else
     bindE (check_tool_names provides) (\<lambda>_.
     bindE (parse_policies provides (case rm_policy raw of None \<Rightarrow> [] | Some p \<Rightarrow> p) []) (\<lambda>policy.
     bindE (parse_oauth (rm_oauth raw)) (\<lambda>oauth.
     bindE (required (rc_display_name connector) ''connector.display_name'') (\<lambda>display_name.
     bindE (required (rc_description connector) ''connector.description'') (\<lambda>description.
     Inr \<lparr>cm_name = name, cm_version = version, cm_display_name = display_name, cm_description = description,
          cm_kind = kind, cm_auth_flow = flow,
          cm_auth_scopes = (case snd auth of None \<Rightarrow> [] | Some s \<Rightarrow> s), cm_provides = provides,
          cm_policy = policy,
          cm_config_schema = (case rm_config_schema raw of None \<Rightarrow> [] | Some c \<Rightarrow> c), cm_oauth = oauth\<rparr>)))))))))))))"

definition default_policy :: "connector_manifest \<Rightarrow> string \<Rightarrow> approval_policy" where
  "default_policy m tool = (case map_of (cm_policy m) tool of None \<Rightarrow> Ask | Some p \<Rightarrow> p)"

definition effective_policy :: "connector_manifest \<Rightarrow> (string \<times> approval_policy) list \<Rightarrow> string \<Rightarrow> approval_policy" where
  "effective_policy m overrides tool =
     (let d = default_policy m tool in
      case map_of overrides tool of
        Some p \<Rightarrow> if p \<ge> d then p else d
      | None \<Rightarrow> d)"

definition silently_allowed :: "approval_policy \<Rightarrow> bool" where
  "silently_allowed p = (p = Allow)"

section \<open>Failed calls\<close>

datatype connector_error =
    Spawn string | UnsupportedKind connector_kind | Handshake string | ToolNotDeclared string
  | UnknownTool string | Mcp int string | Protocol string | Io string | Timeout

datatype http_connector_error =
    TransportSetup string | TransportMidCall string | Status nat string | HttpHandshake string
  | HttpToolNotDeclared string | HttpUnknownTool string | HttpMcp int string | HttpProtocol string | HttpNoUrl

datatype link_error = Stdio connector_error | Http http_connector_error | NoUrl string | LinkIo string

datatype call_outcome = DefiniteOk | DefiniteFailed | AmbiguousCall

fun call_outcome_of :: "link_error \<Rightarrow> bool \<Rightarrow> call_outcome" where
  "call_outcome_of (Stdio (Mcp code msg)) sent = DefiniteFailed"
| "call_outcome_of (Http (HttpMcp code msg)) sent = DefiniteFailed"
| "call_outcome_of (Stdio (UnknownTool t)) sent = DefiniteFailed"
| "call_outcome_of (Http (HttpUnknownTool t)) sent = DefiniteFailed"
| "call_outcome_of (Stdio (ToolNotDeclared t)) sent = DefiniteFailed"
| "call_outcome_of (Http (HttpToolNotDeclared t)) sent = DefiniteFailed"
| "call_outcome_of (Http (Status code body)) sent =
     (if code \<in> {400, 401, 403, 404, 409, 422} then DefiniteFailed else AmbiguousCall)"
| "call_outcome_of (Stdio (Spawn e)) sent = DefiniteFailed"
| "call_outcome_of (Stdio (UnsupportedKind k)) sent = DefiniteFailed"
| "call_outcome_of (Stdio (Handshake e)) sent = DefiniteFailed"
| "call_outcome_of (Http (HttpHandshake e)) sent = DefiniteFailed"
| "call_outcome_of (Http HttpNoUrl) sent = DefiniteFailed"
| "call_outcome_of (NoUrl d) sent = DefiniteFailed"
| "call_outcome_of (Http (TransportSetup e)) sent = (if \<not> sent then DefiniteFailed else AmbiguousCall)"
| "call_outcome_of e sent = AmbiguousCall"

fun kind_debug :: "connector_kind \<Rightarrow> string" where
  "kind_debug McpStdio = ''McpStdio''"
| "kind_debug McpHttp = ''McpHttp''"
| "kind_debug Builtin = ''Builtin''"

definition show_int :: "int \<Rightarrow> string" where
  "show_int i = (if i < 0 then ''-'' @ show_nat (nat (- i)) else show_nat (nat i))"

fun connector_error_text :: "connector_error \<Rightarrow> string" where
  "connector_error_text (Spawn e) = ''cannot spawn connector: '' @ e"
| "connector_error_text (UnsupportedKind k) = ''connector kind '' @ kind_debug k @ '' is not runnable by this spawner''"
| "connector_error_text (Handshake e) = ''MCP handshake failed: '' @ e"
| "connector_error_text (ToolNotDeclared t) = ''connector offers undeclared tool '' @ debug_str t @ '': failing closed''"
| "connector_error_text (UnknownTool t) = ''unknown tool '' @ debug_str t"
| "connector_error_text (Mcp code msg) = ''MCP error '' @ show_int code @ '': '' @ msg"
| "connector_error_text (Protocol e) = ''MCP protocol error: '' @ e"
| "connector_error_text (Io e) = ''connector I/O error: '' @ e"
| "connector_error_text Timeout = ''connector timed out''"

fun http_error_text :: "http_connector_error \<Rightarrow> string" where
  "http_error_text (TransportSetup e) = ''HTTP transport (before request sent): '' @ e"
| "http_error_text (TransportMidCall e) = ''HTTP transport (after request sent): '' @ e"
| "http_error_text (Status code body) = ''HTTP '' @ show_nat code @ '': '' @ body"
| "http_error_text (HttpHandshake e) = ''MCP handshake failed: '' @ e"
| "http_error_text (HttpToolNotDeclared t) = ''connector offers undeclared tool '' @ debug_str t @ '': failing closed''"
| "http_error_text (HttpUnknownTool t) = ''unknown tool '' @ debug_str t"
| "http_error_text (HttpMcp code msg) = ''MCP error '' @ show_int code @ '': '' @ msg"
| "http_error_text (HttpProtocol e) = ''MCP protocol error: '' @ e"
| "http_error_text HttpNoUrl = ''no mcp_url in the connector'' @ [char_of (39 :: nat)] @ ''s config.json''"

fun link_error_text :: "link_error \<Rightarrow> string" where
  "link_error_text (Stdio e) = connector_error_text e"
| "link_error_text (Http e) = http_error_text e"
| "link_error_text (NoUrl d) = ''no mcp_url in '' @ d @ [char_of (39 :: nat)] @ ''s config.json (mcp-http needs one)''"
| "link_error_text (LinkIo e) = ''I/O: '' @ e"

section \<open>Attachment records\<close>

record session_attachment =
  sa_enabled_at_unix_ms :: nat
  sa_policy :: "(string \<times> approval_policy) list"

type_synonym session_attachments = "(string \<times> session_attachment) list"

datatype attachment_error = NotASession | AttachRead | AttachParse | AttachWrite | AttachLock

text \<open>
  A session directory: whether it is one, and the bytes of its \<^verbatim>\<open>connectors.json\<close> if the file exists.
  The codec is serde\_json; the code relies on parsing what it printed (\<open>attach_codec_ok\<close>).
\<close>

record 'b attach_dir = io_script +
  ad_is_dir :: bool
  ad_file :: "'b option"

record 'b attach_codec =
  ac_from_slice :: "'b \<Rightarrow> session_attachments option"
  ac_to_vec :: "session_attachments \<Rightarrow> 'b"

definition attach_codec_ok :: "'b attach_codec \<Rightarrow> bool" where
  "attach_codec_ok C = (\<forall>a. ac_from_slice C (ac_to_vec C a) = Some a)"

text \<open>Reading the file: missing is \<open>None\<close>, any other failure an error, as is unparsable content.\<close>

definition read_file :: "'b attach_codec \<Rightarrow> ('b attach_dir, attachment_error, session_attachments option) sm" where
  "read_file C =
     bindS (io_op AttachRead) (\<lambda>_.
     bindS (getS ad_file) (\<lambda>f.
     case f of
       None \<Rightarrow> retS None
     | Some b \<Rightarrow> bindS (liftE (ok_or AttachParse (ac_from_slice C b))) (\<lambda>a. retS (Some a))))"

text \<open>Serialise, store under a temporary name, rename over the record.\<close>

definition replace_file :: "'b attach_codec \<Rightarrow> session_attachments \<Rightarrow> ('b attach_dir, attachment_error, unit) sm" where
  "replace_file C a =
     bindS (io_op AttachWrite) (\<lambda>_.
     bindS (io_op AttachWrite) (\<lambda>_.
     modifyS (\<lambda>w. w\<lparr>ad_file := Some (ac_to_vec C a)\<rparr>)))"

definition require_session :: "('b attach_dir, attachment_error, unit) sm" where
  "require_session = bindS (getS ad_is_dir) (\<lambda>d. if \<not> d then throwS NotASession else retS ())"

definition read_attachments :: "'b attach_codec \<Rightarrow> ('b attach_dir, attachment_error, session_attachments) sm" where
  "read_attachments C =
     bindS require_session (\<lambda>_.
     bindS (read_file C) (\<lambda>a. retS (case a of None \<Rightarrow> [] | Some a \<Rightarrow> a)))"

definition write_attachments :: "'b attach_codec \<Rightarrow> session_attachments \<Rightarrow> ('b attach_dir, attachment_error, unit) sm" where
  "write_attachments C a =
     bindS require_session (\<lambda>_.
     bindS (io_op AttachLock) (\<lambda>_.
     replace_file C a))"

definition enable_attachment ::
  "'b attach_codec \<Rightarrow> nat \<Rightarrow> string \<Rightarrow> (string \<times> approval_policy) list \<Rightarrow> ('b attach_dir, attachment_error, bool) sm" where
  "enable_attachment C now name policy =
     bindS require_session (\<lambda>_.
     bindS (io_op AttachLock) (\<lambda>_.
     bindS (read_file C) (\<lambda>a.
     let attachments = (case a of None \<Rightarrow> [] | Some a \<Rightarrow> a);
         is_new = (map_of attachments name = None) in
     bindS (replace_file C (AList.update name \<lparr>sa_enabled_at_unix_ms = now, sa_policy = policy\<rparr> attachments)) (\<lambda>_.
     retS is_new))))"

definition disable_attachment :: "'b attach_codec \<Rightarrow> string \<Rightarrow> ('b attach_dir, attachment_error, bool) sm" where
  "disable_attachment C name =
     bindS require_session (\<lambda>_.
     bindS (io_op AttachLock) (\<lambda>_.
     bindS (read_file C) (\<lambda>a.
     case a of
       None \<Rightarrow> retS False
     | Some attachments \<Rightarrow>
         if map_of attachments name = None then retS False
         else bindS (replace_file C (AList.delete name attachments)) (\<lambda>_. retS True))))"

section \<open>Properties of manifests and policies\<close>

text \<open>What validation guarantees of an accepted manifest.\<close>

definition manifest_ok :: "connector_manifest \<Rightarrow> bool" where
  "manifest_ok m =
     (is_valid_name (cm_name m) \<and> cm_provides m \<noteq> [] \<and> (\<forall>t\<in>set (cm_provides m). is_valid_tool_name t) \<and>
      fst ` set (cm_policy m) \<subseteq> set (cm_provides m) \<and> distinct (map fst (cm_policy m)) \<and>
      (\<forall>e. cm_oauth m = Some e \<longrightarrow> trim (oa_authorize_url e) \<noteq> [] \<and> trim (oa_token_url e) \<noteq> []))"

lemma check_tool_names_ok: "check_tool_names ts = Inr u \<Longrightarrow> \<forall>t\<in>set ts. is_valid_tool_name t"
  by (induction ts) (auto split: if_splits)

lemma parse_policies_ok:
  "parse_policies provides ps acc = Inr qs \<Longrightarrow> fst ` set acc \<subseteq> set provides \<Longrightarrow> distinct (map fst acc) \<Longrightarrow>
     fst ` set qs \<subseteq> set provides \<and> distinct (map fst qs)"
proof (induction provides ps acc rule: parse_policies.induct)
  case (2 provides tool s rest acc)
  then obtain p where p: "tool \<in> set provides" "policy_from_str s = Inr p"
      "parse_policies provides rest (AList.update tool p acc) = Inr qs"
    by (auto simp: bindE_Inr_iff split: if_splits)
  have "fst ` set (AList.update tool p acc) \<subseteq> set provides"
    using 2(3) p(1) by (simp add: dom_update)
  then show ?case using 2 p by (simp add: distinct_update)
qed simp

lemma parse_oauth_ok:
  "parse_oauth o' = Inr (Some e) \<Longrightarrow> trim (oa_authorize_url e) \<noteq> [] \<and> trim (oa_token_url e) \<noteq> []"
  by (auto simp: parse_oauth_def non_blank_def bindE_Inr_iff ok_or_Inr_iff bind_eq_Some_conv
      split: option.splits if_splits)

text \<open>
  C31. A manifest that parses is valid: its connector and tool names obey the naming rules, it provides at
  least one tool, it sets a policy only for tools it provides and at most one for each, and an OAuth
  table has both endpoints.
\<close>

theorem parsed_manifest_ok:
  assumes "parse_manifest from_toml semver s = Inr m"
  shows "manifest_ok m"
proof -
  have "is_valid_name (cm_name m)" "cm_provides m \<noteq> []" "check_tool_names (cm_provides m) = Inr ()"
      "\<exists>ps. parse_policies (cm_provides m) ps [] = Inr (cm_policy m)" "\<exists>o'. parse_oauth o' = Inr (cm_oauth m)"
    using assms unfolding parse_manifest_def by (auto simp: bindE_Inr_iff Let_def split: if_splits)
  then show ?thesis
    using check_tool_names_ok parse_policies_ok [of "cm_provides m" _ "[]" "cm_policy m"] parse_oauth_ok
    by (fastforce simp: manifest_ok_def)
qed

definition ex_raw_manifest :: raw_manifest where
  "ex_raw_manifest = \<lparr>rm_connector = Some \<lparr>rc_name = Some ''mail'', rc_version = Some ''1.0.0'',
       rc_display_name = Some ''Mail'', rc_description = Some ''Mail tools'', rc_kind = Some ''mcp-stdio''\<rparr>,
     rm_auth = None, rm_tools = Some (Some [''mail.search'', ''mail.send'']),
     rm_policy = Some [(''mail.search'', ''allow'')], rm_config_schema = None, rm_oauth = None\<rparr>"

definition ex_manifest :: connector_manifest where
  "ex_manifest = \<lparr>cm_name = ''mail'', cm_version = ''1.0.0'', cm_display_name = ''Mail'',
     cm_description = ''Mail tools'', cm_kind = McpStdio, cm_auth_flow = NoAuth, cm_auth_scopes = [],
     cm_provides = [''mail.search'', ''mail.send''], cm_policy = [(''mail.search'', Allow)],
     cm_config_schema = [], cm_oauth = None\<rparr>"

theorem parsed_manifest_ok_witness:
  "parse_manifest (\<lambda>_. Inr ex_raw_manifest) Some '''' = Inr ex_manifest \<and> manifest_ok ex_manifest"
proof -
  have "parse_manifest (\<lambda>_. Inr ex_raw_manifest) Some '''' = Inr ex_manifest" by code_simp
  then show ?thesis using parsed_manifest_ok by blast
qed

text \<open>
  Tighten-only policies: the effective policy of a tool is the stricter of the manifest's default
  and the session's override, so no override can loosen what the manifest declares, and a tool the
  manifest does not list needs at least an approval.
\<close>

lemma effective_policy_is_max:
  "effective_policy m overrides tool =
     max (default_policy m tool) (case map_of overrides tool of None \<Rightarrow> Allow | Some p \<Rightarrow> p) \<and>
   (map_of (cm_policy m) tool = None \<longrightarrow> effective_policy m overrides tool \<ge> Ask)"
proof -
  have bot: "Allow \<le> p" for p by (simp add: less_eq_approval_policy_def)
  have eq: "effective_policy m overrides tool =
     max (default_policy m tool) (case map_of overrides tool of None \<Rightarrow> Allow | Some p \<Rightarrow> p)"
    using bot by (cases "map_of overrides tool") (auto simp: effective_policy_def Let_def max_def intro: antisym)
  moreover have "map_of (cm_policy m) tool = None \<longrightarrow> effective_policy m overrides tool \<ge> Ask"
    unfolding eq by (simp add: default_policy_def)
  ultimately show ?thesis by simp
qed

section \<open>Properties of attachment records\<close>

text \<open>The contract of a record: a finite map from connector names to attachments.\<close>

definition attach_map :: "'b attach_codec \<Rightarrow> 'b attach_dir \<Rightarrow> (string \<Rightarrow> session_attachment option) option" where
  "attach_map C w =
     (case ad_file w of
        None \<Rightarrow> Some Map.empty
      | Some b \<Rightarrow> map_option map_of (ac_from_slice C b))"

lemma io_op_file: "io_op e w = (r, w') \<Longrightarrow> ad_file w' = ad_file w \<and> ad_is_dir w' = ad_is_dir w"
  by (cases w; cases w rule: io_op_cases [of e]) auto

lemma read_file_cases:
  assumes "read_file C w = (r, w')"
  obtains (err) e where "r = Inl e" "ad_file w' = ad_file w"
  | (missing) "r = Inr None" "ad_file w = None" "ad_file w' = ad_file w"
  | (present) b a where "r = Inr (Some a)" "ad_file w = Some b" "ac_from_slice C b = Some a" "ad_file w' = ad_file w"
  using assms unfolding read_file_def
  by (elim bindS_E) (auto simp: sm_simps ok_or_def dest: io_op_file split: option.splits)

lemma replace_file_cases:
  assumes "replace_file C a w = (r, w')"
  obtains (err) e where "r = Inl e" "ad_file w' = ad_file w"
  | (ok) "r = Inr ()" "ad_file w' = Some (ac_to_vec C a)"
  using assms unfolding replace_file_def
  by (elim bindS_E) (auto simp: modifyS_def dest!: io_op_file)

lemma require_session_cases:
  assumes "require_session w = (r, w')"
  obtains (err) "r = Inl NotASession" "w' = w" "\<not> ad_is_dir w" | (ok) "r = Inr ()" "w' = w" "ad_is_dir w"
  using assms by (auto simp: require_session_def sm_simps split: if_splits)

lemma attach_map_cong: "ad_file w = ad_file w' \<Longrightarrow> attach_map C w = attach_map C w'"
  by (simp add: attach_map_def)

definition attach_spec ::
  "(string \<Rightarrow> session_attachment option) option \<Rightarrow> 'e + bool \<Rightarrow> (string \<Rightarrow> session_attachment option) option \<Rightarrow> string
     \<Rightarrow> session_attachment option \<Rightarrow> bool \<Rightarrow> bool" where
  "attach_spec before r after n v present =
     (case r of
        Inl e \<Rightarrow> after = before
      | Inr b \<Rightarrow> (\<exists>m. before = Some m \<and> b = ((m n \<noteq> None) = present) \<and> after = Some (m(n := v))))"

lemma enable_refines:
  assumes "attach_codec_ok C" "enable_attachment C now n p w = (r, w')"
  shows "attach_spec (attach_map C w) r (attach_map C w') n (Some \<lparr>sa_enabled_at_unix_ms = now, sa_policy = p\<rparr>) False"
  using assms(2) unfolding enable_attachment_def Let_def
proof (elim bindS_E)
  fix x1 w1 x2 w2 a w3 x4 w4
  let ?l = "AList.update n \<lparr>sa_enabled_at_unix_ms = now, sa_policy = p\<rparr> (case a of None \<Rightarrow> [] | Some a \<Rightarrow> a)"
  assume 1: "require_session w = (Inr x1, w1)" "io_op AttachLock w1 = (Inr x2, w2)" and 3: "read_file C w2 = (Inr a, w3)"
    and 4: "replace_file C ?l w3 = (Inr x4, w4)" and
    5: "retS (map_of (case a of None \<Rightarrow> [] | Some a \<Rightarrow> a) n = None) w4 = (r, w')"
  have f: "ad_file w2 = ad_file w" using 1 by (auto dest: io_op_file elim: require_session_cases)
  have m: "attach_map C w = Some (map_of (case a of None \<Rightarrow> [] | Some a \<Rightarrow> a))"
    by (rule read_file_cases [OF 3]) (use f in \<open>auto simp: attach_map_def\<close>)
  have "attach_map C w' = Some (map_of ?l)"
    using 4 5 assms(1) by (auto simp: attach_map_def retS_def attach_codec_ok_def elim: replace_file_cases)
  then show ?thesis using m 5 by (auto simp: attach_spec_def retS_def update_conv')
qed (auto simp: attach_spec_def intro!: attach_map_cong elim!: require_session_cases read_file_cases replace_file_cases
    dest: io_op_file simp: retS_def)

lemma disable_refines:
  assumes "attach_codec_ok C" "disable_attachment C n w = (r, w')"
  shows "attach_spec (attach_map C w) r (attach_map C w') n None True"
  using assms(2) unfolding disable_attachment_def
proof (elim bindS_E)
  fix x1 w1 x2 w2 a w3
  assume 1: "require_session w = (Inr x1, w1)" "io_op AttachLock w1 = (Inr x2, w2)" and 3: "read_file C w2 = (Inr a, w3)"
    and 4: "(case a of None \<Rightarrow> retS False | Some attachments \<Rightarrow>
      if map_of attachments n = None then retS False
      else bindS (replace_file C (AList.delete n attachments)) (\<lambda>_. retS True)) w3 = (r, w')"
  have f: "ad_file w2 = ad_file w" using 1 by (auto dest: io_op_file elim: require_session_cases)
  show ?thesis
  proof (cases a)
    case None
    then show ?thesis using 3 4 f by (auto simp: attach_spec_def attach_map_def retS_def elim: read_file_cases)
  next
    case (Some as)
    have m: "attach_map C w = Some (map_of as)" and f3: "ad_file w3 = ad_file w"
      by (rule read_file_cases [OF 3], use f Some in \<open>auto simp: attach_map_def\<close>)+
    show ?thesis
    proof (cases "map_of as n")
      case None
      then show ?thesis using 4 Some m attach_map_cong [OF f3, of C]
        by (auto simp: attach_spec_def retS_def fun_upd_idem)
    next
      case (Some y)
      then have "bindS (replace_file C (AList.delete n as)) (\<lambda>_. retS True) w3 = (r, w')" using 4 \<open>a = Some as\<close> by simp
      then show ?thesis
        using Some m f3 assms(1)
        by (elim bindS_E replace_file_cases)
          (auto simp: attach_spec_def retS_def attach_map_def attach_codec_ok_def delete_conv')
    qed
  qed
qed (auto simp: attach_spec_def intro!: attach_map_cong elim!: require_session_cases read_file_cases dest: io_op_file)

text \<open>
  Attachment records implement a finite map: attaching a connector is a map update that reports
  whether the name was new, detaching is a removal that reports whether it was there, neither touches
  any other connector, and a failure of any step leaves the record as it was.
\<close>

lemma attachments_refine_map:
  assumes "attach_codec_ok C"
  shows "attach_spec (attach_map C w) (fst (enable_attachment C now n p w))
      (attach_map C (snd (enable_attachment C now n p w))) n (Some \<lparr>sa_enabled_at_unix_ms = now, sa_policy = p\<rparr>) False \<and>
    attach_spec (attach_map C w) (fst (disable_attachment C n w)) (attach_map C (snd (disable_attachment C n w))) n None True"
  using enable_refines [OF assms prod.collapse [symmetric]] disable_refines [OF assms prod.collapse [symmetric]] by blast

end
