(* ===== verification/Rate_Limit.thy ===== *)
theory Rate_Limit
  imports Complex_Main Prelude "HOL-Library.AList"
begin

text \<open>
  Model of \<^verbatim>\<open>supercli-core/src/rate_limit.rs\<close>: one token bucket per device and endpoint. An
  \<^verbatim>\<open>Instant\<close> is a number of nanoseconds and never decreases between two readings. Token counts are
  exact rationals; the rounding of \<^verbatim>\<open>f64\<close> is not modelled.
\<close>

section \<open>Buckets\<close>

record bucket =
  bk_tokens :: rat
  bk_last_refill :: nat
  bk_capacity :: rat
  bk_refill_per_sec :: rat

definition bucket_new :: "rat \<Rightarrow> rat \<Rightarrow> nat \<Rightarrow> bucket" where
  "bucket_new capacity refill now =
     \<lparr>bk_tokens = capacity, bk_last_refill = now, bk_capacity = capacity, bk_refill_per_sec = refill\<rparr>"

definition as_secs :: "nat \<Rightarrow> rat" where
  "as_secs ns = of_nat ns / 1000000000"

definition try_consume :: "nat \<Rightarrow> bucket \<Rightarrow> bool \<times> bucket" where
  "try_consume now b =
     (let elapsed = as_secs (now - bk_last_refill b);
          tokens = min (bk_tokens b + elapsed * bk_refill_per_sec b) (bk_capacity b);
          b' = b\<lparr>bk_tokens := tokens, bk_last_refill := now\<rparr> in
      if tokens \<ge> 1 then (True, b'\<lparr>bk_tokens := tokens - 1\<rparr>) else (False, b'))"

record rate_limiter =
  rl_buckets :: "((string \<times> string) \<times> bucket) list"
  rl_limits :: "(string \<times> rat \<times> rat) list"

definition rate_limiter_new :: rate_limiter where
  "rate_limiter_new =
     \<lparr>rl_buckets = [],
      rl_limits = [(''approve'', 60, 120 / 60), (''cancel'', 20, 20 / 60), (''connector'', 120, 120 / 60)]\<rparr>"

text \<open>\<open>created\<close> is the instant a new bucket would read, \<open>now\<close> the instant of the consumption.\<close>

definition check :: "string \<Rightarrow> string \<Rightarrow> nat \<Rightarrow> nat \<Rightarrow> rate_limiter \<Rightarrow> bool \<times> rate_limiter" where
  "check device_id endpoint created now rl =
     (case map_of (rl_limits rl) endpoint of
        None \<Rightarrow> (True, rl)
      | Some (capacity, refill) \<Rightarrow>
          (let key = (device_id, endpoint);
               b = (case map_of (rl_buckets rl) key of None \<Rightarrow> bucket_new capacity refill created | Some b \<Rightarrow> b);
               (ok, b') = try_consume now b in
           (ok, rl\<lparr>rl_buckets := AList.update key b' (rl_buckets rl)\<rparr>)))"

definition retry_after_secs :: "string \<Rightarrow> rate_limiter \<Rightarrow> nat" where
  "retry_after_secs endpoint rl =
     (let refill = (case map_of (rl_limits rl) endpoint of None \<Rightarrow> 1 / 2 | Some (_, r) \<Rightarrow> r) in
      if refill \<le> 0 then 60 else nat \<lceil>1 / refill\<rceil>)"

section \<open>What a bucket admits\<close>

type_synonym rate_call = "string \<times> string \<times> nat \<times> nat"

text \<open>The calls of a sequence that are admitted for one device and endpoint.\<close>

fun admitted :: "string \<Rightarrow> string \<Rightarrow> rate_call list \<Rightarrow> rate_limiter \<Rightarrow> nat" where
  "admitted d e [] rl = 0"
| "admitted d e ((d', e', created, now) # cs) rl =
     (let (ok, rl') = check d' e' created now rl in
      (if d' = d \<and> e' = e \<and> ok then 1 else 0) + admitted d e cs rl')"

text \<open>The instants read by the calls, in order.\<close>

fun instants :: "rate_call list \<Rightarrow> nat list" where
  "instants [] = []"
| "instants ((d, e, created, now) # cs) = created # now # instants cs"

lemma as_secs_add: "m \<le> n \<Longrightarrow> as_secs (k - n) + as_secs (n - m) = as_secs (k - m)" if "n \<le> k"
  using that by (simp add: as_secs_def field_simps of_nat_diff)

lemma as_secs_nonneg [simp]: "0 \<le> as_secs n"
  by (simp add: as_secs_def)

lemma as_secs_mono: "m \<le> n \<Longrightarrow> as_secs m \<le> as_secs n"
  by (simp add: as_secs_def divide_right_mono)

lemma check_limits [simp]: "rl_limits (snd (check d e a b rl)) = rl_limits rl"
  by (auto simp: check_def Let_def split: option.splits prod.splits)

lemma check_other:
  "(d', e') \<noteq> (d, e) \<Longrightarrow> map_of (rl_buckets (snd (check d' e' a b rl))) (d, e) = map_of (rl_buckets rl) (d, e)"
  by (auto simp: check_def Let_def update_conv' split: option.splits prod.splits)

lemma check_self:
  assumes "map_of (rl_limits rl) e = Some (cap, r)"
  shows "fst (check d e a t rl) =
      fst (try_consume t (case map_of (rl_buckets rl) (d, e) of None \<Rightarrow> bucket_new cap r a | Some b \<Rightarrow> b))"
    and "map_of (rl_buckets (snd (check d e a t rl))) (d, e) =
      Some (snd (try_consume t (case map_of (rl_buckets rl) (d, e) of None \<Rightarrow> bucket_new cap r a | Some b \<Rightarrow> b)))"
  using assms by (simp_all add: check_def Let_def update_conv' split: prod.splits)

lemma try_consume_fields:
  "bk_last_refill (snd (try_consume t b)) = t" "bk_capacity (snd (try_consume t b)) = bk_capacity b"
  "bk_refill_per_sec (snd (try_consume t b)) = bk_refill_per_sec b"
  by (simp_all add: try_consume_def Let_def)

text \<open>A consumption is paid for by the tokens of the bucket.\<close>

lemma try_consume_pays:
  "(if fst (try_consume t b) then 1 else 0) + bk_tokens (snd (try_consume t b)) \<le>
     bk_tokens b + as_secs (t - bk_last_refill b) * bk_refill_per_sec b"
  by (simp add: try_consume_def Let_def)

definition bucket_of :: "string \<Rightarrow> string \<Rightarrow> rate_limiter \<Rightarrow> bucket option" where
  "bucket_of d e rl = map_of (rl_buckets rl) (d, e)"

lemma try_consume_tokens:
  assumes "0 \<le> bk_tokens b" "0 \<le> bk_capacity b" "0 \<le> bk_refill_per_sec b"
  shows "0 \<le> bk_tokens (snd (try_consume t b))" "bk_tokens (snd (try_consume t b)) \<le> bk_capacity b"
  using assms by (auto simp: try_consume_def Let_def min_def)

definition bucket_ok :: "rat \<Rightarrow> rat \<Rightarrow> bucket \<Rightarrow> bool" where
  "bucket_ok cap r b =
     (bk_capacity b = cap \<and> bk_refill_per_sec b = r \<and> 0 \<le> bk_tokens b \<and> bk_tokens b \<le> cap)"

lemma bucket_ok_new: "0 \<le> cap \<Longrightarrow> bucket_ok cap r (bucket_new cap r t)"
  by (simp add: bucket_ok_def bucket_new_def)

lemma bucket_ok_consume: "0 \<le> r \<Longrightarrow> bucket_ok cap r b \<Longrightarrow> bucket_ok cap r (snd (try_consume t b))"
  using try_consume_tokens [of b t] by (auto simp: bucket_ok_def try_consume_fields)

lemma admitted_bound:
  assumes "map_of (rl_limits rl) e = Some (cap, r)" "0 \<le> r"
    and "sorted (instants cs)" "\<forall>t\<in>set (instants cs). t \<le> T"
    and "bucket_of d e rl = Some b" "bucket_ok cap r b"
    and "\<forall>t\<in>set (instants cs). bk_last_refill b \<le> t"
  shows "of_nat (admitted d e cs rl) \<le> bk_tokens b + as_secs (T - bk_last_refill b) * r"
  using assms
proof (induction d e cs rl arbitrary: b rule: admitted.induct)
  case (1 d e rl)
  then show ?case by (simp add: bucket_ok_def)
next
  case (2 d e d' e' a t cs rl)
  let ?rl = "snd (check d' e' a t rl)"
  have IH: "of_nat (admitted d e cs ?rl) \<le> bk_tokens b' + as_secs (T - bk_last_refill b') * r"
    if "bucket_of d e ?rl = Some b'" "bucket_ok cap r b'" "\<forall>u\<in>set (instants cs). bk_last_refill b' \<le> u" for b'
    using 2(1) [OF refl prod.collapse, of b'] 2(2-5) that by auto
  show ?case
  proof (cases "d' = d \<and> e' = e")
    case True
    let ?b = "snd (try_consume t b)"
    have self: "fst (check d e a t rl) = fst (try_consume t b)" "bucket_of d e ?rl = Some ?b"
      using check_self [OF 2(2), of d a t] 2(6) True by (simp_all add: bucket_of_def)
    have "of_nat (admitted d e cs ?rl) \<le> bk_tokens ?b + as_secs (T - t) * r"
      using IH [OF self(2)] bucket_ok_consume [OF 2(3,7), of t] 2(4) by (simp add: try_consume_fields)
    moreover have "as_secs (T - bk_last_refill b) * r = as_secs (T - t) * r + as_secs (t - bk_last_refill b) * r"
      using as_secs_add [of t T "bk_last_refill b"] 2(5,8) by (simp flip: distrib_right)
    ultimately show ?thesis
      using try_consume_pays [of t b] self(1) True 2(7) by (auto simp: Let_def split_beta bucket_ok_def)
  next
    case False
    then have "bucket_of d e ?rl = Some b" using check_other [of d' e' d e a t rl] 2(6) by (auto simp: bucket_of_def)
    then show ?thesis using IH [of b] 2(7,8) False by (auto simp: Let_def split_beta)
  qed
qed

lemma admitted_bound_fresh:
  assumes "map_of (rl_limits rl) e = Some (cap, r)" "0 \<le> r" "0 \<le> cap"
    and "sorted (instants cs)" "\<forall>t\<in>set (instants cs). t \<le> T" "\<forall>t\<in>set (instants cs). S \<le> t"
    and "bucket_of d e rl = None"
  shows "of_nat (admitted d e cs rl) \<le> cap + as_secs (T - S) * r"
  using assms
proof (induction d e cs rl rule: admitted.induct)
  case (2 d e d' e' a t cs rl)
  let ?rl = "snd (check d' e' a t rl)"
  show ?case
  proof (cases "d' = d \<and> e' = e")
    case True
    let ?b = "bucket_new cap r a"
    let ?rl0 = "rl\<lparr>rl_buckets := AList.update (d, e) ?b (rl_buckets rl)\<rparr>"
    have "admitted d e ((d', e', a, t) # cs) rl = admitted d e ((d', e', a, t) # cs) ?rl0"
      using 2(2,8) True by (simp add: check_def Let_def bucket_of_def update_conv' split_beta)
    moreover have "of_nat (admitted d e ((d', e', a, t) # cs) ?rl0) \<le> bk_tokens ?b + as_secs (T - bk_last_refill ?b) * r"
      using 2(2-6) by (intro admitted_bound [of _ _ cap])
        (auto simp: bucket_of_def update_conv' bucket_ok_new, auto simp: bucket_new_def)
    moreover have "as_secs (T - a) * r \<le> as_secs (T - S) * r"
      using 2(3,7) by (intro mult_right_mono as_secs_mono) auto
    ultimately show ?thesis by (simp add: bucket_new_def)
  next
    case False
    then have "bucket_of d e ?rl = None" using check_other [of d' e' d e a t rl] 2(8) by (auto simp: bucket_of_def)
    then show ?thesis using 2(1) [OF refl prod.collapse] 2(2-7) False by (auto simp: Let_def split_beta)
  qed
qed simp



text \<open>
  Backing off works: a device that is refused and waits the number of seconds the limiter announces
  for the endpoint is admitted, if nothing else was asked for it in between.
\<close>

lemma retry_after_is_enough:
  assumes "(d, e) = k" and "map_of (rl_limits rl) e = Some (cap, r)" and "0 < r" and "1 \<le> cap"
    and "map_of (rl_buckets rl) k = Some b" and "bucket_ok cap r b"
    and "now \<ge> bk_last_refill b + 1000000000 * retry_after_secs e rl"
  shows "fst (check d e created now rl)"
proof -
  have "1 / r \<le> of_nat (nat \<lceil>1 / r\<rceil>)" using assms(3) by (simp add: of_nat_ceiling)
  also have "\<dots> = of_nat (retry_after_secs e rl)" using assms(2,3) by (simp add: retry_after_secs_def)
  also have "\<dots> \<le> as_secs (now - bk_last_refill b)"
  proof -
    have "1000000000 * retry_after_secs e rl \<le> now - bk_last_refill b" using assms(7) by simp
    from as_secs_mono [OF this] show ?thesis by (simp add: as_secs_def)
  qed
  finally have "1 \<le> as_secs (now - bk_last_refill b) * r" using assms(3) by (simp add: divide_le_eq)
  then have "fst (try_consume now b)"
    using assms(4,6) by (simp add: try_consume_def Let_def bucket_ok_def)
  then show ?thesis using check_self(1) [OF assms(2), of d created now] assms(1,5) by simp
qed

definition ex_empty_bucket :: bucket where
  "ex_empty_bucket = \<lparr>bk_tokens = 0, bk_last_refill = 7, bk_capacity = 120, bk_refill_per_sec = 2\<rparr>"

end
