(* ===== verification/Session_Connectors.thy ===== *)
theory Session_Connectors
  imports Action_Reviews Schedule_Leases Connectors Rate_Limit
begin

text \<open>
  Model of \<^verbatim>\<open>supercli-core/src/session_connectors.rs\<close>: the gate every connector tool call of a session
  goes through. The gate resolves the tool to an attached connector, applies the approval policy,
  records a review before the call and an outcome after it, and stops a scheduled worker that lost
  its lease.

  The world of a call is the connector set itself, the review log, the lease database, the rate
  limiter, the audit file and the list of calls handed to connectors. What lies outside (clocks, fresh
  identifiers, the session directory, installed connectors, credentials, connector processes, hooks
  and the approval prompt) answers through \<open>'l conn_env\<close>; every answer may depend on when it is asked,
  which is the counter \<open>cw_tick\<close>, so nothing is assumed to stay the same between two questions.
\<close>

section \<open>Failures\<close>

datatype deny_reason = NoHumanPresent | AskDeclined | ExplicitDeny

record tool_call_failure =
  tf_denied :: "deny_reason option"
  tf_uncertain :: bool
  tf_stale_lease :: bool
  tf_message :: string

definition fail_denied :: "deny_reason \<Rightarrow> string \<Rightarrow> tool_call_failure" where
  "fail_denied reason message =
     \<lparr>tf_denied = Some reason, tf_uncertain = False, tf_stale_lease = False, tf_message = message\<rparr>"

definition fail_failed :: "string \<Rightarrow> tool_call_failure" where
  "fail_failed message =
     \<lparr>tf_denied = None, tf_uncertain = False, tf_stale_lease = False, tf_message = message\<rparr>"

definition fail_uncertain :: "string \<Rightarrow> tool_call_failure" where
  "fail_uncertain message =
     \<lparr>tf_denied = None, tf_uncertain = True, tf_stale_lease = False, tf_message = message\<rparr>"

definition fail_review :: "string \<Rightarrow> tool_call_failure" where
  "fail_review message =
     \<lparr>tf_denied = None, tf_uncertain = False, tf_stale_lease = False,
      tf_message = ''action review failed: '' @ message\<rparr>"

definition fail_stale_lease :: "string \<Rightarrow> tool_call_failure" where
  "fail_stale_lease schedule_id =
     \<lparr>tf_denied = None, tf_uncertain = False, tf_stale_lease = True,
      tf_message = ''stale lease for schedule '' @ debug_str schedule_id @
        '': another worker holds the lease now; refusing to execute''\<rparr>"

lemmas fail_defs = fail_denied_def fail_failed_def fail_uncertain_def fail_review_def fail_stale_lease_def

section \<open>State and environment\<close>

record mcp_tool =
  mt_name :: string
  mt_description :: "string option"
  mt_input_schema :: "json option"

text \<open>An open connector: which one it is, and the tools it exposes (already filtered by the manifest).\<close>

record connector_link =
  lk_handle :: nat
  lk_tools :: "mcp_tool list"

record live_connector =
  lc_manifest :: connector_manifest
  lc_link :: connector_link
  lc_policy_overrides :: "(string \<times> approval_policy) list"
  lc_token :: string
  lc_token_checked_at :: nat

definition policy_for :: "live_connector \<Rightarrow> string \<Rightarrow> approval_policy" where
  "policy_for live tool = effective_policy (lc_manifest live) (lc_policy_overrides live) tool"

record lease_fence =
  lf_store :: schedule_leases
  lf_schedule_id :: string
  lf_generation :: nat

record session_connectors =
  ss_session_id :: string
  ss_live :: "(string \<times> live_connector) list"
  ss_skipped :: "(string \<times> string) list"
  ss_autonomous :: bool
  ss_actor :: "string option"
  ss_lease_fence :: "lease_fence option"
  ss_outcome_listener :: bool
  ss_before_execute_hook :: bool

record before_execute_context =
  bc_tool :: string
  bc_arguments :: json
  bc_attempt_id :: string
  bc_actor :: string

datatype before_execute_decision = HAllow | HEscalate string | HReject string

datatype oauth_error = NotConnected | OtherOAuth string

datatype panic_payload = PanicText string | PanicOpaque

fun panic_message :: "panic_payload \<Rightarrow> string" where
  "panic_message (PanicText s) = s"
| "panic_message PanicOpaque = ''<non-string panic payload>''"

record 'l conn_world =
  cw_set :: session_connectors
  cw_reviews :: "'l review_world"
  cw_leases :: lease_db
  cw_lease_poisoned :: bool
  cw_rate :: rate_limiter
  cw_audit :: "'l list"
  cw_calls :: "(string \<times> string \<times> (string \<times> json) list) list"
  cw_notified :: "(string \<times> attempt_outcome) list"
  cw_tick :: nat

record 'l conn_env =
  ce_codec :: "'l review_codec"
  ce_attach_codec :: "'l attach_codec"
  ce_now :: "nat \<Rightarrow> nat"
  ce_instant :: "nat \<Rightarrow> nat"
  ce_uuid :: "nat \<Rightarrow> string"
  ce_session_dir :: "nat \<Rightarrow> 'l attach_dir"
  ce_discover :: "nat \<Rightarrow> (string \<times> connector_manifest) list \<times> (string option \<times> string) list"
  ce_resolve_token :: "nat \<Rightarrow> connector_manifest \<Rightarrow> string \<Rightarrow> string \<Rightarrow> oauth_error + string"
  ce_open :: "nat \<Rightarrow> connector_manifest \<Rightarrow> string \<Rightarrow> string \<Rightarrow> link_error + connector_link"
  ce_call :: "nat \<Rightarrow> connector_link \<Rightarrow> string \<Rightarrow> (string \<times> json) list
    \<Rightarrow> panic_payload + (link_error + json) \<times> nat option"
  ce_hook :: "nat \<Rightarrow> before_execute_context \<Rightarrow> before_execute_decision"
  ce_app_request :: "nat \<Rightarrow> string \<Rightarrow> json \<Rightarrow> string + json"
  ce_audit_ok :: "nat \<Rightarrow> bool"
  ce_attach_error :: "attachment_error \<Rightarrow> string"
  ce_review_error :: "review_error \<Rightarrow> string"

definition askS :: "(nat \<Rightarrow> 'a) \<Rightarrow> ('l conn_world, 'e, 'a) sm" where
  "askS f w = (Inr (f (cw_tick w)), w\<lparr>cw_tick := Suc (cw_tick w)\<rparr>)"

text \<open>An operation on the review log, on the lease database, on the connector set.\<close>

definition reviewS :: "('l review_world, 'e, 'a) sm \<Rightarrow> ('l conn_world, 'e, 'a) sm" where
  "reviewS m w = (case m (cw_reviews w) of (r, v) \<Rightarrow> (r, w\<lparr>cw_reviews := v\<rparr>))"

definition set_update :: "(session_connectors \<Rightarrow> session_connectors) \<Rightarrow> ('l conn_world, 'e, unit) sm" where
  "set_update f = modifyS (\<lambda>w. w\<lparr>cw_set := f (cw_set w)\<rparr>)"

definition TOKEN_RECHECK_INTERVAL :: nat where
  "TOKEN_RECHECK_INTERVAL = 60 * 1000000000"

definition APPROVE_ROUTE :: string where
  "APPROVE_ROUTE = ''/mcp/approve-connector''"

section \<open>Small operations\<close>

definition set_autonomous :: "bool \<Rightarrow> session_connectors \<Rightarrow> session_connectors" where
  "set_autonomous a s = s\<lparr>ss_autonomous := a\<rparr>"

definition is_autonomous :: "session_connectors \<Rightarrow> bool" where
  "is_autonomous s = ss_autonomous s"

definition set_actor :: "string \<Rightarrow> session_connectors \<Rightarrow> session_connectors" where
  "set_actor a s = s\<lparr>ss_actor := Some a\<rparr>"

definition set_lease_fence :: "lease_fence option \<Rightarrow> session_connectors \<Rightarrow> session_connectors" where
  "set_lease_fence f s = s\<lparr>ss_lease_fence := f\<rparr>"

definition set_outcome_listener :: "session_connectors \<Rightarrow> session_connectors" where
  "set_outcome_listener s = s\<lparr>ss_outcome_listener := True\<rparr>"

definition set_before_execute_hook :: "session_connectors \<Rightarrow> session_connectors" where
  "set_before_execute_hook s = s\<lparr>ss_before_execute_hook := True\<rparr>"

definition auto_actor :: "session_connectors \<Rightarrow> string \<Rightarrow> string" where
  "auto_actor s fallback = (case ss_actor s of None \<Rightarrow> fallback | Some a \<Rightarrow> a)"

definition fence_is_current :: "lease_fence \<Rightarrow> ('l conn_world, 'e, bool) sm" where
  "fence_is_current f w =
     (case is_current (cw_lease_poisoned w) (lf_store f) (lf_schedule_id f) (lf_generation f) (cw_leases w) of
        (b, l) \<Rightarrow> (Inr b, w\<lparr>cw_leases := l\<rparr>))"

definition check_lease_fence :: "string \<Rightarrow> ('l conn_world, tool_call_failure, unit) sm" where
  "check_lease_fence schedule_id =
     bindS (getS (\<lambda>w. ss_lease_fence (cw_set w))) (\<lambda>fence.
     case fence of
       None \<Rightarrow> retS ()
     | Some f \<Rightarrow>
         bindS (fence_is_current f) (\<lambda>current.
         if \<not> current then throwS (fail_stale_lease schedule_id) else retS ()))"

definition record_outcome ::
  "'l conn_env \<Rightarrow> string \<Rightarrow> attempt_outcome \<Rightarrow> string \<Rightarrow> ('l conn_world, 'e, unit) sm" where
  "record_outcome E review_id outcome actor =
     bindS (askS (ce_now E)) (\<lambda>now.
     bindS (okS (reviewS (record_attempt_outcome (ce_codec E) now review_id outcome (actor_parse actor)))) (\<lambda>r.
     case r of
       None \<Rightarrow> retS ()
     | Some _ \<Rightarrow> modifyS (\<lambda>w.
         if ss_outcome_listener (cw_set w)
         then w\<lparr>cw_notified := cw_notified w @ [(review_id, outcome)]\<rparr> else w)))"

definition args_hash_of :: "'l conn_env \<Rightarrow> json \<Rightarrow> string" where
  "args_hash_of E arguments = sha256_hex (ce_codec E) (to_text (ce_codec E) arguments)"

fun json_items :: "json \<Rightarrow> json list" where
  "json_items (JArr vs) = vs"
| "json_items _ = []"

definition mcp_text_result :: "json \<Rightarrow> string" where
  "mcp_text_result result =
     join_with [CHR 0x0A] (List.map_filter (get_str ''text'')
       (case json_get ''content'' result of None \<Rightarrow> [] | Some v \<Rightarrow> json_items v))"

record attempt_audit =
  aa_connector :: string
  aa_tool :: string
  aa_policy :: approval_policy
  aa_approved :: "bool option"
  aa_arguments :: json
  aa_attempt_id :: string
  aa_args_hash :: string
  aa_review_id :: "string option"
  aa_request_sent_at :: "nat option"
  aa_outcome :: string
  aa_retryable :: bool
  aa_replaces_attempt :: "string option"
  aa_error :: "string option"

fun opt_bool :: "bool option \<Rightarrow> json" where
  "opt_bool None = JNull"
| "opt_bool (Some b) = JBool b"

fun opt_nat :: "nat option \<Rightarrow> json" where
  "opt_nat None = JNull"
| "opt_nat (Some n) = JNum (int n)"

definition audit_json :: "nat \<Rightarrow> string \<Rightarrow> attempt_audit \<Rightarrow> json" where
  "audit_json now session_id a = json_obj
     [(''ts'', JNum (int now)), (''session'', JStr session_id), (''connector'', JStr (aa_connector a)),
      (''tool'', JStr (aa_tool a)), (''policy'', JStr (policy_str (aa_policy a))),
      (''approved'', opt_bool (aa_approved a)), (''arguments'', aa_arguments a),
      (''attempt_id'', JStr (aa_attempt_id a)), (''args_hash'', JStr (aa_args_hash a)),
      (''review_id'', opt_str (aa_review_id a)), (''request_sent_at'', opt_nat (aa_request_sent_at a)),
      (''outcome'', JStr (aa_outcome a)), (''retryable'', JBool (aa_retryable a)),
      (''replaces_attempt'', opt_str (aa_replaces_attempt a)), (''ok'', JBool (aa_outcome a = ''ok'')),
      (''error'', opt_str (aa_error a))]"

definition audit_attempt :: "'l conn_env \<Rightarrow> attempt_audit \<Rightarrow> ('l conn_world, 'e, unit) sm" where
  "audit_attempt E a =
     bindS (askS (ce_now E)) (\<lambda>now.
     bindS (askS (ce_audit_ok E)) (\<lambda>ok.
     modifyS (\<lambda>w. if ok
       then w\<lparr>cw_audit := cw_audit w @ [to_text (ce_codec E) (audit_json now (ss_session_id (cw_set w)) a)]\<rparr>
       else w)))"

section \<open>Resolving the attached connectors\<close>

definition resolve_token ::
  "'l conn_env \<Rightarrow> connector_manifest \<Rightarrow> string \<Rightarrow> string \<Rightarrow> nat \<Rightarrow> string + string" where
  "resolve_token E manifest dir name t =
     (case ce_resolve_token E t manifest dir name of
        Inr token \<Rightarrow> Inr token
      | Inl NotConnected \<Rightarrow>
          Inl (name @ '' is not connected '' @ em_dash @ '' run `supercli connector connect '' @ name @ ''`'')
      | Inl (OtherOAuth e) \<Rightarrow>
          Inl (name @ '': token unavailable ('' @ e @ '') '' @ em_dash @ '' reconnect with `supercli connector connect '' @
               name @ ''`''))"

text \<open>Dropping a live connector, and noting why an attachment is skipped.\<close>

definition skip_live :: "string \<Rightarrow> string \<Rightarrow> (string \<times> string) list \<Rightarrow> ('l conn_world, 'e, (string \<times> string) list) sm" where
  "skip_live name reason skipped =
     bindS (set_update (\<lambda>s. s\<lparr>ss_live := AList.delete name (ss_live s)\<rparr>)) (\<lambda>_.
     retS (AList.update name reason skipped))"

text \<open>The body of the loop over the attachments of a session.\<close>

definition refresh_one ::
  "'l conn_env \<Rightarrow> (string \<Rightarrow> (string \<times> connector_manifest) option) \<Rightarrow> (string \<Rightarrow> string option)
     \<Rightarrow> string \<Rightarrow> session_attachment \<Rightarrow> (string \<times> string) list \<Rightarrow> ('l conn_world, 'e, (string \<times> string) list) sm" where
  "refresh_one E discovered corrupt name attachment skipped =
     (case discovered name of
        None \<Rightarrow>
          skip_live name (case corrupt name of
              Some e \<Rightarrow> ''manifest invalid: '' @ e
            | None \<Rightarrow> ''attached but no connector named '' @ debug_str name @ '' is installed'') skipped
      | Some (dir, manifest) \<Rightarrow>
          bindS (getS (\<lambda>w. map_of (ss_live (cw_set w)) name)) (\<lambda>live0.
          bindS (askS (ce_instant E)) (\<lambda>elapsed_at.
          let cached_token = map_option lc_token live0;
              recheck_due = (case live0 of None \<Rightarrow> False
                | Some live \<Rightarrow> elapsed_at - lc_token_checked_at live > TOKEN_RECHECK_INTERVAL) in
          bindS (case cached_token of
              None \<Rightarrow> askS (resolve_token E manifest dir name)
            | Some c \<Rightarrow> if recheck_due then askS (resolve_token E manifest dir name) else retS (Inr c)) (\<lambda>tok.
          case tok of
            Inl reason \<Rightarrow> skip_live name reason skipped
          | Inr token \<Rightarrow>
              let needs_open = (live0 = None);
                  token_changed = (case live0 of None \<Rightarrow> False | Some live \<Rightarrow> lc_token live \<noteq> token) in
              if needs_open \<or> token_changed then
                bindS (askS (\<lambda>t. ce_open E t manifest dir token)) (\<lambda>opened.
                case opened of
                  Inr link \<Rightarrow>
                    bindS (askS (ce_instant E)) (\<lambda>now.
                    bindS (set_update (\<lambda>s. s\<lparr>ss_live := AList.update name
                        \<lparr>lc_manifest = manifest, lc_link = link, lc_policy_overrides = sa_policy attachment,
                         lc_token = token, lc_token_checked_at = now\<rparr> (ss_live s)\<rparr>)) (\<lambda>_.
                    retS skipped))
                | Inl e \<Rightarrow> skip_live name (''could not start '' @ name @ '': '' @ link_error_text e) skipped)
              else
                bindS (askS (ce_instant E)) (\<lambda>now.
                bindS (set_update (\<lambda>s. s\<lparr>ss_live := map (\<lambda>(n, live).
                    if n = name
                    then (n, live\<lparr>lc_policy_overrides := sa_policy attachment,
                                  lc_token_checked_at := if recheck_due then now else lc_token_checked_at live\<rparr>)
                    else (n, live)) (ss_live s)\<rparr>)) (\<lambda>_.
                retS skipped))))))"

fun refresh_all ::
  "'l conn_env \<Rightarrow> (string \<Rightarrow> (string \<times> connector_manifest) option) \<Rightarrow> (string \<Rightarrow> string option)
     \<Rightarrow> session_attachments \<Rightarrow> (string \<times> string) list \<Rightarrow> ('l conn_world, 'e, (string \<times> string) list) sm" where
  "refresh_all E discovered corrupt [] skipped = retS skipped"
| "refresh_all E discovered corrupt ((name, attachment) # rest) skipped =
     bindS (refresh_one E discovered corrupt name attachment skipped) (refresh_all E discovered corrupt rest)"

definition refresh :: "'l conn_env \<Rightarrow> ('l conn_world, 'e, unit) sm" where
  "refresh E =
     bindS (askS (\<lambda>t. fst (read_attachments (ce_attach_codec E) (ce_session_dir E t)))) (\<lambda>attachments.
     case attachments of
       Inl e \<Rightarrow> set_update (\<lambda>s. s\<lparr>ss_live := [],
         ss_skipped := [(''<record>'', ''attachment record unreadable: '' @ ce_attach_error E e)]\<rparr>)
     | Inr connectors \<Rightarrow>
         bindS (askS (ce_discover E)) (\<lambda>(found, errors).
         let discovered = map_of (rev (map (\<lambda>(dir, m). (cm_name m, (dir, m))) found));
             corrupt = map_of (rev (List.map_filter (\<lambda>(n, e). map_option (\<lambda>n. (n, e)) n) errors)) in
         bindS (set_update (\<lambda>s. s\<lparr>ss_live :=
           filter (\<lambda>(n, _). map_of connectors n \<noteq> None) (ss_live s)\<rparr>)) (\<lambda>_.
         bindS (refresh_all E discovered corrupt connectors []) (\<lambda>skipped.
         set_update (\<lambda>s. s\<lparr>ss_skipped := skipped\<rparr>)))))"

definition resolve_set :: "'l conn_env \<Rightarrow> string \<Rightarrow> ('l conn_world, 'e, unit) sm" where
  "resolve_set E session_id =
     bindS (set_update (\<lambda>_. \<lparr>ss_session_id = session_id, ss_live = [], ss_skipped = [], ss_autonomous = False,
       ss_actor = None, ss_lease_fence = None, ss_outcome_listener = False, ss_before_execute_hook = False\<rparr>)) (\<lambda>_.
     refresh E)"

definition has_tool :: "live_connector \<Rightarrow> string \<Rightarrow> bool" where
  "has_tool live name = list_ex (\<lambda>t. mt_name t = name) (lk_tools (lc_link live))"

definition sorted_live :: "session_connectors \<Rightarrow> (string \<times> live_connector) list" where
  "sorted_live s =
     List.map_filter (\<lambda>n. map_option (\<lambda>l. (n, l)) (map_of (ss_live s) n)) (sort (map fst (ss_live s)))"

definition tool_definitions :: "'l conn_env \<Rightarrow> ('l conn_world, 'e, json list) sm" where
  "tool_definitions E =
     bindS (refresh E) (\<lambda>_.
     getS (\<lambda>w. concat (map (\<lambda>(name, live).
       map (\<lambda>t. json_obj
           [(''name'', JStr (mt_name t)),
            (''description'', JStr (''[connector '' @ name @ ''] '' @
               (case mt_description t of None \<Rightarrow> '''' | Some d \<Rightarrow> d))),
            (''inputSchema'', (case mt_input_schema t of None \<Rightarrow> json_obj [(''type'', JStr ''object'')] | Some j \<Rightarrow> j))])
         (filter (\<lambda>t. policy_for live (mt_name t) \<noteq> Deny) (lk_tools (lc_link live))))
       (sorted_live (cw_set w)))))"

definition find_tool :: "'l conn_env \<Rightarrow> string \<Rightarrow> ('l conn_world, 'e, (string \<times> approval_policy) option) sm" where
  "find_tool E name =
     bindS (refresh E) (\<lambda>_.
     getS (\<lambda>w. map_option (\<lambda>(connector, live). (connector, policy_for live name))
       (List.find (\<lambda>(_, live). has_tool live name) (sorted_live (cw_set w)))))"

definition unknown_tool_error :: "session_connectors \<Rightarrow> string \<Rightarrow> string" where
  "unknown_tool_error s name =
     ''Unknown tool: '' @ name @
     (if ss_skipped s = [] then ''''
      else ''; attached connectors currently unavailable: '' @
        join_with '', '' (map (\<lambda>(k, v). k @ '': '' @ v) (sort_key fst (ss_skipped s))))"

section \<open>Asking the user\<close>

record approval_rejection =
  ar_actor :: "string option"
  ar_message :: string
  ar_declined :: bool

definition request_tool_approval ::
  "'l conn_env \<Rightarrow> string \<Rightarrow> string \<Rightarrow> string \<Rightarrow> string option \<Rightarrow> string option \<Rightarrow> string option
     \<Rightarrow> ('l conn_world, 'e, approval_rejection + string) sm" where
  "request_tool_approval E session_id connector tool replaces_attempt args_hash hook_reason =
     bindS (askS (\<lambda>t. ce_app_request E t APPROVE_ROUTE (json_obj
       [(''session_id'', JStr session_id), (''connector'', JStr connector), (''tool'', JStr tool),
        (''replaces_attempt'', opt_str replaces_attempt), (''args_hash'', opt_str args_hash),
        (''hook_reason'', opt_str hook_reason)]))) (\<lambda>response.
     case response of
       Inl error \<Rightarrow> retS (Inl \<lparr>ar_actor = None,
         ar_message = ''Tool '' @ apostrophe @ tool @ apostrophe @ '' (connector '' @ apostrophe @ connector @ apostrophe @
           '') needs your approval, but the approval prompt did not complete: '' @ error @
           ''. If no Supercli frontend is running, start one; otherwise answer the prompt and retry.'',
         ar_declined = False\<rparr>)
     | Inr v \<Rightarrow>
         let answered_by = (case get_str ''answered_by'' v of
               None \<Rightarrow> ''local-prompt'' | Some s \<Rightarrow> if s \<noteq> '''' then s else ''local-prompt'');
             actor = ''human:'' @ answered_by in
         if get_bool ''approved'' v = Some True then retS (Inr actor)
         else retS (Inl \<lparr>ar_actor = Some actor,
           ar_message = ''The user declined the '' @ apostrophe @ tool @ apostrophe @ '' call (connector '' @ apostrophe @
             connector @ apostrophe @ ''). Do not retry on your own '' @ em_dash @
             '' ask the user if they want to approve future calls.'',
           ar_declined = True\<rparr>))"

definition decider :: "approval_rejection \<Rightarrow> string" where
  "decider rejection = (case ar_actor rejection of None \<Rightarrow> ''human:unanswered-prompt'' | Some a \<Rightarrow> a)"

section \<open>Executing a call\<close>

text \<open>The data of one attempt, as the steps of \<open>execute_call\<close> share them.\<close>

record attempt =
  at_connector :: string
  at_name :: string
  at_policy :: approval_policy
  at_approved :: "bool option"
  at_arguments :: json
  at_attempt_id :: string
  at_args_hash :: string
  at_replaces_attempt :: "string option"

definition audit_of ::
  "attempt \<Rightarrow> bool option \<Rightarrow> string option \<Rightarrow> nat option \<Rightarrow> string \<Rightarrow> bool \<Rightarrow> string option \<Rightarrow> attempt_audit" where
  "audit_of a approved review_id sent outcome retryable error =
     \<lparr>aa_connector = at_connector a, aa_tool = at_name a, aa_policy = at_policy a, aa_approved = approved,
      aa_arguments = at_arguments a, aa_attempt_id = at_attempt_id a, aa_args_hash = at_args_hash a,
      aa_review_id = review_id, aa_request_sent_at = sent, aa_outcome = outcome, aa_retryable = retryable,
      aa_replaces_attempt = at_replaces_attempt a, aa_error = error\<rparr>"

definition gate_review ::
  "'l conn_env \<Rightarrow> string \<Rightarrow> attempt \<Rightarrow> review_decision \<Rightarrow> ('l conn_world, tool_call_failure, string) sm" where
  "gate_review E actor a decision =
     bindS (askS (ce_uuid E)) (\<lambda>uuid.
     bindS (askS (ce_now E)) (\<lambda>now.
     bindS (map_errS (\<lambda>e. fail_review (ce_review_error E e)) (reviewS (record_review (ce_codec E) uuid now
       (actor_parse actor) (at_connector a) (at_name a) (at_args_hash a) decision (at_replaces_attempt a)))) (\<lambda>entry.
     retS (re_review_id entry))))"

definition record_denied ::
  "'l conn_env \<Rightarrow> string \<Rightarrow> attempt \<Rightarrow> deny_reason \<Rightarrow> string \<Rightarrow> ('l conn_world, tool_call_failure, tool_call_failure) sm" where
  "record_denied E actor a reason err =
     bindS (gate_review E actor a Denied) (\<lambda>review_id.
     bindS (audit_attempt E (audit_of a (Some False) (Some review_id) None ''denied'' False (Some err))) (\<lambda>_.
     retS (fail_denied reason err)))"

text \<open>
  The \<^verbatim>\<open>before_execute\<close> hook, between the review and the call. The result is the actor of the rest of
  the attempt: a user who approved an escalation takes over from the original one.
\<close>

definition before_execute ::
  "'l conn_env \<Rightarrow> attempt \<Rightarrow> string \<Rightarrow> string \<Rightarrow> ('l conn_world, tool_call_failure, string) sm" where
  "before_execute E a review_id actor =
     bindS (getS cw_set) (\<lambda>s.
     if \<not> ss_before_execute_hook s then retS actor
     else
       bindS (askS (\<lambda>t. ce_hook E t \<lparr>bc_tool = at_name a, bc_arguments = at_arguments a,
         bc_attempt_id = at_attempt_id a, bc_actor = actor\<rparr>)) (\<lambda>decision.
       case decision of
         HAllow \<Rightarrow> retS actor
       | HEscalate hook_reason \<Rightarrow>
           if at_policy a \<noteq> Allow then retS actor
           else if ss_autonomous s then
             let reason = ''hook escalated Allow->Ask ('' @ hook_reason @ '') but no human can answer in autonomous mode'' in
             bindS (record_outcome E review_id (NeverRan reason) actor) (\<lambda>_.
             throwS (fail_denied NoHumanPresent (''tool '' @ debug_str (at_name a) @
               '' escalated to approval by before_execute hook: '' @ reason)))
           else
             bindS (request_tool_approval E (ss_session_id s) (at_connector a) (at_name a) None None (Some hook_reason)) (\<lambda>r.
             case r of
               Inr approver \<Rightarrow> retS approver
             | Inl rejection \<Rightarrow>
                 let completion = (if ar_declined rejection then ''declined by '' @ decider rejection
                                   else ''did not complete'');
                     reason = ''hook escalated Allow->Ask ('' @ hook_reason @ ''); approval '' @ completion in
                 bindS (record_outcome E review_id (NeverRan reason) (decider rejection)) (\<lambda>_.
                 bindS (audit_attempt E (audit_of a (Some False) (Some review_id) None ''denied'' False
                   (Some (ar_message rejection)))) (\<lambda>_.
                 throwS (if ar_declined rejection then fail_denied AskDeclined (ar_message rejection)
                         else fail_failed (ar_message rejection)))))
       | HReject hook_reason \<Rightarrow>
           bindS (record_outcome E review_id (NeverRan (''hook_rejected: '' @ hook_reason)) actor) (\<lambda>_.
           throwS (fail_failed (''tool '' @ debug_str (at_name a) @ '' rejected by before_execute hook: '' @ hook_reason)))))"

fun object_entries :: "json \<Rightarrow> (string \<times> json) list" where
  "object_entries (JObj m) = m"
| "object_entries _ = []"

text \<open>A fence check whose failure closes the review with the given outcome and is then returned.\<close>

definition fence_or_record ::
  "'l conn_env \<Rightarrow> string \<Rightarrow> string \<Rightarrow> string \<Rightarrow> (tool_call_failure \<Rightarrow> attempt_outcome) \<Rightarrow> ('l conn_world, tool_call_failure, unit) sm" where
  "fence_or_record E schedule_id review_id actor outcome w =
     (case check_lease_fence schedule_id w of
        (Inr u, w') \<Rightarrow> (Inr (), w')
      | (Inl e, w') \<Rightarrow> bindS (record_outcome E review_id (outcome e) actor) (\<lambda>_. throwS e) w')"

definition is_transport_setup :: "link_error \<Rightarrow> bool" where
  "is_transport_setup e = (case e of Http (TransportSetup _) \<Rightarrow> True | _ \<Rightarrow> False)"

text \<open>After the connector answered: classify, check the fence, audit, record the outcome.\<close>

definition finish_call ::
  "'l conn_env \<Rightarrow> attempt \<Rightarrow> string \<Rightarrow> string \<Rightarrow> string \<Rightarrow> link_error + json \<Rightarrow> nat option \<Rightarrow> ('l conn_world, tool_call_failure, string) sm" where
  "finish_call E a schedule_id review_id actor result sent =
     (case result of
        Inr value \<Rightarrow>
          bindS (fence_or_record E schedule_id review_id actor
            (\<lambda>e. Ambiguous (''stale lease after tool call: '' @ tf_message e))) (\<lambda>_.
          bindS (audit_attempt E (audit_of a (at_approved a) (Some review_id) sent ''ok'' False None)) (\<lambda>_.
          bindS (record_outcome E review_id (Executed True) actor) (\<lambda>_.
          retS (mcp_text_result value))))
      | Inl e \<Rightarrow>
          (case call_outcome_of e (sent \<noteq> None) of
             AmbiguousCall \<Rightarrow>
               let err = ''connector tool '' @ debug_str (at_name a) @ '' may already have executed (attempt '' @
                     at_attempt_id a @ ''): '' @ link_error_text e @ ''. This attempt was recorded as ambiguous and '' @
                     ''will NOT be retried automatically. To supersede it, issue an explicit human-approved '' @
                     ''replacement call referencing attempt '' @ at_attempt_id a @ ''.'' in
               bindS (fence_or_record E schedule_id review_id actor
                 (\<lambda>fe. Ambiguous (''ambiguous tool call, then stale lease: '' @ tf_message fe @ ''; '' @ err))) (\<lambda>_.
               bindS (audit_attempt E (audit_of a (at_approved a) (Some review_id) sent ''ambiguous'' False (Some err))) (\<lambda>_.
               bindS (record_outcome E review_id (Ambiguous err) actor) (\<lambda>_.
               throwS (fail_uncertain err))))
           | _ \<Rightarrow>
               let err = ''connector tool '' @ debug_str (at_name a) @ '' failed: '' @ link_error_text e in
               bindS (fence_or_record E schedule_id review_id actor
                 (\<lambda>fe. NeverRan (''stale lease after definite failure: '' @ tf_message fe))) (\<lambda>_.
               bindS (audit_attempt E (audit_of a (at_approved a) (Some review_id) sent ''definite_failed''
                 (is_transport_setup e) (Some err))) (\<lambda>_.
               bindS (record_outcome E review_id (Executed False) actor) (\<lambda>_.
               throwS (fail_failed err))))))"

text \<open>What \<^verbatim>\<open>catch_unwind\<close> returned: a panic of the connector call is ambiguous.\<close>

definition connector_answer ::
  "'l conn_env \<Rightarrow> attempt \<Rightarrow> string \<Rightarrow> string \<Rightarrow> string \<Rightarrow> panic_payload + (link_error + json) \<times> nat option
     \<Rightarrow> ('l conn_world, tool_call_failure, string) sm" where
  "connector_answer E a schedule_id review_id actor answer =
     (case answer of
        Inl panic \<Rightarrow>
          let msg = panic_message panic in
          bindS (record_outcome E review_id (Ambiguous (''tool call panicked: '' @ msg)) actor) (\<lambda>_.
          bindS (audit_attempt E (audit_of a (at_approved a) (Some review_id) None ''panic'' False
            (Some (''tool call panicked: '' @ msg)))) (\<lambda>_.
          throwS (fail_uncertain (''connector tool '' @ debug_str (at_name a) @ '' panicked: '' @ msg))))
      | Inr (result, sent) \<Rightarrow> finish_call E a schedule_id review_id actor result sent)"

text \<open>
  From the recorded review on: hook, fence, call, outcome. \<^verbatim>\<open>find_tool\<close> ran at the start of the same
  operation, so the connector is live; the source would panic otherwise, which the model represents by
  an ordinary failure that \<open>find_tool\<close> makes unreachable.
\<close>

definition reviewed_call :: "'l conn_env \<Rightarrow> attempt \<Rightarrow> string \<Rightarrow> string \<Rightarrow> string \<Rightarrow> ('l conn_world, tool_call_failure, string) sm" where
  "reviewed_call E a schedule_id actor review_id =
      bindS (before_execute E a review_id actor) (\<lambda>actor'.
      bindS (fence_or_record E schedule_id review_id actor'
        (\<lambda>e. NeverRan (''stale lease before tool call: '' @ tf_message e))) (\<lambda>_.
      bindS (getS (\<lambda>w. map_of (ss_live (cw_set w)) (at_connector a))) (\<lambda>live.
      case live of
        None \<Rightarrow> throwS (fail_failed ''find_tool checked'')
      | Some l \<Rightarrow>
          let args = object_entries (at_arguments a) in
          bindS (modifyS (\<lambda>w. w\<lparr>cw_calls := cw_calls w @ [(at_connector a, at_name a, args)]\<rparr>)) (\<lambda>_.
          bindS (askS (\<lambda>t. ce_call E t (lc_link l) (at_name a) args)) (connector_answer E a schedule_id review_id actor')))))"

definition device_of :: "string \<Rightarrow> string" where
  "device_of actor = (case strip_prefix ''human:'' actor of None \<Rightarrow> actor | Some i \<Rightarrow> i)"

definition schedule_of :: "string \<Rightarrow> string" where
  "schedule_of actor = (case strip_prefix ''scheduled:'' actor of None \<Rightarrow> actor | Some i \<Rightarrow> i)"

definition execute_call :: "'l conn_env \<Rightarrow> attempt \<Rightarrow> string \<Rightarrow> ('l conn_world, tool_call_failure, string) sm" where
  "execute_call E a actor =
     bindS (askS (ce_instant E)) (\<lambda>created.
     bindS (askS (ce_instant E)) (\<lambda>now.
     bindS (getS (\<lambda>w. check (device_of actor) ''connector'' created now (cw_rate w))) (\<lambda>(ok, rl).
     bindS (modifyS (\<lambda>w. w\<lparr>cw_rate := rl\<rparr>)) (\<lambda>_.
     if \<not> ok then throwS (fail_failed (''rate limit exceeded for connector calls (device '' @ device_of actor @ '')''))
     else
     bindS (check_lease_fence (schedule_of actor)) (\<lambda>_.
     bindS (gate_review E actor a Approved) (reviewed_call E a (schedule_of actor) actor))))))"

section \<open>The gate\<close>

definition make_attempt ::
  "'l conn_env \<Rightarrow> string \<Rightarrow> string \<Rightarrow> approval_policy \<Rightarrow> json \<Rightarrow> string \<Rightarrow> string option \<Rightarrow> attempt" where
  "make_attempt E connector name policy arguments attempt_id replaces =
     \<lparr>at_connector = connector, at_name = name, at_policy = policy, at_approved = Some True,
      at_arguments = arguments, at_attempt_id = attempt_id, at_args_hash = args_hash_of E arguments,
      at_replaces_attempt = replaces\<rparr>"

text \<open>A prompt that was declined or did not complete: a denied review, then the failure.\<close>

definition rejected ::
  "'l conn_env \<Rightarrow> attempt \<Rightarrow> approval_rejection \<Rightarrow> ('l conn_world, tool_call_failure, 'a) sm" where
  "rejected E a rejection w =
     (case record_denied E (decider rejection) a AskDeclined (ar_message rejection) w of
        (Inl failure, w') \<Rightarrow> (Inl (if ar_declined rejection then failure else fail_failed (ar_message rejection)), w')
      | (Inr failure, w') \<Rightarrow> (Inl (if ar_declined rejection then failure else fail_failed (ar_message rejection)), w'))"

definition approved_call ::
  "'l conn_env \<Rightarrow> attempt \<Rightarrow> string \<Rightarrow> string option \<Rightarrow> string option \<Rightarrow> ('l conn_world, tool_call_failure, string) sm" where
  "approved_call E a session_id replaces args_hash =
     bindS (request_tool_approval E session_id (at_connector a) (at_name a) replaces args_hash None) (\<lambda>r.
     case r of
       Inr actor \<Rightarrow> execute_call E a actor
     | Inl rejection \<Rightarrow> rejected E a rejection)"

definition policy_gate :: "'l conn_env \<Rightarrow> attempt \<Rightarrow> session_connectors \<Rightarrow> ('l conn_world, tool_call_failure, string) sm" where
  "policy_gate E a s =
     (case at_policy a of
        Deny \<Rightarrow>
          bindS (record_denied E ''policy:deny'' a ExplicitDeny
            (''tool '' @ debug_str (at_name a) @ '' is denied by its approval policy'')) throwS
      | Ask \<Rightarrow>
          if ss_autonomous s then
            bindS (record_denied E (auto_actor s ''scheduled:unknown-trigger'') a NoHumanPresent
              (''tool '' @ debug_str (at_name a) @ '' requires approval, which is unavailable in autonomous mode; '' @
               ''denied by the scheduled-session policy'')) throwS
          else approved_call E a (ss_session_id s) None None
      | Allow \<Rightarrow> execute_call E a (auto_actor s ''policy:allow''))"

definition call_tool_detailed :: "'l conn_env \<Rightarrow> string \<Rightarrow> json \<Rightarrow> ('l conn_world, tool_call_failure, string) sm" where
  "call_tool_detailed E name arguments =
     bindS (find_tool E name) (\<lambda>found.
     case found of
       None \<Rightarrow> bindS (getS (\<lambda>w. unknown_tool_error (cw_set w) name)) (\<lambda>m. throwS (fail_failed m))
     | Some (connector, policy) \<Rightarrow>
         bindS (askS (ce_uuid E)) (\<lambda>attempt_id.
         bindS (getS cw_set) (policy_gate E (make_attempt E connector name policy arguments attempt_id None))))"

definition call_tool :: "'l conn_env \<Rightarrow> string \<Rightarrow> json \<Rightarrow> ('l conn_world, string, string) sm" where
  "call_tool E name arguments = map_errS tf_message (call_tool_detailed E name arguments)"

definition call_tool_replacement ::
  "'l conn_env \<Rightarrow> string \<Rightarrow> json \<Rightarrow> string \<Rightarrow> ('l conn_world, tool_call_failure, string) sm" where
  "call_tool_replacement E name arguments replaces =
     bindS (getS cw_set) (\<lambda>s.
     if ss_autonomous s then
       throwS (fail_denied NoHumanPresent (''replacement for ambiguous attempt '' @ replaces @
         '' requires human approval, which is unavailable in autonomous mode; refused''))
     else
       bindS (find_tool E name) (\<lambda>found.
       case found of
         None \<Rightarrow> bindS (getS (\<lambda>w. unknown_tool_error (cw_set w) name)) (\<lambda>m. throwS (fail_failed m))
       | Some (connector, policy) \<Rightarrow>
           bindS (askS (ce_uuid E)) (\<lambda>attempt_id.
           let a = make_attempt E connector name policy arguments attempt_id (Some replaces) in
           approved_call E a (ss_session_id s) (Some replaces) (Some (at_args_hash a)))))"

section \<open>The MCP server: one cached set per process\<close>

text \<open>
  \<open>ms_cached\<close> is the mutex-protected \<open>CACHED\<close>, \<open>ms_poisoned\<close> whether that mutex is poisoned;
  \<open>self\<close> is the session the server runs in, if any. \<open>cached\<close> is the world with the locked set in it.
\<close>

record 'l mcp_server =
  ms_cached :: "session_connectors option"
  ms_poisoned :: bool
  ms_world :: "'l conn_world"

definition cached :: "'l conn_env \<Rightarrow> string option \<Rightarrow> 'l mcp_server \<Rightarrow> 'l conn_world option" where
  "cached E self s =
     (case self of
        None \<Rightarrow> None
      | Some session_id \<Rightarrow>
          if ms_poisoned s then None
          else
            let same = (case ms_cached s of None \<Rightarrow> False | Some locked \<Rightarrow> ss_session_id locked = session_id);
                fresh = (resolve_set E session_id (ms_world s) :: (unit + unit) \<times> 'l conn_world) in
            Some (if same then (ms_world s)\<lparr>cw_set := the (ms_cached s)\<rparr> else snd fresh))"

definition with_cached ::
  "'l conn_env \<Rightarrow> string option \<Rightarrow> ('l conn_world, 'e, 'a) sm \<Rightarrow> 'e + 'a \<Rightarrow> 'l mcp_server \<Rightarrow> ('e + 'a) \<times> 'l mcp_server" where
  "with_cached E self m d s =
     (case cached E self s of
        None \<Rightarrow> (d, s)
      | Some w \<Rightarrow> (case m w of (r, w') \<Rightarrow> (r, s\<lparr>ms_cached := Some (cw_set w'), ms_world := w'\<rparr>)))"

definition connector_tool_definitions :: "'l conn_env \<Rightarrow> string option \<Rightarrow> ('l mcp_server, 'e, json list) sm" where
  "connector_tool_definitions E self = with_cached E self (tool_definitions E) (Inr [])"

definition is_connector_tool :: "'l conn_env \<Rightarrow> string option \<Rightarrow> string \<Rightarrow> ('l mcp_server, 'e, bool) sm" where
  "is_connector_tool E self name =
     with_cached E self (bindS (find_tool E name) (\<lambda>found. retS (found \<noteq> None))) (Inr False)"

definition call_connector_tool :: "'l conn_env \<Rightarrow> string option \<Rightarrow> string \<Rightarrow> json \<Rightarrow> ('l mcp_server, string, string) sm" where
  "call_connector_tool E self name arguments =
     with_cached E self (call_tool E name arguments) (Inl (''Unknown tool: '' @ name))"

section \<open>What the gate's steps leave alone\<close>

text \<open>
  A calm invariant does not see bookkeeping: the clock, notifications, leases, the rate limiter and the
  audit file. A quiet one also tolerates further lines in the review log. Every step around the call
  itself keeps every quiet invariant.
\<close>

definition calm :: "('l conn_world \<Rightarrow> bool) \<Rightarrow> bool" where
  "calm I =
     (\<forall>w. I w \<longrightarrow> (\<forall>t. I (w\<lparr>cw_tick := t\<rparr>)) \<and> (\<forall>n. I (w\<lparr>cw_notified := n\<rparr>)) \<and> (\<forall>l. I (w\<lparr>cw_leases := l\<rparr>)) \<and>
        (\<forall>r. I (w\<lparr>cw_rate := r\<rparr>)) \<and> (\<forall>a. I (w\<lparr>cw_audit := a\<rparr>)))"

definition quiet :: "('l conn_world \<Rightarrow> bool) \<Rightarrow> bool" where
  "quiet I =
     (calm I \<and> (\<forall>w v ls. I w \<longrightarrow> log_lines v = log_lines (cw_reviews w) @ ls \<longrightarrow> I (w\<lparr>cw_reviews := v\<rparr>)))"

lemma quiet_calm: "quiet I \<Longrightarrow> calm I"
  by (simp add: quiet_def)

lemma calmD:
  assumes "calm I" "I w"
  shows "I (w\<lparr>cw_tick := t\<rparr>)" "I (w\<lparr>cw_notified := n\<rparr>)" "I (w\<lparr>cw_leases := l\<rparr>)" "I (w\<lparr>cw_rate := r\<rparr>)"
    "I (w\<lparr>cw_audit := a\<rparr>)"
  using assms by (auto simp: calm_def)

lemma quietD: "quiet I \<Longrightarrow> I w \<Longrightarrow> log_lines v = log_lines (cw_reviews w) @ ls \<Longrightarrow> I (w\<lparr>cw_reviews := v\<rparr>)"
  by (auto simp: quiet_def)

lemma calm_ask [preserves_intros]: "calm I \<Longrightarrow> preserves I (askS f)"
  by (simp add: preserves_def askS_def calmD)

lemma quiet_review:
  assumes "quiet I" "\<And>v r v'. m v = (r, v') \<Longrightarrow> \<exists>ls. log_lines v' = log_lines v @ ls"
  shows "preserves I (reviewS m)"
  unfolding preserves_def
proof (intro allI impI)
  fix w assume "I w"
  obtain r v where m: "m (cw_reviews w) = (r, v)" by (cases "m (cw_reviews w)")
  then show "I (snd (reviewS m w))" using assms(2) [OF m] quietD [OF assms(1) \<open>I w\<close>] by (auto simp: reviewS_def)
qed

lemma quiet_outcome [preserves_intros]:
  "quiet I \<Longrightarrow> preserves I (reviewS (record_attempt_outcome C now rid oc ac))"
  by (rule quiet_review) (auto dest: record_attempt_outcome_log)

lemma quiet_record_review [preserves_intros]:
  "quiet I \<Longrightarrow> preserves I (reviewS (record_review C uuid now ac co tn ah de rp))"
  by (rule quiet_review) (auto simp: Let_def dest: record_review_log)

lemma quiet_record_outcome [preserves_intros]: "quiet I \<Longrightarrow> preserves I (record_outcome E rid oc ac)"
  unfolding record_outcome_def by (intro preserves_intros quiet_calm) (auto simp: calmD quiet_calm)

lemma calm_audit [preserves_intros]: "calm I \<Longrightarrow> preserves I (audit_attempt E a)"
  unfolding audit_attempt_def by (intro preserves_intros) (auto simp: calmD)

lemma calm_fence_current [preserves_intros]: "calm I \<Longrightarrow> preserves I (fence_is_current f)"
  by (auto simp: preserves_def fence_is_current_def calmD split: prod.splits)

lemma calm_fence [preserves_intros]: "calm I \<Longrightarrow> preserves I (check_lease_fence sid)"
  unfolding check_lease_fence_def by (intro preserves_intros)

lemma quiet_gate_review [preserves_intros]: "quiet I \<Longrightarrow> preserves I (gate_review E ac a de)"
  unfolding gate_review_def by (intro preserves_intros quiet_calm)

lemma quiet_record_denied [preserves_intros]: "quiet I \<Longrightarrow> preserves I (record_denied E ac a re er)"
  unfolding record_denied_def by (intro preserves_intros quiet_calm)

lemma calm_approval [preserves_intros]: "calm I \<Longrightarrow> preserves I (request_tool_approval E sid co tn rp ah hr)"
  unfolding request_tool_approval_def by (intro preserves_intros)

lemma preserves_hook [preserves_intros]:
  "preserves I m \<Longrightarrow> (\<And>s. preserves I (f s)) \<Longrightarrow> (\<And>s. preserves I (g s)) \<Longrightarrow>
     preserves I (case d of HAllow \<Rightarrow> m | HEscalate s \<Rightarrow> f s | HReject s \<Rightarrow> g s)"
  by (cases d) simp_all

lemma quiet_before_execute [preserves_intros]: "quiet I \<Longrightarrow> preserves I (before_execute E a rid ac)"
  unfolding before_execute_def by (intro preserves_intros quiet_calm)

lemma quiet_fence_or_record [preserves_intros]: "quiet I \<Longrightarrow> preserves I (fence_or_record E sid rid ac oc)"
proof -
  assume q: "quiet I"
  have "I (snd (fence_or_record E sid rid ac oc w))" if "I w" for w
  proof (cases "check_lease_fence sid w")
    case (Pair r v)
    have v: "I v" using preservesD [OF calm_fence [OF quiet_calm [OF q]] \<open>I w\<close> Pair] .
    have "preserves I (bindS (record_outcome E rid (oc e) ac) (\<lambda>_. throwS e) :: ('a conn_world, tool_call_failure, unit) sm)" for e
      by (intro preserves_intros q quiet_calm)
    then show ?thesis using v Pair by (cases r) (auto simp: fence_or_record_def preserves_def)
  qed
  then show ?thesis by (simp add: preserves_def)
qed

lemma preserves_call_outcome [preserves_intros]:
  "preserves I m \<Longrightarrow> preserves I n \<Longrightarrow> preserves I k \<Longrightarrow>
     preserves I (case x of DefiniteOk \<Rightarrow> m | DefiniteFailed \<Rightarrow> n | AmbiguousCall \<Rightarrow> k)"
  by (cases x) simp_all

lemma quiet_finish [preserves_intros]: "quiet I \<Longrightarrow> preserves I (finish_call E a sid rid ac res sent)"
  unfolding finish_call_def by (intro preserves_intros quiet_calm)

lemma quiet_answer [preserves_intros]: "quiet I \<Longrightarrow> preserves I (connector_answer E a sid rid ac an)"
  unfolding connector_answer_def by (intro preserves_intros quiet_calm)

lemma quiet_rejected [preserves_intros]: "quiet I \<Longrightarrow> preserves I (rejected E a rj)"
  using quiet_record_denied [of I E "decider rj" a AskDeclined "ar_message rj"]
  by (auto simp: preserves_def rejected_def split: prod.splits sum.splits)

section \<open>The call between its review and its outcome\<close>

text \<open>From \<open>w\<close> to \<open>w'\<close> no call was made, the connector set stayed and the log only grew.\<close>

definition frame :: "'l conn_world \<Rightarrow> 'l conn_world \<Rightarrow> bool" where
  "frame w w' = (cw_calls w' = cw_calls w \<and> cw_set w' = cw_set w \<and>
     (\<exists>ls. log_lines (cw_reviews w') = log_lines (cw_reviews w) @ ls))"

lemma frame_refl [simp]: "frame w w"
  by (simp add: frame_def)

lemma frame_trans [trans]: "frame u v \<Longrightarrow> frame v w \<Longrightarrow> frame u w"
  by (auto simp: frame_def)

lemma quiet_frame: "quiet (frame w)"
  by (auto simp: quiet_def calm_def frame_def)

lemma frameI: "preserves (frame w) m \<Longrightarrow> m w = (r, w') \<Longrightarrow> frame w w'"
  using preservesD [of "frame w" m w r w'] by simp

lemmas calm_frame = quiet_calm [OF quiet_frame]

lemmas framed =
  frameI [OF calm_ask [OF calm_frame]] frameI [OF quiet_before_execute [OF quiet_frame]]
  frameI [OF quiet_fence_or_record [OF quiet_frame]] frameI [OF calm_fence [OF calm_frame]]
  frameI [OF quiet_gate_review [OF quiet_frame]] frameI [OF quiet_record_denied [OF quiet_frame]]
  frameI [OF quiet_rejected [OF quiet_frame]] frameI [OF calm_approval [OF calm_frame]]

definition approved_entry :: "'l conn_env \<Rightarrow> attempt \<Rightarrow> review_entry \<Rightarrow> bool" where
  "approved_entry E a e =
     (re_decision e = Approved \<and> re_connector e = at_connector a \<and> re_tool e = at_name a \<and>
      re_args_hash e = at_args_hash a)"

lemma gate_review_ok:
  assumes "gate_review E ac a de w = (Inr rid, w')"
  shows "\<exists>e. log_lines (cw_reviews w') = log_lines (cw_reviews w) @ [entry_line (ce_codec E) e] \<and>
    re_review_id e = rid \<and> re_decision e = de \<and> re_connector e = at_connector a \<and> re_tool e = at_name a \<and>
    re_args_hash e = at_args_hash a \<and> cw_calls w' = cw_calls w \<and> cw_set w' = cw_set w"
proof -
  let ?w = "w\<lparr>cw_tick := Suc (Suc (cw_tick w))\<rparr>"
  obtain uuid now e v where r: "record_review (ce_codec E) uuid now (actor_parse ac) (at_connector a) (at_name a)
      (at_args_hash a) de (at_replaces_attempt a) (cw_reviews w) = (Inr e, v)"
    and w: "w' = ?w\<lparr>cw_reviews := v\<rparr>" "rid = re_review_id e"
    using assms unfolding gate_review_def
    by (auto simp: askS_def bindS_def map_errS_def reviewS_def retS_def split: prod.splits sum.splits)
  obtain h where h: "log_lines v = log_lines (cw_reviews w) @
      [entry_text (ce_codec E) (link_entry (ce_codec E) h (review_of uuid now (actor_parse ac) (at_connector a) (at_name a)
        (at_args_hash a) de (at_replaces_attempt a)))]"
    "e = the_review (link_entry (ce_codec E) h (review_of uuid now (actor_parse ac) (at_connector a) (at_name a)
        (at_args_hash a) de (at_replaces_attempt a)))"
    using record_review_log [OF r] by (auto simp: Let_def)
  show ?thesis using h w by (intro exI [of _ e]) (simp add: review_of_def the_review_def Let_def)
qed

definition one_call :: "attempt \<Rightarrow> string \<times> string \<times> (string \<times> json) list" where
  "one_call a = (at_connector a, at_name a, object_entries (at_arguments a))"

text \<open>
  A failure after the call is flagged as uncertain or as a lost lease, or the connector's answer was an
  error that is a definite failure.
\<close>

definition clean :: "'l conn_env \<Rightarrow> string \<Rightarrow> json \<Rightarrow> tool_call_failure + string \<Rightarrow> bool" where
  "clean E name args r =
     (\<forall>f. r = Inl f \<longrightarrow> tf_uncertain f \<or> tf_stale_lease f \<or>
        (\<exists>t l e sent. ce_call E t l name (object_entries args) = Inr (Inl e, sent) \<and>
           call_outcome_of e (sent \<noteq> None) = DefiniteFailed))"

lemma call_outcome_failed: "call_outcome_of e sent \<noteq> DefiniteOk"
  by (cases "(e, sent)" rule: call_outcome_of.cases) auto

lemma record_outcome_ok: "record_outcome E rid oc ac w \<noteq> (Inl e, w')"
  by (auto simp: record_outcome_def sm_simps askS_def reviewS_def split: prod.splits sum.splits)

lemma audit_attempt_ok: "audit_attempt E a w \<noteq> (Inl e, w')"
  by (simp add: audit_attempt_def sm_simps askS_def)

lemma record_outcome_then: "bindS (record_outcome E rid oc ac) k w = (r, w') \<Longrightarrow> \<exists>w1. k () w1 = (r, w')"
  by (auto elim!: bindS_E simp: record_outcome_ok)

lemma audit_then: "bindS (audit_attempt E a) k w = (r, w') \<Longrightarrow> \<exists>w1. k () w1 = (r, w')"
  by (auto elim!: bindS_E simp: audit_attempt_ok)

lemma fence_failure: "check_lease_fence sid w = (Inl f, w') \<Longrightarrow> f = fail_stale_lease sid"
  by (auto simp: check_lease_fence_def fence_is_current_def sm_simps split: option.splits prod.splits if_splits)

lemma fence_or_record_failure: "fence_or_record E sid rid ac oc w = (Inl f, w') \<Longrightarrow> f = fail_stale_lease sid"
  by (auto simp: fence_or_record_def throwS_def dest!: fence_failure record_outcome_then split: prod.splits sum.splits)

lemma finish_call_clean:
  assumes "finish_call E a sid rid ac res sent w = (Inl f, w')"
  shows "tf_uncertain f \<or> tf_stale_lease f \<or> (\<exists>e. res = Inl e \<and> call_outcome_of e (sent \<noteq> None) = DefiniteFailed)"
proof (cases res)
  case (Inr v)
  then show ?thesis using assms
    by (auto simp: finish_call_def retS_def fail_defs elim!: bindS_E dest!: fence_or_record_failure record_outcome_then audit_then)
next
  case (Inl e)
  show ?thesis
  proof (cases "call_outcome_of e (sent \<noteq> None)")
    case AmbiguousCall
    then show ?thesis using assms Inl
      by (auto simp: finish_call_def throwS_def fail_defs Let_def elim!: bindS_E
          dest!: fence_or_record_failure record_outcome_then audit_then)
  qed (use Inl call_outcome_failed in auto)
qed

lemma answer_clean:
  assumes "connector_answer E a sid rid ac (ce_call E t l (at_name a) (object_entries (at_arguments a))) w = (r, w')"
  shows "clean E (at_name a) (at_arguments a) r"
proof (cases "ce_call E t l (at_name a) (object_entries (at_arguments a))")
  case (Inl p)
  then show ?thesis using assms
    by (auto simp: clean_def connector_answer_def Let_def throwS_def fail_defs dest!: record_outcome_then audit_then)
next
  case (Inr q)
  obtain res sent where q: "q = (res, sent)" by (cases q)
  have "finish_call E a sid rid ac res sent w = (r, w')" using assms Inr q by (simp add: connector_answer_def)
  then show ?thesis using finish_call_clean Inr q unfolding clean_def by blast
qed

text \<open>After the review at most one call is handed to a connector, and it is the reviewed one.\<close>

lemma reviewed_call_effect:
  assumes "reviewed_call E a sid ac rid w = (r, w')"
  shows "frame w w' \<or> frame (w\<lparr>cw_calls := cw_calls w @ [one_call a]\<rparr>) w' \<and> clean E (at_name a) (at_arguments a) r"
  using assms unfolding reviewed_call_def
proof (elim bindS_E, goal_cases)
  case (4 ac' w1 u w2 live w3)
  have f: "frame w w3" using 4(1-3) framed(2,3) frame_trans by (fastforce simp: getS_def)
  show ?case
  proof (cases live)
    case None
    then show ?thesis using 4(4) f by (simp add: throwS_def)
  next
    case (Some l)
    let ?w = "w3\<lparr>cw_calls := cw_calls w3 @ [one_call a]\<rparr>"
    have "preserves (frame ?w) (bindS (askS (\<lambda>t. ce_call E t (lc_link l) (at_name a) (object_entries (at_arguments a))))
        (connector_answer E a sid rid ac'))"
      by (intro preserves_intros quiet_frame calm_frame)
    then have "frame ?w w'"
      by (rule frameI) (use 4(4) Some in \<open>simp add: Let_def bindS_def modifyS_def one_call_def\<close>)
    then have "frame (w\<lparr>cw_calls := cw_calls w @ [one_call a]\<rparr>) w'" using f by (auto simp: frame_def)
    moreover have "clean E (at_name a) (at_arguments a) r"
      using 4(4) Some answer_clean by (auto simp: Let_def bindS_def modifyS_def askS_def)
    ultimately show ?thesis by simp
  qed
qed (auto simp: getS_def dest!: framed(2,3) intro: frame_trans)

lemma execute_call_effect:
  assumes "execute_call E a ac w = (r, w')"
  shows "frame w w' \<or> frame (w\<lparr>cw_calls := cw_calls w @ [one_call a]\<rparr>) w' \<and> clean E (at_name a) (at_arguments a) r \<and>
    (\<exists>e pre ls. approved_entry E a e \<and>
       log_lines (cw_reviews w') = log_lines (cw_reviews w) @ pre @ entry_line (ce_codec E) e # ls)"
  using assms unfolding execute_call_def
proof (elim bindS_E, goal_cases)
  case (4 t1 w1 t2 w2 p w3)
  have f3: "frame w w3" using 4(1-3) framed(1) frame_trans by (fastforce simp: getS_def)
  obtain ok rl where p: "p = (ok, rl)" by (cases p)
  let ?w = "w3\<lparr>cw_rate := rl\<rparr>"
  have f: "frame w ?w" using f3 by (simp add: frame_def)
  have rest: "(if \<not> ok then throwS (fail_failed (''rate limit exceeded for connector calls (device '' @ device_of ac @ '')''))
      else bindS (check_lease_fence (schedule_of ac)) (\<lambda>_.
        bindS (gate_review E ac a Approved) (reviewed_call E a (schedule_of ac) ac))) ?w = (r, w')"
    using 4(4) by (simp add: p bindS_def modifyS_def)
  show ?case
  proof (cases ok)
    case True
    with rest have "bindS (check_lease_fence (schedule_of ac)) (\<lambda>_.
        bindS (gate_review E ac a Approved) (reviewed_call E a (schedule_of ac) ac)) ?w = (r, w')" by simp
    then show ?thesis
    proof (elim bindS_E, goal_cases)
      case (3 u w4 rid w5)
      have f4: "frame w w4" using f framed(4) [OF 3(1)] by (rule frame_trans)
      obtain e where e: "log_lines (cw_reviews w5) = log_lines (cw_reviews w4) @ [entry_line (ce_codec E) e]"
          "approved_entry E a e" "cw_calls w5 = cw_calls w4" "cw_set w5 = cw_set w4"
        using gate_review_ok [OF 3(2)] by (auto simp: approved_entry_def)
      consider "frame w5 w'" | "frame (w5\<lparr>cw_calls := cw_calls w5 @ [one_call a]\<rparr>) w'" "clean E (at_name a) (at_arguments a) r"
        using reviewed_call_effect [OF 3(3)] by blast
      then show ?case
      proof cases
        case 1
        then show ?thesis using f4 framed(5) [OF 3(2)] frame_trans by blast
      next
        case 2
        then obtain ls where ls: "log_lines (cw_reviews w') = log_lines (cw_reviews w5) @ ls" by (auto simp: frame_def)
        have "frame (w\<lparr>cw_calls := cw_calls w @ [one_call a]\<rparr>) w' \<and> clean E (at_name a) (at_arguments a) r" using 2 f4 e by (auto simp: frame_def)
        moreover obtain k where "log_lines (cw_reviews w4) = log_lines (cw_reviews w) @ k" using f4 by (auto simp: frame_def)
        ultimately show ?thesis using e ls by (intro disjI2 conjI exI [of _ e] exI [of _ k] exI [of _ ls]) simp_all
      qed
    qed (use f in \<open>auto dest!: framed(4,5) intro: frame_trans\<close>)
  next
    case False
    then show ?thesis using rest f by (simp add: throwS_def)
  qed
qed (auto simp: getS_def modifyS_def dest!: framed(1) intro: frame_trans)

section \<open>Resolving changes only the live set\<close>

text \<open>Everything except the live connectors, the skip reasons and the clock.\<close>

definition forget_live :: "'l conn_world \<Rightarrow> 'l conn_world" where
  "forget_live w = w\<lparr>cw_set := (cw_set w)\<lparr>ss_live := [], ss_skipped := []\<rparr>, cw_tick := 0\<rparr>"

definition same_but_live :: "'l conn_world \<Rightarrow> 'l conn_world \<Rightarrow> bool" where
  "same_but_live w w' = (forget_live w' = forget_live w)"

lemma same_but_live_refl [simp]: "same_but_live w w"
  by (simp add: same_but_live_def)

lemma same_but_live_tick: "same_but_live w w' \<Longrightarrow> same_but_live w (w'\<lparr>cw_tick := t\<rparr>)"
  by (simp add: same_but_live_def forget_live_def)

lemma same_but_live_set:
  "same_but_live w w' \<Longrightarrow> same_but_live w (w'\<lparr>cw_set := (cw_set w')\<lparr>ss_live := l, ss_skipped := k\<rparr>\<rparr>)"
  "same_but_live w w' \<Longrightarrow> same_but_live w (w'\<lparr>cw_set := (cw_set w')\<lparr>ss_live := l\<rparr>\<rparr>)"
  "same_but_live w w' \<Longrightarrow> same_but_live w (w'\<lparr>cw_set := (cw_set w')\<lparr>ss_skipped := k\<rparr>\<rparr>)"
  by (simp_all add: same_but_live_def forget_live_def)

lemma live_ask [preserves_intros]: "preserves (same_but_live w) (askS f)"
  by (simp add: preserves_def askS_def same_but_live_tick)

lemma live_update:
  "preserves (same_but_live w) (set_update (\<lambda>s. s\<lparr>ss_live := f s\<rparr>))"
  "preserves (same_but_live w) (set_update (\<lambda>s. s\<lparr>ss_skipped := g s\<rparr>))"
  "preserves (same_but_live w) (set_update (\<lambda>s. s\<lparr>ss_live := f s, ss_skipped := g s\<rparr>))"
  by (simp_all add: preserves_def set_update_def modifyS_def same_but_live_set)

lemma live_skip [preserves_intros]: "preserves (same_but_live w) (skip_live n r k)"
  unfolding skip_live_def by (intro preserves_intros live_update)

lemma live_refresh_one [preserves_intros]: "preserves (same_but_live w) (refresh_one E d c n at' k)"
  unfolding refresh_one_def by (intro preserves_intros live_update)

lemma live_refresh_all [preserves_intros]: "preserves (same_but_live w) (refresh_all E d c as k)"
  by (induction E d c as k rule: refresh_all.induct) (auto intro!: preserves_intros)

lemma live_refresh [preserves_intros]: "preserves (same_but_live w) (refresh E)"
  unfolding refresh_def by (intro preserves_intros live_update)

lemma live_find_tool: "find_tool E n w = (r, w') \<Longrightarrow> same_but_live w w'"
proof -
  have "preserves (same_but_live w) (find_tool E n)" unfolding find_tool_def by (intro preserves_intros)
  then show "find_tool E n w = (r, w') \<Longrightarrow> same_but_live w w'" by (rule preservesD) simp_all
qed

lemma same_but_liveD:
  assumes "same_but_live w w'"
  shows "cw_calls w' = cw_calls w" "cw_reviews w' = cw_reviews w" "cw_leases w' = cw_leases w" "cw_audit w' = cw_audit w"
    "ss_autonomous (cw_set w') = ss_autonomous (cw_set w)" "ss_lease_fence (cw_set w') = ss_lease_fence (cw_set w)"
    "ss_actor (cw_set w') = ss_actor (cw_set w)" "cw_lease_poisoned w' = cw_lease_poisoned w"
    "ss_session_id (cw_set w') = ss_session_id (cw_set w)"
proof -
  have e: "forget_live w' = forget_live w" using assms by (simp add: same_but_live_def)
  show "cw_calls w' = cw_calls w" using arg_cong [OF e, of cw_calls] by (simp add: forget_live_def)
  show "cw_reviews w' = cw_reviews w" using arg_cong [OF e, of cw_reviews] by (simp add: forget_live_def)
  show "cw_leases w' = cw_leases w" using arg_cong [OF e, of cw_leases] by (simp add: forget_live_def)
  show "cw_audit w' = cw_audit w" using arg_cong [OF e, of cw_audit] by (simp add: forget_live_def)
  show "cw_lease_poisoned w' = cw_lease_poisoned w" using arg_cong [OF e, of cw_lease_poisoned] by (simp add: forget_live_def)
  have s: "(cw_set w')\<lparr>ss_live := [], ss_skipped := []\<rparr> = (cw_set w)\<lparr>ss_live := [], ss_skipped := []\<rparr>"
    using arg_cong [OF e, of cw_set] by (simp add: forget_live_def)
  show "ss_autonomous (cw_set w') = ss_autonomous (cw_set w)" using arg_cong [OF s, of ss_autonomous] by simp
  show "ss_lease_fence (cw_set w') = ss_lease_fence (cw_set w)" using arg_cong [OF s, of ss_lease_fence] by simp
  show "ss_actor (cw_set w') = ss_actor (cw_set w)" using arg_cong [OF s, of ss_actor] by simp
  show "ss_session_id (cw_set w') = ss_session_id (cw_set w)" using arg_cong [OF s, of ss_session_id] by simp
qed

lemma sorted_live_in: "(c, l) \<in> set (sorted_live s) \<Longrightarrow> map_of (ss_live s) c = Some l"
  by (auto simp: sorted_live_def List.map_filter_def)

lemma find_tool_Some:
  assumes "find_tool E n w = (Inr (Some (c, p)), w')"
  shows "\<exists>l. map_of (ss_live (cw_set w')) c = Some l \<and> has_tool l n \<and> p = policy_for l n"
  using assms unfolding find_tool_def
proof (rule bindS_E)
  fix u w1
  assume "getS (\<lambda>w. map_option (\<lambda>(connector, live). (connector, policy_for live n))
      (List.find (\<lambda>(_, live). has_tool live n) (sorted_live (cw_set w)))) w1 = (Inr (Some (c, p)), w')"
  then obtain l where "List.find (\<lambda>(_, live). has_tool live n) (sorted_live (cw_set w')) = Some (c, l)" "p = policy_for l n"
    by (auto simp: getS_def)
  then show ?thesis using sorted_live_in [of c l "cw_set w'"] by (auto simp: find_Some_iff) (metis nth_mem)
qed simp

section \<open>The gate as a whole\<close>

text \<open>One call was handed to a connector, and its approved review is among the lines the gate added to the log.\<close>

definition made_call :: "'l conn_env \<Rightarrow> string \<Rightarrow> json \<Rightarrow> string \<Rightarrow> 'l conn_world \<Rightarrow> 'l conn_world \<Rightarrow> bool" where
  "made_call E n args c w w' =
     (cw_calls w' = cw_calls w @ [(c, n, object_entries args)] \<and>
      (\<exists>e pre ls. re_decision e = Approved \<and> re_connector e = c \<and> re_tool e = n \<and> re_args_hash e = args_hash_of E args \<and>
         log_lines (cw_reviews w') = log_lines (cw_reviews w) @ pre @ entry_line (ce_codec E) e # ls))"

text \<open>\<open>run_effect a w0 w'\<close>: from \<open>w0\<close> either no call was made, or the one of the attempt, reviewed.\<close>

definition run_effect :: "'l conn_env \<Rightarrow> attempt \<Rightarrow> 'l conn_world \<Rightarrow> tool_call_failure + string \<Rightarrow> 'l conn_world \<Rightarrow> bool" where
  "run_effect E a w r w' =
     (frame w w' \<or> frame (w\<lparr>cw_calls := cw_calls w @ [one_call a]\<rparr>) w' \<and> clean E (at_name a) (at_arguments a) r \<and>
      (\<exists>e pre ls. approved_entry E a e \<and>
         log_lines (cw_reviews w') = log_lines (cw_reviews w) @ pre @ entry_line (ce_codec E) e # ls))"

lemma run_effect_frame: "frame w0 w \<Longrightarrow> run_effect E a w r w' \<Longrightarrow> run_effect E a w0 r w'"
  unfolding run_effect_def
proof (elim disjE conjE exE)
  fix e pre ls
  assume "frame w0 w" "frame (w\<lparr>cw_calls := cw_calls w @ [one_call a]\<rparr>) w'" "clean E (at_name a) (at_arguments a) r" "approved_entry E a e"
    "log_lines (cw_reviews w') = log_lines (cw_reviews w) @ pre @ entry_line (ce_codec E) e # ls"
  moreover from \<open>frame w0 w\<close> obtain k where "log_lines (cw_reviews w) = log_lines (cw_reviews w0) @ k"
    by (auto simp: frame_def)
  ultimately show "frame w0 w' \<or> frame (w0\<lparr>cw_calls := cw_calls w0 @ [one_call a]\<rparr>) w' \<and> clean E (at_name a) (at_arguments a) r \<and>
      (\<exists>e pre ls. approved_entry E a e \<and>
         log_lines (cw_reviews w') = log_lines (cw_reviews w0) @ pre @ entry_line (ce_codec E) e # ls)"
    by (intro disjI2 conjI exI [of _ e] exI [of _ "k @ pre"] exI [of _ ls]) (auto simp: frame_def)
qed (auto intro: frame_trans)

lemma approved_call_effect:
  assumes "approved_call E a sid rp ah w = (r, w')"
  shows "run_effect E a w r w'"
  using assms unfolding approved_call_def
proof (rule bindS_E)
  fix e assume "request_tool_approval E sid (at_connector a) (at_name a) rp ah None w = (Inl e, w')"
  from framed(8) [OF this] show ?thesis by (simp add: run_effect_def)
next
  fix x w1
  assume 1: "request_tool_approval E sid (at_connector a) (at_name a) rp ah None w = (Inr x, w1)"
    and 2: "(case x of Inr actor \<Rightarrow> execute_call E a actor | Inl rejection \<Rightarrow> rejected E a rejection) w1 = (r, w')"
  have "run_effect E a w1 r w'"
  proof (cases x)
    case (Inl rj)
    then have "rejected E a rj w1 = (r, w')" using 2 by simp
    from framed(7) [OF this] show ?thesis by (simp add: run_effect_def)
  next
    case (Inr actor)
    then have "execute_call E a actor w1 = (r, w')" using 2 by simp
    from execute_call_effect [OF this] show ?thesis by (simp add: run_effect_def)
  qed
  then show ?thesis by (rule run_effect_frame [OF framed(8) [OF 1]])
qed

lemma policy_gate_effect:
  assumes "policy_gate E a s w = (r, w')"
  shows "frame w w' \<or> run_effect E a w r w' \<and> at_policy a \<noteq> Deny \<and> (ss_autonomous s \<longrightarrow> at_policy a = Allow)"
proof (cases "at_policy a = Deny \<or> at_policy a = Ask \<and> ss_autonomous s")
  case True
  then have "preserves (frame w) (policy_gate E a s)"
    by (cases "at_policy a") (auto simp: policy_gate_def intro!: preserves_intros quiet_frame calm_frame)
  then show ?thesis using assms frameI by blast
next
  case False
  then have "approved_call E a (ss_session_id s) None None w = (r, w') \<or>
      execute_call E a (auto_actor s ''policy:allow'') w = (r, w')"
    using assms by (cases "at_policy a") (simp_all add: policy_gate_def)
  then have "run_effect E a w r w'"
    using approved_call_effect execute_call_effect unfolding run_effect_def by blast
  then show ?thesis using False by (cases "at_policy a") auto
qed

lemma run_made:
  assumes "same_but_live w w0" "run_effect E (make_attempt E c n p args i rp) w0 r w'"
  shows "frame w0 w' \<or> made_call E n args c w w' \<and> cw_set w' = cw_set w0 \<and> clean E n args r"
  using assms same_but_liveD(1,2) [OF assms(1)]
  by (auto simp: run_effect_def made_call_def approved_entry_def frame_def one_call_def make_attempt_def)

lemma detailed_effect:
  assumes "call_tool_detailed E n args w = (r, w')"
  obtains (quiet) w0 where "same_but_live w w0" "frame w0 w'"
  | (made) w0 c l where "same_but_live w w0" "cw_set w' = cw_set w0" "made_call E n args c w w'" "clean E n args r"
      "map_of (ss_live (cw_set w')) c = Some l" "has_tool l n" "policy_for l n \<noteq> Deny"
      "ss_autonomous (cw_set w) \<longrightarrow> policy_for l n = Allow"
  using assms unfolding call_tool_detailed_def
proof (elim bindS_E, goal_cases)
  case (1 e)
  then show ?case using live_find_tool frame_refl by blast
next
  case (2 found w0)
  note live = live_find_tool [OF 2(3)]
  show ?case
  proof (cases found)
    case None
    then have "frame w0 w'" using 2(4) by (simp add: sm_simps)
    then show ?thesis using 2(1) live by blast
  next
    case (Some cp)
    obtain c p where cp: "cp = (c, p)" by (cases cp)
    obtain l where l: "map_of (ss_live (cw_set w0)) c = Some l" "has_tool l n" "p = policy_for l n"
      using find_tool_Some 2(3) Some cp by blast
    let ?w1 = "w0\<lparr>cw_tick := Suc (cw_tick w0)\<rparr>" and ?a = "make_attempt E c n p args (ce_uuid E (cw_tick w0)) None"
    have g: "policy_gate E ?a (cw_set w0) ?w1 = (r, w')" using 2(4) Some cp by (simp add: bindS_def askS_def getS_def)
    have f1: "frame w0 ?w1" by (simp add: frame_def)
    have p: "at_policy ?a = p" by (simp add: make_attempt_def)
    consider "frame w0 w'" | "run_effect E ?a w0 r w'" "p \<noteq> Deny" "ss_autonomous (cw_set w) \<longrightarrow> p = Allow"
      using policy_gate_effect [OF g] run_effect_frame [OF f1] frame_trans [OF f1] same_but_liveD(5) [OF live] p by auto
    then show ?thesis
    proof cases
      case 1
      then show ?thesis using \<open>\<And>w0. same_but_live w w0 \<Longrightarrow> frame w0 w' \<Longrightarrow> thesis\<close> live by blast
    next
      case 2
      then consider "frame w0 w'" | "made_call E n args c w w'" "cw_set w' = cw_set w0" "clean E n args r"
        using run_made [OF live] by blast
      then show ?thesis
        using \<open>\<And>w0. same_but_live w w0 \<Longrightarrow> frame w0 w' \<Longrightarrow> thesis\<close> live l 2(2,3)
          \<open>\<And>w0 c l. same_but_live w w0 \<Longrightarrow> cw_set w' = cw_set w0 \<Longrightarrow> made_call E n args c w w' \<Longrightarrow> clean E n args r \<Longrightarrow>
             map_of (ss_live (cw_set w')) c = Some l \<Longrightarrow> has_tool l n \<Longrightarrow> policy_for l n \<noteq> Deny \<Longrightarrow>
             ss_autonomous (cw_set w) \<longrightarrow> policy_for l n = Allow \<Longrightarrow> thesis\<close>
        by cases metis+
    qed
  qed
qed

lemma replacement_effect:
  assumes "call_tool_replacement E n args rp w = (r, w')"
  obtains (quiet) w0 where "same_but_live w w0" "frame w0 w'"
  | (made) w0 c l where "same_but_live w w0" "cw_set w' = cw_set w0" "made_call E n args c w w'" "clean E n args r"
      "map_of (ss_live (cw_set w')) c = Some l" "has_tool l n" "\<not> ss_autonomous (cw_set w)"
proof (cases "ss_autonomous (cw_set w)")
  case True
  then have "w' = w" using assms by (simp add: call_tool_replacement_def sm_simps)
  then show ?thesis using quiet frame_refl same_but_live_refl by blast
next
  case False
  then have "bindS (find_tool E n) (\<lambda>found.
       case found of
         None \<Rightarrow> bindS (getS (\<lambda>w. unknown_tool_error (cw_set w) n)) (\<lambda>m. throwS (fail_failed m))
       | Some (connector, policy) \<Rightarrow>
           bindS (askS (ce_uuid E)) (\<lambda>attempt_id.
           let a = make_attempt E connector n policy args attempt_id (Some rp) in
           approved_call E a (ss_session_id (cw_set w)) (Some rp) (Some (at_args_hash a)))) w = (r, w')"
    using assms by (simp add: call_tool_replacement_def bindS_def getS_def)
  then show ?thesis
  proof (rule bindS_E)
    fix e assume "find_tool E n w = (Inl e, w')"
    then show ?thesis using live_find_tool frame_refl quiet by blast
  next
    fix found w0
    assume f: "find_tool E n w = (Inr found, w0)" and
      g: "(case found of
         None \<Rightarrow> bindS (getS (\<lambda>w. unknown_tool_error (cw_set w) n)) (\<lambda>m. throwS (fail_failed m))
       | Some (connector, policy) \<Rightarrow>
           bindS (askS (ce_uuid E)) (\<lambda>attempt_id.
           let a = make_attempt E connector n policy args attempt_id (Some rp) in
           approved_call E a (ss_session_id (cw_set w)) (Some rp) (Some (at_args_hash a)))) w0 = (r, w')"
    note live = live_find_tool [OF f]
    show ?thesis
    proof (cases found)
      case None
      then have "frame w0 w'" using g by (simp add: sm_simps)
      then show ?thesis using quiet live by blast
    next
      case (Some cp)
      obtain c p where cp: "cp = (c, p)" by (cases cp)
      obtain l where l: "map_of (ss_live (cw_set w0)) c = Some l" "has_tool l n"
        using find_tool_Some f Some cp by blast
      let ?w1 = "w0\<lparr>cw_tick := Suc (cw_tick w0)\<rparr>" and ?a = "make_attempt E c n p args (ce_uuid E (cw_tick w0)) (Some rp)"
      have "approved_call E ?a (ss_session_id (cw_set w)) (Some rp) (Some (at_args_hash ?a)) ?w1 = (r, w')"
        using g Some cp by (simp add: bindS_def askS_def Let_def)
      then have "run_effect E ?a w0 r w'"
        by (intro run_effect_frame [OF _ approved_call_effect]) (simp_all add: frame_def)
      then show ?thesis using run_made [OF live] l quiet made live False by metis
    qed
  qed
qed

section \<open>The three ways through the gate\<close>

text \<open>
  An operation of the gate ends before it decided anything, or with a denied review, or it runs an attempt for a
  connector that is live. Up to there only the connector set itself was refreshed.
\<close>

definition gate_path :: "'l conn_env \<Rightarrow> 'l conn_world \<Rightarrow> tool_call_failure + string \<Rightarrow> 'l conn_world \<Rightarrow> bool" where
  "gate_path E w r w' =
     ((\<exists>f. r = Inl f) \<and> same_but_live w w' \<or>
      (\<exists>f w1 ac a d m x. r = Inl f \<and> same_but_live w w1 \<and> record_denied E ac a d m w1 = (x, w') \<and>
         map_of (ss_live (cw_set w1)) (at_connector a) \<noteq> None) \<or>
      (\<exists>w1 ac a. same_but_live w w1 \<and> execute_call E a ac w1 = (r, w') \<and>
         map_of (ss_live (cw_set w1)) (at_connector a) \<noteq> None))"

lemma gate_path_live: "same_but_live w w1 \<Longrightarrow> gate_path E w1 r w' \<Longrightarrow> gate_path E w r w'"
  unfolding gate_path_def by (auto simp: same_but_live_def)

lemma approval_live: "request_tool_approval E s c n rp h k w = (r, w') \<Longrightarrow> same_but_live w w' \<and> cw_set w' = cw_set w"
proof -
  have "preserves (\<lambda>v. same_but_live w v \<and> cw_set v = cw_set w) (request_tool_approval E s c n rp h k)"
    unfolding request_tool_approval_def
    by (auto simp: preserves_def askS_def bindS_def retS_def same_but_live_tick Let_def split: sum.splits if_splits)
  then show "request_tool_approval E s c n rp h k w = (r, w') \<Longrightarrow> same_but_live w w' \<and> cw_set w' = cw_set w"
    by (rule preservesD) simp_all
qed

lemma rejected_path:
  "rejected E a rej w = (r, w') \<Longrightarrow> map_of (ss_live (cw_set w)) (at_connector a) \<noteq> None \<Longrightarrow> gate_path E w r w'"
  unfolding gate_path_def rejected_def by (auto split: prod.splits sum.splits) (metis option.distinct(1) same_but_live_refl)+

lemma approved_path:
  assumes "approved_call E a s rp h w = (r, w')" "map_of (ss_live (cw_set w)) (at_connector a) \<noteq> None"
  shows "gate_path E w r w'"
  using assms(1) unfolding approved_call_def
proof (rule bindS_E)
  fix f assume f: "request_tool_approval E s (at_connector a) (at_name a) rp h None w = (Inl f, w')" "r = Inl f"
  show ?thesis using approval_live [OF f(1)] f(2) unfolding gate_path_def by blast
next
  fix x w1
  assume x: "request_tool_approval E s (at_connector a) (at_name a) rp h None w = (Inr x, w1)"
    and y: "(case x of Inl rejection \<Rightarrow> rejected E a rejection | Inr actor \<Rightarrow> execute_call E a actor) w1 = (r, w')"
  note l = approval_live [OF x]
  show ?thesis
  proof (cases x)
    case (Inl rej)
    then show ?thesis using y rejected_path gate_path_live l assms(2) by (metis sum.case(1))
  next
    case (Inr ac)
    then show ?thesis using y l assms(2) unfolding gate_path_def by (metis sum.case(2))
  qed
qed

lemma policy_gate_path:
  assumes "policy_gate E a s w = (r, w')" "map_of (ss_live (cw_set w)) (at_connector a) \<noteq> None"
  shows "gate_path E w r w'"
proof -
  have den: "gate_path E w r w'" if "bindS (record_denied E ac a d m) throwS w = (r, w')" for ac d m
    using that assms(2) unfolding gate_path_def
    by (elim bindS_E) (auto simp: throwS_def, (metis option.distinct(1) same_but_live_refl)+)
  have run: "gate_path E w r w'" if "execute_call E a ac w = (r, w')" for ac
    using that assms(2) same_but_live_refl unfolding gate_path_def by blast
  show ?thesis
    using assms(1) den run approved_path [OF _ assms(2), of E "ss_session_id s" None None r w']
    by (cases "at_policy a") (auto simp: policy_gate_def split: if_splits)
qed

lemma found_path:
  assumes "find_tool E n w = (Inr (Some (c, p)), w1)" "at_connector a = c"
    "policy_gate E a s (w1\<lparr>cw_tick := t\<rparr>) = (r, w') \<or> approved_call E a sid rp h (w1\<lparr>cw_tick := t\<rparr>) = (r, w')"
  shows "gate_path E w r w'"
proof -
  let ?w1 = "w1\<lparr>cw_tick := t\<rparr>"
  have live: "same_but_live w ?w1" using live_find_tool [OF assms(1)] by (rule same_but_live_tick)
  have "map_of (ss_live (cw_set ?w1)) (at_connector a) \<noteq> None" using find_tool_Some [OF assms(1)] assms(2) by auto
  then have "gate_path E ?w1 r w'" using assms(3) policy_gate_path approved_path by metis
  then show ?thesis by (rule gate_path_live [OF live])
qed

lemma gate_paths:
  assumes "call_tool_detailed E n args w = (r, w') \<or> call_tool_replacement E n args rp w = (r, w')"
  shows "gate_path E w r w'"
proof -
  have refused: "gate_path E w (Inl f) v" if "same_but_live w v" for f v
    using that by (simp add: gate_path_def)
  obtain found :: "tool_call_failure + (string \<times> approval_policy) option" and w1 where
    f: "find_tool E n w = (found, w1)" by fastforce
  note live = live_find_tool [OF f]
  note ev = call_tool_detailed_def call_tool_replacement_def bindS_def getS_def throwS_def askS_def Let_def f
  show ?thesis
  proof (cases "found = Inr None \<or> (\<exists>e. found = Inl e)")
    case True
    then show ?thesis using assms refused live same_but_live_refl [of w] by (auto simp: ev split: if_splits)
  next
    case False
    then obtain c p where found: "found = Inr (Some (c, p))" by (metis not_None_eq obj_sumE surj_pair)
    have c: "at_connector (make_attempt E c n p args u k) = c" for u k by (simp add: make_attempt_def)
    show ?thesis
      using assms refused [OF same_but_live_refl]
      by (auto simp: ev found split: if_splits intro: found_path [OF f [unfolded found] c disjI1]
          found_path [OF f [unfolded found] c disjI2])
  qed
qed

text \<open>The lease fence of the session is installed and its check fails now.\<close>

definition fence_stale :: "'l conn_world \<Rightarrow> bool" where
  "fence_stale w =
     (case ss_lease_fence (cw_set w) of
        None \<Rightarrow> False
      | Some f \<Rightarrow> \<not> fst (is_current (cw_lease_poisoned w) (lf_store f) (lf_schedule_id f) (lf_generation f) (cw_leases w)))"

lemma stale_live: "same_but_live w w' \<Longrightarrow> fence_stale w' = fence_stale w"
  unfolding fence_stale_def by (simp add: same_but_liveD split: option.splits)

lemma execute_stale:
  assumes "fence_stale w" "execute_call E a ac w = (r, w')"
  shows "(\<exists>f. r = Inl f) \<and> cw_calls w' = cw_calls w \<and> cw_reviews w' = cw_reviews w"
  using assms unfolding execute_call_def fence_stale_def check_lease_fence_def fence_is_current_def
  by (auto simp: bindS_def askS_def getS_def modifyS_def throwS_def split: option.splits prod.splits if_splits)

definition denied_at_most :: "'l conn_env \<Rightarrow> 'l conn_world \<Rightarrow> 'l conn_world \<Rightarrow> bool" where
  "denied_at_most E w w' =
     (log_lines (cw_reviews w') = log_lines (cw_reviews w) \<or>
      (\<exists>e. re_decision e = Denied \<and>
         log_lines (cw_reviews w') = log_lines (cw_reviews w) @ [entry_line (ce_codec E) e]))"

lemma denied_review:
  assumes "record_review C uuid now ac co tn ah Denied rp v = (r, v')"
  shows "log_lines v' = log_lines v \<or> (\<exists>e. re_decision e = Denied \<and> log_lines v' = log_lines v @ [entry_line C e])"
proof -
  have "\<exists>e. re_decision e = Denied \<and> entry_text C (link_entry C h (review_of uuid now ac co tn ah Denied rp)) = entry_line C e"
    for h
    by (rule exI [of _ "the_review (link_entry C h (review_of uuid now ac co tn ah Denied rp))"])
      (simp add: review_of_def the_review_def Let_def)
  then show ?thesis using record_review_log [OF assms] unfolding Let_def by metis
qed

lemma denied_log:
  assumes "record_denied E ac a d m w = (x, w')"
  shows "cw_calls w' = cw_calls w \<and> denied_at_most E w w'"
proof -
  obtain uuid now r v where v: "record_review (ce_codec E) uuid now (actor_parse ac) (at_connector a) (at_name a)
      (at_args_hash a) Denied (at_replaces_attempt a) (cw_reviews w) = (r, v)"
    "cw_reviews w' = v" "cw_calls w' = cw_calls w"
    using assms unfolding record_denied_def gate_review_def audit_attempt_def
    by (auto simp: askS_def bindS_def map_errS_def reviewS_def retS_def modifyS_def split: prod.splits sum.splits)
  show ?thesis using denied_review [OF v(1)] v(2,3) unfolding denied_at_most_def by simp
qed

section \<open>A review does not stay open\<close>

text \<open>
  On a healthy disk (no failing operation ahead) the log is \<open>settled\<close> at a list of in-flight ids, or the review
  \<open>u\<close> of an attempt is \<open>opened\<close> on top of them while its connector is live.
\<close>

definition settled :: "'l conn_env \<Rightarrow> string list \<Rightarrow> 'l conn_world \<Rightarrow> bool" where
  "settled E ids w =
     (rw_io (cw_reviews w) = [] \<and> review_inv (ce_codec E) (cw_reviews w) \<and>
      inflight_ids (ce_codec E) (log_lines (cw_reviews w)) = ids)"

definition opened :: "'l conn_env \<Rightarrow> string \<Rightarrow> string list \<Rightarrow> string \<Rightarrow> 'l conn_world \<Rightarrow> bool" where
  "opened E c ids u w =
     (settled E (ids @ [u]) w \<and> u \<notin> set ids \<and> u \<in> set (review_ids (ce_codec E) (log_lines (cw_reviews w))) \<and>
      u \<notin> set (outcome_ids (ce_codec E) (log_lines (cw_reviews w))) \<and> map_of (ss_live (cw_set w)) c \<noteq> None)"

text \<open>What the attempt starts from: every id the environment may draw is new to the log.\<close>

definition fresh_ids :: "'l conn_env \<Rightarrow> 'l conn_world \<Rightarrow> bool" where
  "fresh_ids E w = (\<forall>t. ce_uuid E t \<notin> set (review_ids (ce_codec E) (log_lines (cw_reviews w))))"

definition ready :: "'l conn_env \<Rightarrow> string \<Rightarrow> string list \<Rightarrow> 'l conn_world \<Rightarrow> bool" where
  "ready E c ids w = (settled E ids w \<and> fresh_ids E w \<and> map_of (ss_live (cw_set w)) c \<noteq> None)"

lemma calm_settled: "calm (settled E ids)" and calm_opened: "calm (opened E c ids u)" and calm_ready: "calm (ready E c ids)"
  by (simp_all add: calm_def settled_def opened_def fresh_ids_def ready_def)

lemma triple_ask: "calm P \<Longrightarrow> triple P (askS f) (\<lambda>_. P) R"
  by (simp add: triple_def askS_def calm_def)

lemma triple_audit: "calm P \<Longrightarrow> triple P (audit_attempt E a) (\<lambda>_. P) R"
  by (simp add: triple_def audit_attempt_def askS_def bindS_def modifyS_def calm_def)

lemma triple_fence: "calm P \<Longrightarrow> triple P (check_lease_fence sid) (\<lambda>_. P) P"
  by (auto simp: triple_def check_lease_fence_def fence_is_current_def bindS_def getS_def throwS_def retS_def calm_def
      split: option.splits prod.splits)

lemma triple_approval: "calm P \<Longrightarrow> triple P (request_tool_approval E s c n rp h k) (\<lambda>_. P) R"
  unfolding request_tool_approval_def
  by (auto simp: triple_def askS_def bindS_def retS_def Let_def calm_def split: sum.splits if_splits)

definition env_ok :: "'l conn_env \<Rightarrow> bool" where
  "env_ok E = (codec_ok (ce_codec E) \<and> (\<forall>t. ce_now E t \<le> u64_max))"

lemma outcome_settles:
  assumes "codec_ok C" "rw_io v = []" "review_inv C v" "inflight_ids C (log_lines v) = ids @ [u]" "u \<notin> set ids"
    and "u \<in> set (review_ids C (log_lines v))" "u \<notin> set (outcome_ids C (log_lines v))" "now \<le> u64_max"
  shows "\<exists>v' e. record_attempt_outcome C now u oc ac v = (Inr e, v') \<and> rw_io v' = [] \<and> review_inv C v' \<and>
    inflight_ids C (log_lines v') = ids"
proof -
  obtain h where h: "chain_hash C (log_lines v) = Some h" using assms(3) by (auto simp: review_inv_def review_inv_chain)
  obtain v' e where r: "record_attempt_outcome C now u oc ac v = (Inr e, v')" "rw_io v' = []"
      "log_lines v' = log_lines v @ [entry_text C (link_entry C h (outcome_of now u oc ac))]"
    using record_attempt_outcome_healthy [OF assms(2) h assms(6,7)] by blast
  have "inflight_ids C (log_lines v') = ids"
    using assms(4,5) unfolding r(3) inflight_ids_entry [OF assms(1) h]
    by (simp add: outcome_of_def Let_def filter_id_conv) (metis filter_True)
  then show ?thesis using r review_step_inv [OF rs_outcome [OF r(1) assms(8)] assms(1,3)] by blast
qed

lemma triple_record_outcome:
  assumes "env_ok E"
  shows "triple (opened E c ids u) (record_outcome E u oc ac) (\<lambda>_. settled E ids) R"
proof -
  have "case record_outcome E u oc ac w of (Inl _, w') \<Rightarrow> R w' | (Inr _, w') \<Rightarrow> settled E ids w'" if o: "opened E c ids u w" for w
  proof -
    obtain v' e where "record_attempt_outcome (ce_codec E) (ce_now E (cw_tick w)) u oc (actor_parse ac) (cw_reviews w) = (Inr e, v')"
      "rw_io v' = []" "review_inv (ce_codec E) v'" "inflight_ids (ce_codec E) (log_lines v') = ids"
      using outcome_settles [of "ce_codec E" "cw_reviews w" ids u "ce_now E (cw_tick w)"] o assms
      unfolding opened_def settled_def env_ok_def by blast
    then show ?thesis
      by (simp add: record_outcome_def bindS_def askS_def okS_def reviewS_def modifyS_def settled_def)
  qed
  then show ?thesis unfolding triple_def by blast
qed

lemma triple_fence_or_record:
  assumes "env_ok E"
  shows "triple (opened E c ids u) (fence_or_record E sid u ac oc) (\<lambda>_. opened E c ids u) (settled E ids)"
proof -
  have t: "triple (opened E c ids u) (bindS (record_outcome E u (oc e) ac) (\<lambda>_. throwS e :: ('a conn_world, tool_call_failure, unit) sm))
      (\<lambda>_. opened E c ids u) (settled E ids)" for e
    by (intro triple_bind [OF triple_record_outcome [OF assms]] triple_throw)
  show ?thesis
    unfolding triple_def
  proof (intro allI impI)
    fix w assume w: "opened E c ids u w"
    obtain r w1 where f: "check_lease_fence sid w = (r, w1)" by fastforce
    have "opened E c ids u w1" by (rule tripleD [OF triple_fence [OF calm_opened] w f])
    then show "case fence_or_record E sid u ac oc w of (Inl _, w') \<Rightarrow> settled E ids w' | (Inr _, w') \<Rightarrow> opened E c ids u w'"
      using t unfolding triple_def fence_or_record_def f by (cases r) auto
  qed
qed

lemma triple_finish_call:
  assumes "env_ok E"
  shows "triple (opened E c ids u) (finish_call E a sid u ac res sent) (\<lambda>_. settled E ids) (settled E ids)"
proof -
  note steps = triple_bind [OF triple_fence_or_record [OF assms]] triple_bind [OF triple_audit [OF calm_opened]]
    triple_bind [OF triple_record_outcome [OF assms]] triple_ret triple_throw
  show ?thesis
  proof (cases res)
    case (Inr v)
    show ?thesis unfolding finish_call_def Inr sum.case by (intro steps)
  next
    case (Inl e)
    show ?thesis unfolding finish_call_def Inl sum.case Let_def
      by (cases "call_outcome_of e (sent \<noteq> None)") (simp_all only: call_outcome.case, (intro steps; assumption?)+)
  qed
qed

lemma triple_connector_answer:
  assumes "env_ok E"
  shows "triple (opened E c ids u) (connector_answer E a sid u ac ans) (\<lambda>_. settled E ids) (settled E ids)"
proof (cases ans)
  case (Inl p)
  show ?thesis unfolding connector_answer_def Inl sum.case Let_def
    by (intro triple_bind [OF triple_record_outcome [OF assms]] triple_bind [OF triple_audit [OF calm_settled]] triple_throw)
next
  case (Inr q)
  then show ?thesis using triple_finish_call [OF assms] by (cases q) (simp add: connector_answer_def)
qed

lemma triple_before_execute:
  assumes "env_ok E"
  shows "triple (opened E c ids u) (before_execute E a u ac) (\<lambda>_. opened E c ids u) (settled E ids)"
proof -
  note steps = triple_bind [OF triple_ask [OF calm_opened]] triple_bind [OF triple_approval [OF calm_opened]]
    triple_bind [OF triple_record_outcome [OF assms]] triple_bind [OF triple_audit [OF calm_settled]] triple_ret triple_throw
  have get: "triple (opened E c ids u) (getS cw_set) (\<lambda>_. opened E c ids u) (settled E ids)" by (simp add: triple_get)
  show ?thesis
    unfolding before_execute_def Let_def
    by (rule triple_bind [OF get])
      (auto split: before_execute_decision.splits sum.splits intro!: steps)
qed

lemma triple_reviewed_call:
  assumes "env_ok E"
  shows "triple (opened E (at_connector a) ids u) (reviewed_call E a sid ac u) (\<lambda>_. settled E ids) (settled E ids)"
proof -
  let ?O = "opened E (at_connector a) ids u"
  have get: "triple ?O (getS (\<lambda>w. map_of (ss_live (cw_set w)) (at_connector a))) (\<lambda>l w. l \<noteq> None \<and> ?O w) (settled E ids)"
    by (rule triple_get) (simp add: opened_def)
  have call: "triple ?O (modifyS (\<lambda>w. w\<lparr>cw_calls := cw_calls w @ x\<rparr>)) (\<lambda>_. ?O) (settled E ids)" for x
    by (rule triple_modify) (simp add: opened_def settled_def)
  have pre: "triple (\<lambda>w. False) m Q R" for m :: "('a conn_world, tool_call_failure, string) sm" and Q R by (simp add: triple_def)
  show ?thesis
    unfolding reviewed_call_def
    by (rule triple_bind [OF triple_before_execute [OF assms]], rule triple_bind [OF triple_fence_or_record [OF assms]],
        rule triple_bind [OF get])
      (auto split: option.splits simp: pre Let_def
        intro!: triple_bind [OF call] triple_bind [OF triple_ask [OF calm_opened]] triple_connector_answer [OF assms])
qed

lemma review_opens:
  assumes "codec_ok C" "rw_io v = []" "review_inv C v" "inflight_ids C (log_lines v) = ids"
    and "uuid \<notin> set (review_ids C (log_lines v))" "now \<le> u64_max"
  shows "\<exists>v' e. record_review C uuid now ac co tn ah de rp v = (Inr e, v') \<and> re_review_id e = uuid \<and> rw_io v' = [] \<and>
    review_inv C v' \<and> inflight_ids C (log_lines v') = (if de = Approved then ids @ [uuid] else ids) \<and>
    uuid \<in> set (review_ids C (log_lines v')) \<and> uuid \<notin> set (outcome_ids C (log_lines v')) \<and> uuid \<notin> set ids"
proof -
  let ?x = "review_of uuid now ac co tn ah de rp"
  obtain h where h: "chain_hash C (log_lines v) = Some h" using assms(3) by (auto simp: review_inv_def review_inv_chain)
  obtain v' where r: "record_review C uuid now ac co tn ah de rp v = (Inr (the_review (link_entry C h ?x)), v')" "rw_io v' = []"
      "log_lines v' = log_lines v @ [entry_text C (link_entry C h ?x)]"
    using record_review_healthy [OF assms(2) h] by blast
  have out: "uuid \<notin> set (outcome_ids C (log_lines v))" using assms(3,5) by (auto simp: review_inv_def)
  have "tagged_ids C oc (log_lines v') = tagged_ids C oc (log_lines v) @ (if oc then [] else [uuid])" for oc
    unfolding r(3) tagged_ids_append tagged_ids_entry [OF assms(1)] by (simp add: review_of_def Let_def)
  moreover have "inflight_ids C (log_lines v') = (if de = Approved then ids @ [uuid] else ids)"
    using out assms(4) unfolding r(3) inflight_ids_entry [OF assms(1) h] by (simp add: review_of_def Let_def)
  moreover have "uuid \<notin> set ids" using assms(4,5) inflight_ids_reviews by blast
  moreover have "re_review_id (the_review (link_entry C h ?x)) = uuid" by (simp add: review_of_def the_review_def Let_def)
  ultimately show ?thesis
    using r review_step_inv [OF rs_review [OF r(1) assms(6)] assms(1,3)] out by fastforce
qed

lemma triple_gate_review:
  assumes "env_ok E"
  shows "triple (ready E c ids) (gate_review E ac a de)
    (\<lambda>u. if de = Approved then opened E c ids u else settled E ids) R"
  unfolding triple_def
proof (intro allI impI)
  fix w assume w: "ready E c ids w"
  let ?u = "ce_uuid E (cw_tick w)" and ?now = "ce_now E (Suc (cw_tick w))"
  obtain v' e where v: "record_review (ce_codec E) ?u ?now (actor_parse ac) (at_connector a) (at_name a) (at_args_hash a) de
      (at_replaces_attempt a) (cw_reviews w) = (Inr e, v')" "re_review_id e = ?u" "rw_io v' = []" "review_inv (ce_codec E) v'"
      "inflight_ids (ce_codec E) (log_lines v') = (if de = Approved then ids @ [?u] else ids)"
      "?u \<in> set (review_ids (ce_codec E) (log_lines v'))" "?u \<notin> set (outcome_ids (ce_codec E) (log_lines v'))" "?u \<notin> set ids"
    using review_opens [of "ce_codec E" "cw_reviews w" ids ?u ?now] w assms
    unfolding ready_def settled_def fresh_ids_def env_ok_def by blast
  show "case gate_review E ac a de w of (Inl _, w') \<Rightarrow> R w'
      | (Inr u, w') \<Rightarrow> (if de = Approved then opened E c ids u else settled E ids) w'"
    using v w by (simp add: gate_review_def bindS_def askS_def map_errS_def reviewS_def retS_def opened_def settled_def ready_def)
qed

lemma triple_record_denied:
  assumes "env_ok E"
  shows "triple (ready E c ids) (record_denied E ac a d m) (\<lambda>_. settled E ids) (settled E ids)"
  unfolding record_denied_def
  by (rule triple_bind [OF triple_gate_review [OF assms, where c = c and ids = ids and de = Denied]])
    (auto intro!: triple_bind [OF triple_audit [OF calm_settled]] triple_ret)

lemma triple_execute_call:
  assumes "env_ok E"
  shows "triple (ready E (at_connector a) ids) (execute_call E a ac) (\<lambda>_. settled E ids) (settled E ids)"
proof -
  let ?I = "ready E (at_connector a) ids"
  note calm = calm_ready [of E "at_connector a" ids]
  have get: "triple ?I (getS f) (\<lambda>_. ?I) (settled E ids)" for f :: "'a conn_world \<Rightarrow> bool \<times> rate_limiter" by (simp add: triple_get)
  have rate: "triple ?I (modifyS (\<lambda>w. w\<lparr>cw_rate := rl\<rparr>)) (\<lambda>_. ?I) (settled E ids)" for rl
    by (rule triple_modify) (simp add: ready_def settled_def fresh_ids_def)
  have fence: "triple ?I (check_lease_fence sid) (\<lambda>_. ?I) (settled E ids)" for sid
    by (rule triple_conseq [OF triple_fence [OF calm]]) (auto simp: ready_def)
  have rest: "triple ?I (bindS (check_lease_fence (schedule_of ac)) (\<lambda>_.
      bindS (gate_review E ac a Approved) (reviewed_call E a (schedule_of ac) ac))) (\<lambda>_. settled E ids) (settled E ids)"
    using triple_reviewed_call [OF assms]
    by (intro triple_bind [OF fence] triple_bind [OF triple_gate_review [OF assms]]) simp
  show ?thesis
    unfolding execute_call_def
    by (rule triple_bind [OF triple_ask [OF calm]], rule triple_bind [OF triple_ask [OF calm]], rule triple_bind [OF get])
      (auto split: prod.splits simp: ready_def intro!: triple_bind [OF rate] triple_throw rest)
qed

lemma settled_inflight:
  "settled E ids w \<Longrightarrow> fst (inflight_reviews (ce_codec E) (cw_reviews w)) = Inr ids"
proof -
  assume w: "settled E ids w"
  then obtain h where "chain_hash (ce_codec E) (log_lines (cw_reviews w)) = Some h"
    by (auto simp: settled_def review_inv_def review_inv_chain)
  then obtain a b where "scan_inflight (ce_codec E) (log_lines (cw_reviews w)) [] [] = Inr (a, b)"
    using scan_inflight_total chain_parses by metis
  then show ?thesis using w by (auto simp: settled_def inflight_eval inflight_ids_def)
qed

section \<open>A concrete session\<close>

definition ex_link :: connector_link where
  "ex_link = \<lparr>lk_handle = 0,
     lk_tools = [\<lparr>mt_name = ''mail.search'', mt_description = None, mt_input_schema = None\<rparr>,
                 \<lparr>mt_name = ''mail.send'', mt_description = None, mt_input_schema = None\<rparr>]\<rparr>"

definition ex_conn_env :: "json conn_env" where
  "ex_conn_env = \<lparr>ce_codec = ex_codec,
     ce_attach_codec = \<lparr>ac_from_slice = (\<lambda>_. Some [(''mail'', \<lparr>sa_enabled_at_unix_ms = 1, sa_policy = [(''mail.send'', Deny)]\<rparr>)]),
       ac_to_vec = (\<lambda>_. JNull)\<rparr>,
     ce_now = (\<lambda>_. 7), ce_instant = (\<lambda>_. 0), ce_uuid = (\<lambda>t. ''u'' @ show_nat t),
     ce_session_dir = (\<lambda>_. \<lparr>io_flags = [], ad_is_dir = True, ad_file = Some JNull\<rparr>),
     ce_discover = (\<lambda>_. ([(''/c'', ex_manifest)], [])),
     ce_resolve_token = (\<lambda>_ _ _ _. Inr ''tok''), ce_open = (\<lambda>_ _ _ _. Inr ex_link),
     ce_call = (\<lambda>_ _ _ _. Inr (Inr (JObj []), Some 5)), ce_hook = (\<lambda>_ _. HAllow),
     ce_app_request = (\<lambda>_ _ _. Inr (json_obj [(''approved'', JBool True)])), ce_audit_ok = (\<lambda>_. True),
     ce_attach_error = (\<lambda>_. ''''), ce_review_error = (\<lambda>_. '''')\<rparr>"

definition ex_set :: session_connectors where
  "ex_set = \<lparr>ss_session_id = ''s1'', ss_live = [], ss_skipped = [], ss_autonomous = False, ss_actor = None,
     ss_lease_fence = None, ss_outcome_listener = False, ss_before_execute_hook = False\<rparr>"

definition ex_conn_world :: "json conn_world" where
  "ex_conn_world = \<lparr>cw_set = ex_set, cw_reviews = ex_world, cw_leases = ex_lease_db [] 5, cw_lease_poisoned = False,
     cw_rate = rate_limiter_new, cw_audit = [], cw_calls = [], cw_notified = [], cw_tick = 0\<rparr>"

lemma ex_call_made:
  "cw_calls (snd (call_tool_detailed ex_conn_env ''mail.search'' JNull ex_conn_world)) = [(''mail'', ''mail.search'', [])]"
  by code_simp

section \<open>Properties\<close>

lemma quiet_calls: "same_but_live w w0 \<Longrightarrow> frame w0 w' \<Longrightarrow> cw_calls w' = cw_calls w"
  using same_but_liveD(1) by (fastforce simp: frame_def)

text \<open>
  C2. No connector is called without a recorded review. Whatever the environment answers (tokens, clocks, hook,
  approval prompt, a failing disk), a proxied call or an approved replacement hands at most one call to a connector,
  for the requested tool with the requested arguments, and the review log has then grown by an \<open>Approved\<close>
  entry for that connector, that tool and the hash of exactly these arguments.
\<close>

theorem calls_are_reviewed:
  assumes "call_tool_detailed E n args w = (r, w') \<or> call_tool_replacement E n args rp w = (r, w')"
  shows "cw_calls w' = cw_calls w \<or>
    (\<exists>c e pre ls. cw_calls w' = cw_calls w @ [(c, n, object_entries args)] \<and>
       re_decision e = Approved \<and> re_connector e = c \<and> re_tool e = n \<and> re_args_hash e = args_hash_of E args \<and>
       log_lines (cw_reviews w') = log_lines (cw_reviews w) @ pre @ entry_line (ce_codec E) e # ls)"
  using assms
proof
  assume "call_tool_detailed E n args w = (r, w')"
  then show ?thesis by (cases rule: detailed_effect) (auto simp: quiet_calls made_call_def)
next
  assume "call_tool_replacement E n args rp w = (r, w')"
  then show ?thesis by (cases rule: replacement_effect) (auto simp: quiet_calls made_call_def)
qed

theorem calls_are_reviewed_witness:
  "\<exists>c e pre ls. [(''mail'', ''mail.search'', [])] = [(c, ''mail.search'', object_entries JNull)] \<and>
     re_decision e = Approved \<and> re_connector e = c \<and> re_tool e = ''mail.search'' \<and>
     re_args_hash e = args_hash_of ex_conn_env JNull \<and>
     log_lines (cw_reviews (snd (call_tool_detailed ex_conn_env ''mail.search'' JNull ex_conn_world))) =
       pre @ entry_line (ce_codec ex_conn_env) e # ls"
proof -
  have z: "cw_calls ex_conn_world = []" "log_lines (cw_reviews ex_conn_world) = []" by code_simp+
  show ?thesis
    using calls_are_reviewed [OF disjI1 [OF prod.collapse [symmetric]], of ex_conn_env "''mail.search''" JNull ex_conn_world]
    unfolding ex_call_made z by simp
qed

text \<open>
  C8. The approval policy decides. When a proxied call reached a connector, the tool is one the connector listed
  after the refresh of the call, its effective policy is not \<open>Deny\<close>, and in an autonomous session it
  is \<open>Allow\<close>: nobody is there to be asked.
\<close>

theorem policy_decides:
  assumes "call_tool_detailed E n args w = (r, w')" "cw_calls w' \<noteq> cw_calls w"
  shows "\<exists>c l. last (cw_calls w') = (c, n, object_entries args) \<and>
    map_of (ss_live (cw_set w')) c = Some l \<and> has_tool l n \<and> policy_for l n \<noteq> Deny \<and>
    (ss_autonomous (cw_set w) \<longrightarrow> policy_for l n = Allow)"
  using assms(1)
proof (cases rule: detailed_effect)
  case (quiet w0)
  then show ?thesis using assms(2) quiet_calls by blast
next
  case (made w0 c l)
  then show ?thesis by (intro exI [of _ c] exI [of _ l]) (simp add: made_call_def)
qed

theorem policy_decides_witness:
  "\<exists>c l. last (cw_calls (snd (call_tool_detailed ex_conn_env ''mail.search'' JNull ex_conn_world))) =
       (c, ''mail.search'', object_entries JNull) \<and>
     map_of (ss_live (cw_set (snd (call_tool_detailed ex_conn_env ''mail.search'' JNull ex_conn_world)))) c = Some l \<and>
     has_tool l ''mail.search'' \<and> policy_for l ''mail.search'' \<noteq> Deny \<and>
     (ss_autonomous (cw_set ex_conn_world) \<longrightarrow> policy_for l ''mail.search'' = Allow)"
proof (rule policy_decides [OF prod.collapse [symmetric]])
  have z: "cw_calls ex_conn_world = []" by code_simp
  show "cw_calls (snd (call_tool_detailed ex_conn_env ''mail.search'' JNull ex_conn_world)) \<noteq> cw_calls ex_conn_world"
    unfolding ex_call_made z by simp
qed

text \<open>
  A clean failure is clean. When a call was handed to a connector and the caller is told it failed, without
  the uncertain and the stale-lease flag, then the connector itself answered with an error that rules out that the
  action happened. Every other failure after the hand-over carries one of the two flags.
\<close>

lemma clean_failure_is_definite:
  assumes "call_tool_detailed E n args w = (Inl f, w')" "cw_calls w' \<noteq> cw_calls w"
    "\<not> tf_uncertain f" "\<not> tf_stale_lease f"
  shows "\<exists>token link e sent. ce_call E token link n (object_entries args) = Inr (Inl e, sent) \<and>
    call_outcome_of e (sent \<noteq> None) = DefiniteFailed"
  using assms(1)
proof (cases rule: detailed_effect)
  case (quiet w0)
  then show ?thesis using assms(2) quiet_calls by blast
next
  case (made w0 c l)
  then show ?thesis using assms(3,4) by (auto simp: clean_def)
qed

definition ex_refusing_env :: "json conn_env" where
  "ex_refusing_env = ex_conn_env\<lparr>ce_call := (\<lambda>_ _ _ _. Inr (Inl (Stdio (Mcp 1 ''no'')), Some 5))\<rparr>"

lemma ex_refused:
  "case fst (call_tool_detailed ex_refusing_env ''mail.search'' JNull ex_conn_world) of
     Inl f \<Rightarrow> \<not> tf_uncertain f \<and> \<not> tf_stale_lease f | Inr _ \<Rightarrow> False"
  "cw_calls (snd (call_tool_detailed ex_refusing_env ''mail.search'' JNull ex_conn_world)) \<noteq> cw_calls ex_conn_world"
  by code_simp+


text \<open>
  C7. A worker that lost its lease acts on nothing. When the lease fence of the session fails its check, both
  operations of the gate end in an error, no connector is called, and the review log gains nothing or one
  \<open>Denied\<close> entry: no approval is recorded in the name of a run that moved to another worker.
\<close>

theorem stale_worker_acts_on_nothing:
  assumes "call_tool_detailed E n args w = (r, w') \<or> call_tool_replacement E n args rp w = (r, w')"
    and "fence_stale w"
  shows "(\<exists>f. r = Inl f) \<and> cw_calls w' = cw_calls w \<and>
    (log_lines (cw_reviews w') = log_lines (cw_reviews w) \<or>
     (\<exists>e. re_decision e = Denied \<and>
        log_lines (cw_reviews w') = log_lines (cw_reviews w) @ [entry_line (ce_codec E) e]))"
proof -
  consider f where "r = Inl f" "same_but_live w w'"
    | f w1 ac a d m x where "r = Inl f" "same_but_live w w1" "record_denied E ac a d m w1 = (x, w')"
    | w1 ac a where "same_but_live w w1" "execute_call E a ac w1 = (r, w')"
    using gate_paths [OF assms(1)] unfolding gate_path_def by blast
  then show ?thesis
  proof cases
    case 1
    then show ?thesis using same_but_liveD(1,2) [OF 1(2)] by auto
  next
    case 2
    then show ?thesis using denied_log [OF 2(3)] same_but_liveD(1,2) [OF 2(2)] by (auto simp: denied_at_most_def)
  next
    case 3
    have "fence_stale w1" using stale_live [OF 3(1)] assms(2) by simp
    from execute_stale [OF this 3(2)] show ?thesis using same_but_liveD(1,2) [OF 3(1)] by auto
  qed
qed

definition ex_stale_world :: "json conn_world" where
  "ex_stale_world = ex_conn_world\<lparr>cw_leases := ex_lease_db [ex_row ''b'' 5 2] 5, cw_set := ex_set\<lparr>ss_lease_fence :=
     Some \<lparr>lf_store = ex_worker ''a'', lf_schedule_id = ''nightly'', lf_generation = 1\<rparr>\<rparr>\<rparr>"

theorem stale_worker_acts_on_nothing_witness:
  "(\<exists>f. fst (call_tool_detailed ex_conn_env ''mail.search'' JNull ex_stale_world) = Inl f) \<and>
   cw_calls (snd (call_tool_detailed ex_conn_env ''mail.search'' JNull ex_stale_world)) = cw_calls ex_stale_world \<and>
   (let v = snd (call_tool_detailed ex_conn_env ''mail.search'' JNull ex_stale_world) in
    log_lines (cw_reviews v) = log_lines (cw_reviews ex_stale_world) \<or>
    (\<exists>e. re_decision e = Denied \<and>
       log_lines (cw_reviews v) = log_lines (cw_reviews ex_stale_world) @ [entry_line (ce_codec ex_conn_env) e]))"
proof -
  have "fence_stale ex_stale_world"
    by (simp add: fence_stale_def ex_stale_world_def ex_conn_world_def ex_set_def ex_lease_defs lease_op_defs)
  from stale_worker_acts_on_nothing [OF disjI1 [OF prod.collapse [symmetric]] this, of ex_conn_env "''mail.search''" JNull]
  show ?thesis unfolding Let_def .
qed



end
