(* ===== verification/Schedules.thy ===== *)
theory Schedules
  imports Session_Connectors
begin

text \<open>
  The schedules of \<open>supercli-core/src/scheduled.rs\<close>: the bounds of an autonomous run, the validation of a
  schedule, the decision at the tool gate, the single-flight guard, the audit record of a trigger and the registry
  file \<^verbatim>\<open>schedules.json\<close>.
\<close>

section \<open>Bounds and specifications\<close>

definition MIN_INTERVAL_SECS :: nat where "MIN_INTERVAL_SECS = 60"

definition MAX_DURATION_SECS :: nat where "MAX_DURATION_SECS = 24 * 3600"

definition MAX_STEPS :: nat where "MAX_STEPS = 10000"

definition MAX_RETRIES :: nat where "MAX_RETRIES = 3"

definition MAX_ID_LEN :: nat where "MAX_ID_LEN = 64"

definition MAX_TOOL_NAME_LEN :: nat where "MAX_TOOL_NAME_LEN = 128"

lemmas bound_defs = MIN_INTERVAL_SECS_def MAX_DURATION_SECS_def MAX_STEPS_def MAX_RETRIES_def MAX_ID_LEN_def
  MAX_TOOL_NAME_LEN_def

record autonomous_policy =
  ap_max_duration_secs :: nat
  ap_max_steps :: nat
  ap_max_output_bytes :: nat
  ap_max_retries :: nat

definition default_autonomous :: autonomous_policy where
  "default_autonomous = \<lparr>ap_max_duration_secs = 1800, ap_max_steps = 200,
     ap_max_output_bytes = 4 * 1024 * 1024, ap_max_retries = 0\<rparr>"

datatype policy_error =
    BadId | EmptySessionId | IntervalTooShort | BadDuration | BadSteps | BadRetries
  | EmptyTask | BadToolName | BadArguments | TooManySteps

fun policy_error_text :: "policy_error \<Rightarrow> string" where
  "policy_error_text BadId = ''schedule id must be 1-64 chars of [A-Za-z0-9_-]''"
| "policy_error_text EmptySessionId = ''schedule must name a session''"
| "policy_error_text IntervalTooShort = ''schedule interval must be at least 60 seconds''"
| "policy_error_text BadDuration = ''max_duration_secs must be 1..=86400''"
| "policy_error_text BadSteps = ''max_steps must be 1..=10000''"
| "policy_error_text BadRetries = ''max_retries must be 0..=3''"
| "policy_error_text EmptyTask = ''schedule task must list at least one tool call''"
| "policy_error_text BadToolName = ''tool names must be 1-128 chars of [A-Za-z0-9._-]''"
| "policy_error_text BadArguments = ''tool arguments must be a JSON object''"
| "policy_error_text TooManySteps = ''task lists more steps than max_steps allows''"

record scheduled_tool_call =
  tc_tool :: string
  tc_arguments :: json

datatype scheduled_task = ToolCalls "scheduled_tool_call list"

fun step_count :: "scheduled_task \<Rightarrow> nat" where
  "step_count (ToolCalls calls) = length calls"

record schedule_spec =
  sp_id :: string
  sp_session_id :: string
  sp_interval_secs :: nat
  sp_policy :: autonomous_policy
  sp_enabled :: bool
  sp_task :: scheduled_task

fun is_object_or_null :: "json \<Rightarrow> bool" where
  "is_object_or_null (JObj _) = True"
| "is_object_or_null JNull = True"
| "is_object_or_null _ = False"

definition bad_tool_name :: "string \<Rightarrow> bool" where
  "bad_tool_name t =
     (t = [] \<or> length t > MAX_TOOL_NAME_LEN \<or>
      \<not> list_all (\<lambda>c. is_ascii_alphanumeric c \<or> c \<in> {CHR ''.'', CHR ''_'', CHR ''-''}) t)"

fun validate_calls :: "scheduled_tool_call list \<Rightarrow> policy_error + unit" where
  "validate_calls [] = Inr ()"
| "validate_calls (call # calls) =
     (if bad_tool_name (tc_tool call) then Inl BadToolName
      else if \<not> is_object_or_null (tc_arguments call) then Inl BadArguments
      else validate_calls calls)"

text \<open>The number of calls is cast to 32 bits before it is compared.\<close>

definition validate :: "schedule_spec \<Rightarrow> policy_error + unit" where
  "validate s =
     (let p = sp_policy s in
      if sp_id s = [] \<or> length (sp_id s) > MAX_ID_LEN \<or>
         \<not> list_all (\<lambda>c. is_ascii_alphanumeric c \<or> c = CHR ''-'' \<or> c = CHR ''_'') (sp_id s) then Inl BadId
      else if sp_session_id s = [] then Inl EmptySessionId
      else if sp_interval_secs s < MIN_INTERVAL_SECS then Inl IntervalTooShort
      else if ap_max_duration_secs p = 0 \<or> ap_max_duration_secs p > MAX_DURATION_SECS then Inl BadDuration
      else if ap_max_steps p = 0 \<or> ap_max_steps p > MAX_STEPS then Inl BadSteps
      else if ap_max_retries p > MAX_RETRIES then Inl BadRetries
      else case sp_task s of ToolCalls calls \<Rightarrow>
        if calls = [] then Inl EmptyTask
        else if length calls mod 2 ^ 32 > ap_max_steps p then Inl TooManySteps
        else validate_calls calls)"

section \<open>The autonomous decision\<close>

datatype autonomous_decision = DAllow | DDeny deny_reason

fun decide_autonomous :: "approval_policy \<Rightarrow> autonomous_decision" where
  "decide_autonomous Allow = DAllow"
| "decide_autonomous Ask = DDeny NoHumanPresent"
| "decide_autonomous Deny = DDeny ExplicitDeny"

section \<open>Single flight\<close>

record run_guard =
  rg_active :: "string list"
  rg_poisoned :: bool

definition run_guard_new :: run_guard where
  "run_guard_new = \<lparr>rg_active = [], rg_poisoned = False\<rparr>"

definition try_begin :: "string \<Rightarrow> run_guard \<Rightarrow> string option \<times> run_guard" where
  "try_begin schedule_id g =
     (if rg_poisoned g \<or> schedule_id \<in> set (rg_active g) then (None, g)
      else (Some schedule_id, g\<lparr>rg_active := schedule_id # rg_active g\<rparr>))"

definition end_run :: "string \<Rightarrow> run_guard \<Rightarrow> run_guard" where
  "end_run token g = (if rg_poisoned g then g else g\<lparr>rg_active := filter (\<lambda>i. i \<noteq> token) (rg_active g)\<rparr>)"

definition is_active :: "string \<Rightarrow> run_guard \<Rightarrow> bool" where
  "is_active schedule_id g = (\<not> rg_poisoned g \<and> schedule_id \<in> set (rg_active g))"

section \<open>The audit record of a trigger\<close>

datatype run_outcome = Completed | Failed | Killed | TimedOut | SkippedOverlap | NeedsReview

fun run_outcome_str :: "run_outcome \<Rightarrow> string" where
  "run_outcome_str Completed = ''completed''"
| "run_outcome_str Failed = ''failed''"
| "run_outcome_str Killed = ''killed''"
| "run_outcome_str TimedOut = ''timed_out''"
| "run_outcome_str SkippedOverlap = ''skipped_overlap''"
| "run_outcome_str NeedsReview = ''needs_review''"

record run_record =
  rc_schedule_id :: string
  rc_session_id :: string
  rc_triggered_at_ms :: nat
  rc_outcome :: run_outcome
  rc_steps :: nat
  rc_denied_tools :: "string list"
  rc_error :: "string option"

text \<open>The derived serialisation prints the fields in the order of their declaration.\<close>

definition run_record_json :: "run_record \<Rightarrow> json" where
  "run_record_json r = JObj
     [(''schedule_id'', JStr (rc_schedule_id r)), (''session_id'', JStr (rc_session_id r)),
      (''triggered_at_ms'', JNum (int (rc_triggered_at_ms r))), (''outcome'', JStr (run_outcome_str (rc_outcome r))),
      (''steps'', JNum (int (rc_steps r))), (''denied_tools'', JArr (map JStr (rc_denied_tools r))),
      (''error'', opt_str (rc_error r))]"

definition retry_delay_for_attempt :: "nat \<Rightarrow> nat" where
  "retry_delay_for_attempt retry_index = min (saturating_mul 5 (2 ^ min retry_index 6)) 300"

section \<open>The registry\<close>

datatype schedule_store_error = StoreIo | StoreJson | StoreInvalid policy_error

record 'b registry = io_script +
  rg_file :: "'b option"

text \<open>
  The codec is the derived serialisation: \<open>from_slice\<close> reads the file, \<open>to_vec\<close> prints a list of
  schedules and may fail.
\<close>

record 'b spec_codec =
  sc_from_slice :: "'b \<Rightarrow> schedule_spec list option"
  sc_to_vec :: "schedule_spec list \<Rightarrow> 'b option"

definition load_schedules :: "'b spec_codec \<Rightarrow> ('b registry, schedule_store_error, schedule_spec list) sm" where
  "load_schedules C =
     bindS (io_op StoreIo) (\<lambda>_.
     bindS (getS rg_file) (\<lambda>f.
     case f of
       None \<Rightarrow> retS []
     | Some b \<Rightarrow> liftE (ok_or StoreJson (sc_from_slice C b))))"

fun validate_all :: "schedule_spec list \<Rightarrow> schedule_store_error + unit" where
  "validate_all [] = Inr ()"
| "validate_all (s # ss) = (case validate s of Inl e \<Rightarrow> Inl (StoreInvalid e) | Inr _ \<Rightarrow> validate_all ss)"

definition save_schedules :: "'b spec_codec \<Rightarrow> schedule_spec list \<Rightarrow> ('b registry, schedule_store_error, unit) sm" where
  "save_schedules C specs =
     bindS (liftE (validate_all specs)) (\<lambda>_.
     bindS (io_op StoreIo) (\<lambda>_.
     bindS (io_op StoreIo) (\<lambda>_.
     bindS (liftE (ok_or StoreJson (sc_to_vec C specs))) (\<lambda>b.
     bindS (io_op StoreIo) (\<lambda>_.
     bindS (io_op StoreIo) (\<lambda>_.
     modifyS (\<lambda>w. w\<lparr>rg_file := Some b\<rparr>)))))))"

section \<open>Properties\<close>

lemma validate_all_iff: "validate_all ss = Inr () \<longleftrightarrow> (\<forall>s\<in>set ss. validate s = Inr ())"
  by (induction ss) (auto split: sum.splits)

lemma registry_io_file: "io_op e w = (r, w') \<Longrightarrow> rg_file w' = rg_file (w :: 'b registry)"
  by (auto simp: io_op_def split: list.splits if_splits)

lemma save_schedules_effect:
  assumes "save_schedules C specs w = (r, w')"
  shows "(\<exists>e. r = Inl e) \<and> rg_file w' = rg_file w \<or>
    r = Inr () \<and> validate_all specs = Inr () \<and> (\<exists>b. sc_to_vec C specs = Some b \<and> rg_file w' = Some b)"
proof (cases "validate_all specs")
  case (Inl e)
  then have "r = Inl e" "w' = w" using assms by (auto simp: save_schedules_def bindS_def liftE_def)
  then show ?thesis by blast
next
  case (Inr u)
  show ?thesis using assms Inr unfolding save_schedules_def
    by (auto elim!: bindS_E simp: liftE_def modifyS_def ok_or_def split: option.splits dest!: registry_io_file)
qed

text \<open>
  C32. The registry is validated, atomic and read back. With a codec that reads back what it prints, saving either fails and
  leaves the file as it was, or succeeds, and then every saved schedule is valid and loading from a readable disk returns
  exactly the saved list. An invalid schedule is never written.
\<close>

theorem registry_roundtrip:
  assumes "\<forall>ss b. sc_to_vec C ss = Some b \<longrightarrow> sc_from_slice C b = Some ss"
    and "save_schedules C specs w = (r, w')"
  shows "(\<exists>e. r = Inl e) \<and> rg_file w' = rg_file w \<or>
    r = Inr () \<and> (\<forall>s\<in>set specs. validate s = Inr ()) \<and>
    fst (load_schedules C (w'\<lparr>io_flags := []\<rparr>)) = Inr specs"
  using save_schedules_effect [OF assms(2)] assms(1)
  by (auto simp: load_schedules_def bindS_def getS_def liftE_def ok_or_def validate_all_iff)

definition ex_spec_codec :: "schedule_spec list spec_codec" where
  "ex_spec_codec = \<lparr>sc_from_slice = Some, sc_to_vec = Some\<rparr>"

definition ex_schedule :: schedule_spec where
  "ex_schedule = \<lparr>sp_id = ''n'', sp_session_id = ''s1'', sp_interval_secs = 60, sp_policy = default_autonomous,
     sp_enabled = True, sp_task = ToolCalls [\<lparr>tc_tool = ''a'', tc_arguments = JNull\<rparr>]\<rparr>"

theorem registry_roundtrip_witness:
  "fst (load_schedules ex_spec_codec ((snd (save_schedules ex_spec_codec [ex_schedule] \<lparr>io_flags = [], rg_file = None\<rparr>))
     \<lparr>io_flags := []\<rparr>)) = Inr [ex_schedule]"
proof -
  have c: "\<forall>ss b. sc_to_vec ex_spec_codec ss = Some b \<longrightarrow> sc_from_slice ex_spec_codec b = Some ss"
    by (simp add: ex_spec_codec_def)
  have "validate ex_schedule = Inr ()"
    by (simp add: validate_def ex_schedule_def bound_defs default_autonomous_def is_ascii_alphanumeric_def byte_of_def
        bad_tool_name_def)
  then have "fst (save_schedules ex_spec_codec [ex_schedule] \<lparr>io_flags = [], rg_file = None\<rparr>) = Inr ()"
    by (simp add: save_schedules_def bindS_def liftE_def modifyS_def ex_spec_codec_def)
  then show ?thesis
    using registry_roundtrip [OF c prod.collapse [symmetric], of "[ex_schedule]" "\<lparr>io_flags = [], rg_file = None\<rparr>"] by simp
qed

end
