(* ===== verification/Scheduled_Runner.thy ===== *)
theory Scheduled_Runner
  imports Durable_Runs Schedules
begin

text \<open>
  The trigger runner of \<open>supercli-core/src/scheduled.rs\<close>: one attempt over the task, the retry loop, the
  durable run behind it, and \<^verbatim>\<open>run_trigger\<close> with its guards and its audit record.
\<close>

section \<open>The executor and the world of the runner\<close>

text \<open>
  The trait \<^verbatim>\<open>ScheduledToolExecutor\<close> as a record of operations on an executor state. The lease
  database and the log files are shared between the executors and the scheduler, so they are reached
  through the same state: \<open>ex_leases\<close>, \<open>ex_put_leases\<close> and \<open>ex_poisoned\<close> are the database behind a
  fence and its mutex, \<open>ex_read\<close> reads the lines of a file.
\<close>

record ('x, 'l) executor =
  ex_set_autonomous :: "bool \<Rightarrow> 'x \<Rightarrow> 'x"
  ex_is_autonomous :: "'x \<Rightarrow> bool"
  ex_set_actor :: "string \<Rightarrow> 'x \<Rightarrow> 'x"
  ex_set_lease_fence :: "lease_fence option \<Rightarrow> 'x \<Rightarrow> 'x"
  ex_lease_fence :: "'x \<Rightarrow> lease_fence option"
  ex_call :: "string \<Rightarrow> json \<Rightarrow> 'x \<Rightarrow> (tool_call_failure + string) \<times> 'x"
  ex_leases :: "'x \<Rightarrow> lease_db"
  ex_put_leases :: "lease_db \<Rightarrow> 'x \<Rightarrow> 'x"
  ex_poisoned :: "'x \<Rightarrow> bool"
  ex_read :: "string \<Rightarrow> 'x \<Rightarrow> 'l list option"

text \<open>
  The runner's fields, the files it appends to, and what it did: the waits of the retry loop and the calls of the
  run-created callback. \<open>sw_tick\<close> counts the questions put to the environment.
\<close>

record 'x sched_world =
  sw_exec :: 'x
  sw_guard :: run_guard
  sw_runs :: "runs_db option"
  sw_durable_required :: bool
  sw_on_run_created :: bool
  sw_created :: "string list"
  sw_sleeps :: "nat list"
  sw_run_log :: "(string \<times> string) list"
  sw_tick :: nat

text \<open>
  The environment: the clock, fresh ids, the answer of each file operation (\<open>None\<close> for success), the printers of
  JSON values, and the environment of the run journal.
\<close>

record sched_env =
  se_now :: "nat \<Rightarrow> nat"
  se_uuid :: "nat \<Rightarrow> string"
  se_io :: "nat \<Rightarrow> string option"
  se_display :: "json \<Rightarrow> string"
  se_to_string :: "json \<Rightarrow> string option"
  se_runs :: runs_env

definition askW :: "(nat \<Rightarrow> 'a) \<Rightarrow> ('x sched_world, 'e, 'a) sm" where
  "askW f w = (Inr (f (sw_tick w)), w\<lparr>sw_tick := Suc (sw_tick w)\<rparr>)"

definition execW :: "('x \<Rightarrow> 'x) \<Rightarrow> ('x sched_world, 'e, unit) sm" where
  "execW f = modifyS (\<lambda>w. w\<lparr>sw_exec := f (sw_exec w)\<rparr>)"

text \<open>An operation on the attached database whose error is dropped; nothing happens without a database.\<close>

definition runsW :: "(runs_db, runs_error, 'a) sm \<Rightarrow> ('x sched_world, 'e, 'a option) sm" where
  "runsW m w =
     (case sw_runs w of
        None \<Rightarrow> (Inr None, w)
      | Some db \<Rightarrow>
          (case m db of
             (Inl _, db') \<Rightarrow> (Inr None, w\<lparr>sw_runs := Some db'\<rparr>)
           | (Inr x, db') \<Rightarrow> (Inr (Some x), w\<lparr>sw_runs := Some db'\<rparr>)))"

text \<open>Cleanup on every way out, as a destructor does it.\<close>

definition finallyS :: "('s, 'e, 'a) sm \<Rightarrow> ('s \<Rightarrow> 's) \<Rightarrow> ('s, 'e, 'a) sm" where
  "finallyS m f s = (case m s of (r, s') \<Rightarrow> (r, f s'))"

definition runner_new :: "'x \<Rightarrow> 'x sched_world" where
  "runner_new x = \<lparr>sw_exec = x, sw_guard = run_guard_new, sw_runs = None, sw_durable_required = True,
     sw_on_run_created = False, sw_created = [], sw_sleeps = [], sw_run_log = [], sw_tick = 0\<rparr>"

definition set_durable_runs :: "runs_db \<Rightarrow> 'x sched_world \<Rightarrow> 'x sched_world" where
  "set_durable_runs db w = w\<lparr>sw_runs := Some db\<rparr>"

definition set_allow_unjournaled :: "'x sched_world \<Rightarrow> 'x sched_world" where
  "set_allow_unjournaled w = w\<lparr>sw_durable_required := False\<rparr>"

definition on_run_created :: "'x sched_world \<Rightarrow> 'x sched_world" where
  "on_run_created w = w\<lparr>sw_on_run_created := True\<rparr>"

section \<open>The audit line\<close>

definition to_json :: "sched_env \<Rightarrow> run_record \<Rightarrow> string" where
  "to_json E r = (case se_to_string E (run_record_json r) of None \<Rightarrow> ''{}'' | Some s \<Rightarrow> s)"

definition append_run_record :: "sched_env \<Rightarrow> string \<Rightarrow> run_record \<Rightarrow> ('x sched_world, string, unit) sm" where
  "append_run_record E session_dir record =
     bindS (askW (se_io E)) (\<lambda>opened.
     case opened of
       Some e \<Rightarrow> throwS e
     | None \<Rightarrow>
         bindS (askW (se_io E)) (\<lambda>written.
         case written of
           Some e \<Rightarrow> throwS e
         | None \<Rightarrow> modifyS (\<lambda>w. w\<lparr>sw_run_log := sw_run_log w @ [(session_dir, to_json E record)]\<rparr>)))"

definition audit :: "sched_env \<Rightarrow> string \<Rightarrow> run_record \<Rightarrow> ('x sched_world, run_record \<times> string, run_record) sm" where
  "audit E session_dir record =
     bindS (map_errS (\<lambda>source. (record, source)) (append_run_record E session_dir record)) (\<lambda>_. retS record)"

section \<open>One attempt\<close>

record attempt_result =
  rs_outcome :: run_outcome
  rs_steps :: nat
  rs_denied :: "string list"
  rs_error :: "string option"
  rs_uncertain :: bool
  rs_stale_lease :: bool

definition ended :: "run_outcome \<Rightarrow> nat \<Rightarrow> string option \<Rightarrow> attempt_result" where
  "ended outcome steps error = \<lparr>rs_outcome = outcome, rs_steps = steps, rs_denied = [], rs_error = error,
     rs_uncertain = False, rs_stale_lease = False\<rparr>"

definition journal_intent ::
  "sched_env \<Rightarrow> (string \<times> nat) option \<Rightarrow> nat \<Rightarrow> scheduled_tool_call \<Rightarrow> ('x sched_world, 'e, step_intent option) sm" where
  "journal_intent E durable step_no call =
     (case durable of
        None \<Rightarrow> retS None
      | Some (run_id, _) \<Rightarrow> runsW (begin_step run_id step_no Tool
          (step_input_hash (se_runs E) (tc_tool call @ '':'' @ se_display E (tc_arguments call)))))"

definition journal_outcome ::
  "sched_env \<Rightarrow> step_intent option \<Rightarrow> attempt_outcome \<Rightarrow> string option \<Rightarrow> ('x sched_world, 'e, unit) sm" where
  "journal_outcome E intent outcome output =
     (case intent of
        None \<Rightarrow> retS ()
      | Some i \<Rightarrow> bindS (runsW (complete_step (se_runs E) i outcome output)) (\<lambda>_. retS ()))"

definition call_executor ::
  "('x, 'l) executor \<Rightarrow> scheduled_tool_call \<Rightarrow> ('x sched_world, 'e, tool_call_failure + string) sm" where
  "call_executor X call w =
     (case ex_call X (tc_tool call) (tc_arguments call) (sw_exec w) of (r, x) \<Rightarrow> (Inr r, w\<lparr>sw_exec := x\<rparr>))"

definition failed_result :: "scheduled_tool_call \<Rightarrow> nat \<Rightarrow> tool_call_failure \<Rightarrow> attempt_result" where
  "failed_result call steps f = \<lparr>rs_outcome = Failed, rs_steps = steps,
     rs_denied = (if tf_denied f \<noteq> None then [tc_tool call] else []), rs_error = Some (tf_message f),
     rs_uncertain = tf_uncertain f, rs_stale_lease = tf_stale_lease f\<rparr>"

fun attempt_loop ::
  "('x, 'l) executor \<Rightarrow> sched_env \<Rightarrow> autonomous_policy \<Rightarrow> (string \<times> nat) option \<Rightarrow> nat \<Rightarrow> nat \<Rightarrow> scheduled_tool_call list
     \<Rightarrow> nat \<Rightarrow> nat \<Rightarrow> nat \<Rightarrow> ('x sched_world, 'e, attempt_result) sm" where
  "attempt_loop X E p durable start deadline [] idx steps bytes = retS (ended Completed steps None)"
| "attempt_loop X E p durable start deadline (call # calls) idx steps bytes =
     (if idx < start then attempt_loop X E p durable start deadline calls (Suc idx) (Suc steps) bytes
      else
        bindS (askW (se_now E)) (\<lambda>now.
        if now \<ge> deadline then
          retS (ended TimedOut steps
            (Some (''exceeded max_duration_secs ('' @ show_nat (ap_max_duration_secs p) @ '')'')))
        else
          bindS (journal_intent E durable idx call) (\<lambda>intent.
          bindS (call_executor X call) (\<lambda>r.
          case r of
            Inr t \<Rightarrow>
              bindS (journal_outcome E intent (Executed True) (Some t)) (\<lambda>_.
              if saturating_add bytes (length t) > ap_max_output_bytes p then
                retS (ended Killed (Suc steps)
                  (Some (''exceeded max_output_bytes ('' @ show_nat (ap_max_output_bytes p) @ '')'')))
              else if Suc steps \<ge> ap_max_steps p then
                retS (ended Killed (Suc steps) (Some (''exceeded max_steps ('' @ show_nat (ap_max_steps p) @ '')'')))
              else attempt_loop X E p durable start deadline calls (Suc idx) (Suc steps)
                     (saturating_add bytes (length t)))
          | Inl f \<Rightarrow>
              bindS (journal_outcome E intent
                (if tf_uncertain f then Ambiguous (tf_message f) else Executed False) None) (\<lambda>_.
              retS (failed_result call steps f))))))"

definition run_attempt ::
  "('x, 'l) executor \<Rightarrow> sched_env \<Rightarrow> autonomous_policy \<Rightarrow> scheduled_tool_call list \<Rightarrow> (string \<times> nat) option
     \<Rightarrow> ('x sched_world, 'e, attempt_result) sm" where
  "run_attempt X E p calls durable =
     bindS (askW (se_now E)) (\<lambda>started.
     let deadline = saturating_add started (saturating_mul (ap_max_duration_secs p) 1000);
         start_step = (case durable of None \<Rightarrow> 0 | Some (_, s) \<Rightarrow> s) in
     if start_step = u64_max then
       retS \<lparr>rs_outcome = NeedsReview, rs_steps = 0, rs_denied = [],
         rs_error = Some ''durable run has an ambiguous step; human review required'',
         rs_uncertain = True, rs_stale_lease = False\<rparr>
     else attempt_loop X E p durable start_step deadline calls 0 0 0)"

section \<open>The durable run behind a trigger\<close>

definition quote :: "string \<Rightarrow> string" where
  "quote s = CHR 0x22 # s @ [CHR 0x22]"

definition run_plan :: "schedule_spec \<Rightarrow> nat \<Rightarrow> string" where
  "run_plan spec triggered_at_ms =
     ''{'' @ quote ''schedule_id'' @ '':'' @ quote (sp_id spec) @ '','' @ quote ''session_id'' @ '':'' @
     quote (sp_session_id spec) @ '','' @ quote ''triggered_at_ms'' @ '':'' @ show_nat triggered_at_ms @ ''}''"

definition run_budgets :: "autonomous_policy \<Rightarrow> string" where
  "run_budgets p =
     ''{'' @ quote ''max_steps'' @ '':'' @ show_nat (ap_max_steps p) @ '','' @ quote ''max_duration_secs'' @ '':'' @
     show_nat (ap_max_duration_secs p) @ ''}''"

definition is_orphan :: "schedule_spec \<Rightarrow> run \<Rightarrow> bool" where
  "is_orphan spec r =
     (\<not> is_terminal (ru_state r) \<and>
      str_contains (ru_plan r) (quote ''schedule_id'' @ '':'' @ quote (sp_id spec)))"

text \<open>
  Find a run of this schedule that a crash left behind and resume it, or create one. The result is the run and the
  first step to execute, \<^term>\<open>u64_max\<close> when a step needs review. Claims and the first transition are
  attempted; their answers are dropped.
\<close>

definition resume_orphan :: "sched_env \<Rightarrow> string \<Rightarrow> ('x sched_world, 'e, (string \<times> nat) option) sm" where
  "resume_orphan E run_id =
     bindS (runsW (resume_run (se_runs E) run_id)) (\<lambda>r.
     case r of
       None \<Rightarrow> retS None
     | Some plan \<Rightarrow>
         if rp_needs_review_step_no plan \<noteq> None then retS (Some (run_id, u64_max))
         else
           bindS (runsW (claim_run run_id)) (\<lambda>_.
           retS (Some (run_id, case rp_first_incomplete_step_no plan of None \<Rightarrow> 0 | Some s \<Rightarrow> s))))"

definition fresh_run :: "sched_env \<Rightarrow> schedule_spec \<Rightarrow> nat \<Rightarrow> ('x sched_world, 'e, (string \<times> nat) option) sm" where
  "fresh_run E spec triggered_at_ms =
     bindS (askW (se_uuid E)) (\<lambda>uuid.
     bindS (runsW (create_run uuid None (run_plan spec triggered_at_ms) (run_budgets (sp_policy spec)))) (\<lambda>r.
     case r of
       None \<Rightarrow> retS None
     | Some run_id \<Rightarrow>
         bindS (runsW (claim_run run_id)) (\<lambda>_.
         bindS (runsW (transition run_id Queued ExecutingTools)) (\<lambda>_.
         bindS (modifyS (\<lambda>w. if sw_on_run_created w then w\<lparr>sw_created := sw_created w @ [run_id]\<rparr> else w)) (\<lambda>_.
         retS (Some (run_id, 0)))))))"

definition durable_ctx :: "sched_env \<Rightarrow> schedule_spec \<Rightarrow> nat \<Rightarrow> ('x sched_world, 'e, (string \<times> nat) option) sm" where
  "durable_ctx E spec triggered_at_ms =
     bindS (getS (\<lambda>w. sw_runs w = None)) (\<lambda>none.
     if none then retS None
     else
       bindS (runsW (list_runs None)) (\<lambda>runs.
       case runs of
         None \<Rightarrow> retS None
       | Some rs \<Rightarrow>
           (case List.find (is_orphan spec) rs of
              Some r \<Rightarrow> resume_orphan E (ru_id r)
            | None \<Rightarrow> fresh_run E spec triggered_at_ms)))"

definition close_run :: "string \<Rightarrow> run_state \<Rightarrow> ('x sched_world, 'e, unit) sm" where
  "close_run run_id final =
     bindS (runsW (transition run_id ExecutingTools final)) (\<lambda>_.
     bindS (runsW (transition run_id Queued final)) (\<lambda>_.
     bindS (runsW (transition run_id AwaitingModel final)) (\<lambda>_.
     bindS (runsW (transition run_id AwaitingApproval final)) (\<lambda>_.
     bindS (runsW (transition run_id Paused final)) (\<lambda>_.
     retS ())))))"

definition finish_run :: "(string \<times> nat) option \<Rightarrow> attempt_result \<Rightarrow> ('x sched_world, 'e, unit) sm" where
  "finish_run durable result =
     (case durable of
        None \<Rightarrow> retS ()
      | Some (run_id, _) \<Rightarrow>
          bindS (if rs_outcome result = Completed then close_run run_id run_state.Done
                 else if rs_uncertain result then bindS (runsW (mark_needs_review run_id)) (\<lambda>_. retS ())
                 else close_run run_id run_state.Failed) (\<lambda>_.
          bindS (runsW (release_run run_id)) (\<lambda>_. retS ())))"

section \<open>The retry loop\<close>

definition add_denied :: "string list \<Rightarrow> string list \<Rightarrow> string list" where
  "add_denied denied tools = fold (\<lambda>t acc. if t \<in> set acc then acc else acc @ [t]) tools denied"

definition retryable :: "attempt_result \<Rightarrow> bool" where
  "retryable a = ((rs_outcome a = Failed \<or> rs_outcome a = TimedOut) \<and> \<not> rs_uncertain a \<and> \<not> rs_stale_lease a)"

function retry_loop ::
  "('x, 'l) executor \<Rightarrow> sched_env \<Rightarrow> autonomous_policy \<Rightarrow> scheduled_tool_call list \<Rightarrow> (string \<times> nat) option \<Rightarrow> nat
     \<Rightarrow> string list \<Rightarrow> ('x sched_world, 'e, attempt_result \<times> string list) sm" where
  "retry_loop X E p calls durable attempt_index denied_tools =
     bindS (run_attempt X E p calls durable) (\<lambda>a.
     if \<not> retryable a \<or> attempt_index \<ge> ap_max_retries p then retS (a, add_denied denied_tools (rs_denied a))
     else
       bindS (modifyS (\<lambda>w. w\<lparr>sw_sleeps := sw_sleeps w @ [retry_delay_for_attempt attempt_index]\<rparr>)) (\<lambda>_.
       retry_loop X E p calls durable (Suc attempt_index) (add_denied denied_tools (rs_denied a))))"
  by pat_completeness auto

termination
  by (relation "measure (\<lambda>(X, E, p, calls, durable, i, d). ap_max_retries p - i)") auto

declare retry_loop.simps [simp del]

section \<open>A trigger\<close>

definition record_of :: "schedule_spec \<Rightarrow> nat \<Rightarrow> run_outcome \<Rightarrow> nat \<Rightarrow> string list \<Rightarrow> string option \<Rightarrow> run_record" where
  "record_of spec triggered_at_ms outcome steps denied error =
     \<lparr>rc_schedule_id = sp_id spec, rc_session_id = sp_session_id spec, rc_triggered_at_ms = triggered_at_ms,
      rc_outcome = outcome, rc_steps = steps, rc_denied_tools = denied, rc_error = error\<rparr>"

definition executor_fence_current :: "('x, 'l) executor \<Rightarrow> ('x sched_world, 'e, bool) sm" where
  "executor_fence_current X w =
     (let x = sw_exec w in
      case ex_lease_fence X x of
        None \<Rightarrow> (Inr True, w)
      | Some f \<Rightarrow>
          (case is_current (ex_poisoned X x) (lf_store f) (lf_schedule_id f) (lf_generation f) (ex_leases X x) of
             (b, db) \<Rightarrow> (Inr b, w\<lparr>sw_exec := ex_put_leases X db x\<rparr>)))"

fun calls_of :: "scheduled_task \<Rightarrow> scheduled_tool_call list" where
  "calls_of (ToolCalls calls) = calls"

definition autonomous_run ::
  "('x, 'l) executor \<Rightarrow> sched_env \<Rightarrow> schedule_spec \<Rightarrow> string \<Rightarrow> nat \<Rightarrow> ('x sched_world, run_record \<times> string, run_record) sm" where
  "autonomous_run X E spec session_dir triggered_at_ms =
     bindS (durable_ctx E spec triggered_at_ms) (\<lambda>durable.
     bindS (retry_loop X E (sp_policy spec) (calls_of (sp_task spec)) durable 0 []) (\<lambda>(result, denied).
     let denied_tools = remdups_adj (sort denied) in
     bindS (finish_run durable result) (\<lambda>_.
     bindS (executor_fence_current X) (\<lambda>current.
     if \<not> current then
       retS (record_of spec triggered_at_ms Failed (rs_steps result) denied_tools
         (Some (''stale lease: lost the lease mid-run; completion not recorded'' @
           (case rs_error result of None \<Rightarrow> '''' | Some e \<Rightarrow> ''; last attempt error: '' @ e))))
     else
       audit E session_dir (record_of spec triggered_at_ms (rs_outcome result) (rs_steps result) denied_tools
         (rs_error result))))))"

definition guarded_run ::
  "('x, 'l) executor \<Rightarrow> sched_env \<Rightarrow> schedule_spec \<Rightarrow> string \<Rightarrow> nat \<Rightarrow> ('x sched_world, run_record \<times> string, run_record) sm" where
  "guarded_run X E spec session_dir triggered_at_ms =
     bindS (getS (\<lambda>w. ex_is_autonomous X (sw_exec w))) (\<lambda>previous.
     bindS (execW (ex_set_autonomous X True)) (\<lambda>_.
     bindS (execW (ex_set_actor X (''scheduled:'' @ sp_id spec))) (\<lambda>_.
     finallyS (autonomous_run X E spec session_dir triggered_at_ms)
       (\<lambda>w. w\<lparr>sw_exec := ex_set_autonomous X previous (sw_exec w)\<rparr>))))"

definition run_trigger ::
  "('x, 'l) executor \<Rightarrow> sched_env \<Rightarrow> schedule_spec \<Rightarrow> string \<Rightarrow> ('x sched_world, run_record \<times> string, run_record) sm" where
  "run_trigger X E spec session_dir =
     bindS (askW (se_now E)) (\<lambda>triggered_at_ms.
     let refuse = (\<lambda>outcome error. audit E session_dir (record_of spec triggered_at_ms outcome 0 [] error)) in
     case validate spec of
       Inl e \<Rightarrow> refuse Failed (Some (''invalid schedule: '' @ policy_error_text e))
     | Inr _ \<Rightarrow>
         if \<not> sp_enabled spec then refuse Failed (Some ''schedule is paused'')
         else
           bindS (getS (\<lambda>w. sw_durable_required w \<and> sw_runs w = None)) (\<lambda>unjournaled.
           if unjournaled then
             refuse Failed (Some (''durable runs unavailable: refusing to fire without journal '' @
               ''(explicit opt-out required: allow_unjournaled / --no-durable)''))
           else
             bindS (getS (\<lambda>w. try_begin (sp_id spec) (sw_guard w))) (\<lambda>(token, guard).
             case token of
               None \<Rightarrow> refuse SkippedOverlap None
             | Some t \<Rightarrow>
                 bindS (modifyS (\<lambda>w. w\<lparr>sw_guard := guard\<rparr>)) (\<lambda>_.
                 finallyS (guarded_run X E spec session_dir triggered_at_ms)
                   (\<lambda>w. w\<lparr>sw_guard := end_run t (sw_guard w)\<rparr>)))))"

section \<open>What the steps of a run leave alone\<close>

text \<open>
  A calm invariant does not see the questions to the environment, the run database and the created runs; a sleep-calm
  one does not see the waits. Only calls of the executor and the lease check can touch an invariant that is both.
\<close>

definition runner_calm :: "('x sched_world \<Rightarrow> bool) \<Rightarrow> bool" where
  "runner_calm I =
     (\<forall>w. I w \<longrightarrow> (\<forall>t. I (w\<lparr>sw_tick := t\<rparr>)) \<and> (\<forall>d. sw_runs w \<noteq> None \<longrightarrow> I (w\<lparr>sw_runs := Some d\<rparr>)) \<and>
        (\<forall>c. I (w\<lparr>sw_created := c\<rparr>)))"

definition sleep_calm :: "('x sched_world \<Rightarrow> bool) \<Rightarrow> bool" where
  "sleep_calm I = (\<forall>w s. I w \<longrightarrow> I (w\<lparr>sw_sleeps := s\<rparr>))"

lemma preserves_askW [preserves_intros]: "runner_calm I \<Longrightarrow> preserves I (askW f)"
  by (simp add: preserves_def askW_def runner_calm_def)

lemma preserves_runsW [preserves_intros]: "runner_calm I \<Longrightarrow> preserves I (runsW m)"
  by (auto simp: preserves_def runsW_def runner_calm_def split: option.splits prod.splits sum.splits)

lemma preserves_sleep [preserves_intros]:
  "sleep_calm I \<Longrightarrow> preserves I (modifyS (\<lambda>w. w\<lparr>sw_sleeps := sw_sleeps w @ d\<rparr>))"
  by (simp add: preserves_def modifyS_def sleep_calm_def)

lemma preserves_created [preserves_intros]:
  "runner_calm I \<Longrightarrow> preserves I (modifyS (\<lambda>w. if sw_on_run_created w then w\<lparr>sw_created := sw_created w @ d\<rparr> else w))"
  by (simp add: preserves_def modifyS_def runner_calm_def)

lemma preserves_journal [preserves_intros]:
  "runner_calm I \<Longrightarrow> preserves I (journal_intent E durable n call)"
  "runner_calm I \<Longrightarrow> preserves I (journal_outcome E i oc out)"
  unfolding journal_intent_def journal_outcome_def by (intro preserves_intros; assumption)+

lemma preserves_finish_run [preserves_intros]: "runner_calm I \<Longrightarrow> preserves I (finish_run durable a)"
  unfolding finish_run_def close_run_def by (intro preserves_intros; assumption)

lemma preserves_durable_ctx [preserves_intros]: "runner_calm I \<Longrightarrow> preserves I (durable_ctx E spec t)"
  unfolding durable_ctx_def resume_orphan_def fresh_run_def by (intro preserves_intros; assumption)

text \<open>Every call of the task keeps the invariant.\<close>

definition calls_keep :: "('x, 'l) executor \<Rightarrow> scheduled_tool_call list \<Rightarrow> ('x sched_world \<Rightarrow> bool) \<Rightarrow> bool" where
  "calls_keep X calls I =
     (\<forall>call w r x. call \<in> set calls \<longrightarrow> I w \<longrightarrow>
        ex_call X (tc_tool call) (tc_arguments call) (sw_exec w) = (r, x) \<longrightarrow> I (w\<lparr>sw_exec := x\<rparr>))"

lemma preserves_call: "calls_keep X calls I \<Longrightarrow> call \<in> set calls \<Longrightarrow> preserves I (call_executor X call)"
  by (auto simp: preserves_def call_executor_def calls_keep_def split: prod.splits)

lemma preserves_attempt_loop:
  assumes "runner_calm I" "calls_keep X calls I"
  shows "preserves I (attempt_loop X E p durable start deadline calls idx steps bytes)"
  using assms(2)
proof (induction calls arbitrary: idx steps bytes)
  case (Cons call calls)
  have "calls_keep X calls I" using Cons.prems by (simp add: calls_keep_def)
  note IH = Cons.IH [OF this]
  note c = preserves_call [OF Cons.prems, of call, simplified]
  show ?case
    unfolding attempt_loop.simps by (intro preserves_intros c IH assms(1))
qed (simp add: preserves_intros)

lemma preserves_run_attempt:
  assumes "runner_calm I" "calls_keep X calls I"
  shows "preserves I (run_attempt X E p calls durable)"
  unfolding run_attempt_def by (intro preserves_intros assms preserves_attempt_loop)

lemma preserves_retry_loop:
  assumes "runner_calm I" "sleep_calm I" "calls_keep X calls I"
  shows "preserves I (retry_loop X E p calls durable i d)"
proof (induction "ap_max_retries p - i" arbitrary: i d)
  case 0
  then have "i \<ge> ap_max_retries p" by simp
  then show ?case
    by (subst retry_loop.simps) (auto intro!: preserves_intros preserves_run_attempt assms)
next
  case (Suc k)
  then have "k = ap_max_retries p - Suc i" by simp
  then show ?case
    by (subst retry_loop.simps)
      (rule preserves_bind preserves_if preserves_ret preserves_run_attempt preserves_sleep assms Suc(1) | assumption)+
qed


definition log_calm :: "('x, 'l) executor \<Rightarrow> ('x sched_world \<Rightarrow> bool) \<Rightarrow> bool" where
  "log_calm X I =
     (runner_calm I \<and>
      (\<forall>w. I w \<longrightarrow> (\<forall>l. I (w\<lparr>sw_run_log := l\<rparr>)) \<and> (\<forall>d. I (w\<lparr>sw_exec := ex_put_leases X d (sw_exec w)\<rparr>))))"

lemma preserves_audit [preserves_intros]: "log_calm X I \<Longrightarrow> preserves I (audit E dir r)"
  unfolding audit_def append_run_record_def
  by (intro preserves_intros) (auto simp: log_calm_def)

lemma preserves_fence: "log_calm X I \<Longrightarrow> preserves I (executor_fence_current X)"
  by (auto simp: preserves_def executor_fence_current_def log_calm_def Let_def split: option.splits prod.splits)

lemma preserves_autonomous_run:
  assumes "log_calm X I" "sleep_calm I" "calls_keep X (calls_of (sp_task spec)) I"
  shows "preserves I (autonomous_run X E spec dir t)"
proof -
  have c: "runner_calm I" using assms(1) by (simp add: log_calm_def)
  show ?thesis
    unfolding autonomous_run_def
    by (intro preserves_intros c preserves_retry_loop assms preserves_fence preserves_audit [OF assms(1)])
qed

lemma finallyD: "finallyS m f s = (r, s') \<Longrightarrow> \<exists>t. m s = (r, t) \<and> s' = f t"
  by (auto simp: finallyS_def split: prod.splits)

lemma end_run_begin:
  "\<not> rg_poisoned g \<Longrightarrow> t \<notin> set (rg_active g) \<Longrightarrow> end_run t (g\<lparr>rg_active := t # rg_active g\<rparr>) = g"
  by (cases g) (auto simp: end_run_def filter_id_conv)

text \<open>
  A trigger is refused with an audit line, or the run holds the slot of its schedule.
\<close>

lemma run_trigger_cases:
  assumes "run_trigger X E spec dir w = (r, w')"
  obtains (refused) w1 n oc e where "audit E dir (record_of spec n oc 0 [] e) w1 = (r, w')" "w1 = w\<lparr>sw_tick := Suc (sw_tick w)\<rparr>"
      "oc = Failed \<or> oc = SkippedOverlap"
  | (ran) w1 w2 n where "validate spec = Inr ()" "sp_enabled spec" "sw_durable_required w \<longrightarrow> sw_runs w \<noteq> None"
      "\<not> rg_poisoned (sw_guard w)" "sp_id spec \<notin> set (rg_active (sw_guard w))"
      "w1 = w\<lparr>sw_tick := Suc (sw_tick w), sw_guard := (sw_guard w)\<lparr>rg_active := sp_id spec # rg_active (sw_guard w)\<rparr>\<rparr>"
      "guarded_run X E spec dir n w1 = (r, w2)" "w' = w2\<lparr>sw_guard := end_run (sp_id spec) (sw_guard w2)\<rparr>"
proof -
  let ?w1 = "w\<lparr>sw_tick := Suc (sw_tick w)\<rparr>" and ?n = "se_now E (sw_tick w)"
  let ?w2 = "w\<lparr>sw_tick := Suc (sw_tick w), sw_guard := (sw_guard w)\<lparr>rg_active := sp_id spec # rg_active (sw_guard w)\<rparr>\<rparr>"
  note ev = run_trigger_def bindS_def askW_def Let_def getS_def modifyS_def try_begin_def
  have ref: thesis if "audit E dir (record_of spec ?n oc 0 [] e) ?w1 = (r, w')" "oc = Failed \<or> oc = SkippedOverlap" for oc e
    using that by (rule refused [OF _ refl])
  show thesis
  proof (cases "\<exists>e. validate spec = Inl e")
    case True
    then show ?thesis using assms ref by (auto simp: ev)
  next
    case v: False
    then have v: "validate spec = Inr ()" by (metis (full_types) obj_sumE old.unit.exhaust)
    show ?thesis
    proof (cases "\<not> sp_enabled spec \<or> sw_durable_required w \<and> sw_runs w = None \<or>
        rg_poisoned (sw_guard w) \<or> sp_id spec \<in> set (rg_active (sw_guard w))")
      case True
      then show ?thesis using assms v ref by (auto simp: ev split: if_splits)
    next
      case False
      then have "finallyS (guarded_run X E spec dir ?n) (\<lambda>w. w\<lparr>sw_guard := end_run (sp_id spec) (sw_guard w)\<rparr>) ?w2 = (r, w')"
        using assms v by (auto simp: ev split: if_splits)
      from finallyD [OF this] show ?thesis using ran [OF v _ _ _ _ refl] False by blast
    qed
  qed
qed

lemma guarded_runD:
  assumes "guarded_run X E spec dir n w = (r, w')"
  shows "\<exists>v. autonomous_run X E spec dir n
      (w\<lparr>sw_exec := ex_set_actor X (''scheduled:'' @ sp_id spec) (ex_set_autonomous X True (sw_exec w))\<rparr>) = (r, v) \<and>
    w' = v\<lparr>sw_exec := ex_set_autonomous X (ex_is_autonomous X (sw_exec w)) (sw_exec v)\<rparr>"
  by (rule finallyD) (use assms in \<open>simp add: guarded_run_def execW_def bindS_def getS_def modifyS_def\<close>)

section \<open>The contract of an executor\<close>

text \<open>
  What the runner relies on: the autonomous flag and the fence are what was set last, and no other operation changes
  them.
\<close>

locale tool_executor =
  fixes X :: "('x, 'l) executor"
  assumes autonomous_set: "ex_is_autonomous X (ex_set_autonomous X b x) = b"
    and autonomous_actor: "ex_is_autonomous X (ex_set_actor X a x) = ex_is_autonomous X x"
    and autonomous_leases: "ex_is_autonomous X (ex_put_leases X d x) = ex_is_autonomous X x"
    and autonomous_call: "ex_call X t j x = (r, x') \<Longrightarrow> ex_is_autonomous X x' = ex_is_autonomous X x"
    and fence_set: "ex_lease_fence X (ex_set_lease_fence X f x) = f"
    and fence_autonomous: "ex_lease_fence X (ex_set_autonomous X b x) = ex_lease_fence X x"
    and fence_actor: "ex_lease_fence X (ex_set_actor X a x) = ex_lease_fence X x"
    and fence_leases: "ex_lease_fence X (ex_put_leases X d x) = ex_lease_fence X x"
    and fence_call: "ex_call X t j x = (r, x') \<Longrightarrow> ex_lease_fence X x' = ex_lease_fence X x"
begin

text \<open>An executor invariant: kept by calls made in autonomous mode and by the other operations.\<close>

definition kept :: "('x \<Rightarrow> bool) \<Rightarrow> bool" where
  "kept P =
     ((\<forall>t j x r x'. ex_is_autonomous X x \<longrightarrow> P x \<longrightarrow> ex_call X t j x = (r, x') \<longrightarrow> P x') \<and>
      (\<forall>b x. P x \<longrightarrow> P (ex_set_autonomous X b x)) \<and> (\<forall>a x. P x \<longrightarrow> P (ex_set_actor X a x)) \<and>
      (\<forall>d x. P x \<longrightarrow> P (ex_put_leases X d x)))"

lemma keptD:
  assumes "kept P"
  shows "ex_is_autonomous X x \<Longrightarrow> P x \<Longrightarrow> ex_call X t j x = (r, x') \<Longrightarrow> P x'"
    and "P x \<Longrightarrow> P (ex_set_autonomous X b x)" and "P x \<Longrightarrow> P (ex_set_actor X a x)" and "P x \<Longrightarrow> P (ex_put_leases X d x)"
  using assms unfolding kept_def by blast+

lemma autonomous_run_keeps:
  assumes "kept P" "autonomous_run X E spec dir n w = (r, w')"
    and "ex_is_autonomous X (sw_exec w)" "P (sw_exec w)"
  shows "P (sw_exec w') \<and> ex_lease_fence X (sw_exec w') = ex_lease_fence X (sw_exec w) \<and> sw_guard w' = sw_guard w"
proof -
  define I where "I v = (ex_is_autonomous X (sw_exec v) \<and> P (sw_exec v) \<and>
    ex_lease_fence X (sw_exec v) = ex_lease_fence X (sw_exec w) \<and> sw_guard v = sw_guard w)" for v :: "'x sched_world"
  have "log_calm X I"
    by (simp add: log_calm_def runner_calm_def I_def keptD(4) [OF assms(1)] autonomous_leases fence_leases)
  moreover have "calls_keep X (calls_of (sp_task spec)) I"
    unfolding calls_keep_def I_def using keptD(1) [OF assms(1)] autonomous_call fence_call by fastforce
  moreover have "sleep_calm I" by (simp add: sleep_calm_def I_def)
  ultimately have "preserves I (autonomous_run X E spec dir n)" by (intro preserves_autonomous_run)
  moreover have "I w" by (simp add: I_def assms)
  ultimately have "I w'" using preservesD [of I _ w r w'] assms(2) by blast
  then show ?thesis by (simp add: I_def)
qed

lemma guarded_run_keeps:
  assumes "kept P" "guarded_run X E spec dir n w = (r, w')" "P (sw_exec w)"
  shows "P (sw_exec w') \<and> ex_lease_fence X (sw_exec w') = ex_lease_fence X (sw_exec w) \<and> sw_guard w' = sw_guard w \<and>
    ex_is_autonomous X (sw_exec w') = ex_is_autonomous X (sw_exec w)"
proof -
  let ?x = "ex_set_actor X (''scheduled:'' @ sp_id spec) (ex_set_autonomous X True (sw_exec w))"
  have x: "ex_is_autonomous X ?x" "P ?x" "ex_lease_fence X ?x = ex_lease_fence X (sw_exec w)"
    using keptD(2,3) [OF assms(1)] assms(3) by (simp_all add: autonomous_actor autonomous_set fence_actor fence_autonomous)
  obtain w1 where 1: "autonomous_run X E spec dir n (w\<lparr>sw_exec := ?x\<rparr>) = (r, w1)"
    "w' = w1\<lparr>sw_exec := ex_set_autonomous X (ex_is_autonomous X (sw_exec w)) (sw_exec w1)\<rparr>"
    using guarded_runD [OF assms(2)] by blast
  show ?thesis
    using autonomous_run_keeps [OF assms(1) 1(1)] x keptD(2) [OF assms(1)] 1(2)
    by (simp add: autonomous_set fence_autonomous)
qed

lemma run_trigger_keeps:
  assumes "kept P" "run_trigger X E spec dir w = (r, w')" "P (sw_exec w)"
  shows "P (sw_exec w') \<and> ex_lease_fence X (sw_exec w') = ex_lease_fence X (sw_exec w) \<and> sw_guard w' = sw_guard w \<and>
    ex_is_autonomous X (sw_exec w') = ex_is_autonomous X (sw_exec w)"
  using assms(2)
proof (cases rule: run_trigger_cases)
  case (refused w1 n oc e)
  have "preserves (\<lambda>v. sw_exec v = sw_exec w \<and> sw_guard v = sw_guard w) (audit E dir (record_of spec n oc 0 [] e))"
    unfolding audit_def append_run_record_def by (intro preserves_intros) (auto simp: runner_calm_def)
  from preservesD [OF this _ refused(1)] show ?thesis using assms(3) refused(2) by simp
next
  case (ran w1 w2 n)
  have "P (sw_exec w1)" using ran(6) assms(3) by simp
  from guarded_run_keeps [OF assms(1) ran(7) this] show ?thesis
    using ran(4,5,6,8) end_run_begin by simp
qed

end

section \<open>The connector set of a session as an executor\<close>

definition ends_in :: "string \<Rightarrow> string \<Rightarrow> bool" where
  "ends_in f path = (drop (length path - length f) path = f)"

definition session_executor :: "'l conn_env \<Rightarrow> ('l conn_world, 'l) executor" where
  "session_executor E = \<lparr>
     ex_set_autonomous = (\<lambda>b w. w\<lparr>cw_set := set_autonomous b (cw_set w)\<rparr>),
     ex_is_autonomous = (\<lambda>w. is_autonomous (cw_set w)),
     ex_set_actor = (\<lambda>a w. w\<lparr>cw_set := set_actor a (cw_set w)\<rparr>),
     ex_set_lease_fence = (\<lambda>f w. w\<lparr>cw_set := set_lease_fence f (cw_set w)\<rparr>),
     ex_lease_fence = (\<lambda>w. ss_lease_fence (cw_set w)),
     ex_call = call_tool_detailed E,
     ex_leases = cw_leases,
     ex_put_leases = (\<lambda>d w. w\<lparr>cw_leases := d\<rparr>),
     ex_poisoned = cw_lease_poisoned,
     ex_read = (\<lambda>path w. if ends_in ''/connectors-audit.jsonl'' path then Some (cw_audit w)
       else if ends_in ''/action-reviews.jsonl'' path then rw_log (cw_reviews w) else None)\<rparr>"

lemma session_executor_simps [simp]:
  "ex_set_autonomous (session_executor E) b w = w\<lparr>cw_set := set_autonomous b (cw_set w)\<rparr>"
  "ex_is_autonomous (session_executor E) w = is_autonomous (cw_set w)"
  "ex_set_actor (session_executor E) a w = w\<lparr>cw_set := set_actor a (cw_set w)\<rparr>"
  "ex_set_lease_fence (session_executor E) f w = w\<lparr>cw_set := set_lease_fence f (cw_set w)\<rparr>"
  "ex_lease_fence (session_executor E) w = ss_lease_fence (cw_set w)"
  "ex_call (session_executor E) t j w = call_tool_detailed E t j w"
  "ex_leases (session_executor E) w = cw_leases w"
  "ex_put_leases (session_executor E) d w = w\<lparr>cw_leases := d\<rparr>"
  "ex_poisoned (session_executor E) w = cw_lease_poisoned w"
  by (simp_all add: session_executor_def)

lemma detailed_set:
  assumes "call_tool_detailed E t j w = (r, w')"
  shows "ss_autonomous (cw_set w') = ss_autonomous (cw_set w) \<and> ss_lease_fence (cw_set w') = ss_lease_fence (cw_set w)"
proof -
  obtain w0 where "same_but_live w w0" "cw_set w' = cw_set w0"
    using assms by (cases rule: detailed_effect) (auto simp: frame_def)
  then show ?thesis using same_but_liveD(5,6) by metis
qed

interpretation sxe: tool_executor "session_executor E" for E
  by unfold_locales (auto simp: set_autonomous_def is_autonomous_def set_actor_def set_lease_fence_def dest: detailed_set)

section \<open>Where the live connectors come from\<close>

definition live_manifests :: "(connector_manifest \<Rightarrow> bool) \<Rightarrow> 'l conn_world \<Rightarrow> bool" where
  "live_manifests Q w = (\<forall>(c, l) \<in> set (ss_live (cw_set w)). Q (lc_manifest l))"

lemma live_manifests_ask: "preserves (live_manifests Q) (askS f)"
  by (simp add: preserves_def askS_def live_manifests_def)

lemma set_delete_subset: "set (AList.delete k xs) \<subseteq> set xs"
  by (auto simp: AList.delete_eq)

lemma set_update_subset: "set (AList.update k v xs) \<subseteq> insert (k, v) (set xs)"
  by (induction xs) auto

lemma live_manifests_set:
  assumes "\<And>s c l. (\<forall>c l. (c, l) \<in> set (ss_live s) \<longrightarrow> Q (lc_manifest l)) \<Longrightarrow> (c, l) \<in> set (ss_live (f s)) \<Longrightarrow> Q (lc_manifest l)"
  shows "preserves (live_manifests Q) (set_update f)"
  unfolding preserves_def set_update_def modifyS_def live_manifests_def using assms by (auto split: prod.splits) blast

lemma live_manifests_skip: "preserves (live_manifests Q) (skip_live n r k)"
  unfolding skip_live_def
  by (intro preserves_intros live_manifests_set) (use set_delete_subset in fastforce)

lemma live_manifests_refresh_one:
  assumes "\<And>dir m. d n = Some (dir, m) \<Longrightarrow> Q m"
  shows "preserves (live_manifests Q) (refresh_one E d c n a k)"
proof (cases "d n")
  case None
  then show ?thesis by (simp add: refresh_one_def live_manifests_skip)
next
  case (Some p)
  obtain dir m where p: "p = (dir, m)" by (cases p)
  then have Q: "Q m" using assms Some by simp
  have ins: "preserves (live_manifests Q) (set_update (\<lambda>s. s\<lparr>ss_live := AList.update n
      \<lparr>lc_manifest = m, lc_link = link, lc_policy_overrides = o', lc_token = tk, lc_token_checked_at = now\<rparr> (ss_live s)\<rparr>))"
    for link o' tk now
    by (rule live_manifests_set) (use Q set_update_subset in fastforce)
  have upd: "preserves (live_manifests Q) (set_update (\<lambda>s. s\<lparr>ss_live := map (\<lambda>(n', live).
      if n' = n then (n', live\<lparr>lc_policy_overrides := o', lc_token_checked_at := g live\<rparr>) else (n', live)) (ss_live s)\<rparr>))"
    for o' g by (rule live_manifests_set) (auto split: if_splits)
  show ?thesis
    unfolding refresh_one_def Some p option.case prod.case Let_def
    by (intro preserves_intros live_manifests_ask live_manifests_skip ins upd)
qed

lemma live_manifests_refresh_all:
  assumes "\<And>n dir m. d n = Some (dir, m) \<Longrightarrow> Q m"
  shows "preserves (live_manifests Q) (refresh_all E d c as k)"
  by (induction as arbitrary: k) (auto intro!: preserves_bind live_manifests_refresh_one preserves_ret assms)

lemma live_manifests_ask_bind:
  fixes k :: "'a \<Rightarrow> ('l conn_world, 'e, 'b) sm"
  assumes "\<And>t. preserves (live_manifests Q) (k (f t))"
  shows "preserves (live_manifests Q) (bindS (askS f) k)"
  unfolding preserves_def
proof (intro allI impI)
  fix w :: "'l conn_world" assume "live_manifests Q w"
  then have "live_manifests Q (w\<lparr>cw_tick := Suc (cw_tick w)\<rparr>)" by (simp add: live_manifests_def)
  then show "live_manifests Q (snd (bindS (askS f) k w))"
    using assms [of "cw_tick w"] by (simp add: preserves_def bindS_def askS_def)
qed

lemma live_manifests_refresh:
  assumes "\<And>t dir m. (dir, m) \<in> set (fst (ce_discover E t)) \<Longrightarrow> Q m"
  shows "preserves (live_manifests Q) (refresh E)"
  unfolding refresh_def
proof (intro live_manifests_ask_bind preserves_sum, goal_cases)
  case 1
  then show ?case by (rule live_manifests_set) auto
next
  case (2 t connectors u)
  obtain found errors where f: "ce_discover E u = (found, errors)" by fastforce
  have "(dir, m) \<in> set found \<Longrightarrow> Q m" for dir m using assms [of dir m u] f by simp
  then show ?case
    unfolding f prod.case Let_def
    by (intro preserves_bind live_manifests_set live_manifests_refresh_all) (auto dest!: map_of_SomeD)
qed

lemma policy_gate_set: "policy_gate E a s w = (r, w') \<Longrightarrow> cw_set w' = cw_set w"
  by (drule policy_gate_effect) (auto simp: run_effect_def frame_def)

lemma live_manifests_detailed:
  assumes "\<And>t dir m. (dir, m) \<in> set (fst (ce_discover E t)) \<Longrightarrow> Q m"
    and "call_tool_detailed E n args w = (r, w')" "live_manifests Q w"
  shows "live_manifests Q w'"
proof -
  obtain x :: "tool_call_failure + (string \<times> approval_policy) option" and w0 where f: "find_tool E n w = (x, w0)"
    by fastforce
  have "preserves (live_manifests Q) (find_tool E n :: ('a conn_world, tool_call_failure, (string \<times> approval_policy) option) sm)"
    unfolding find_tool_def by (intro preserves_bind live_manifests_refresh assms(1) preserves_get)
  then have w0: "live_manifests Q w0" using preservesD [of "live_manifests Q" _ w x w0] f assms(3) by blast
  have "cw_set w' = cw_set w0"
  proof (cases "\<exists>c p. x = Inr (Some (c, p))")
    case True
    then show ?thesis
      using assms(2) policy_gate_set by (fastforce simp: call_tool_detailed_def bindS_def f askS_def getS_def)
  next
    case False
    then have "x = Inr None \<or> (\<exists>e. x = Inl e)" by (metis not_None_eq obj_sumE surj_pair)
    then show ?thesis using assms(2) by (auto simp: call_tool_detailed_def bindS_def f getS_def throwS_def)
  qed
  then show ?thesis using w0 by (simp add: live_manifests_def)
qed

text \<open>The tool's calls, and a tool no manifest lets through on its own.\<close>

definition calls_of_tool :: "string \<Rightarrow> 'l conn_world \<Rightarrow> (string \<times> string \<times> (string \<times> json) list) list" where
  "calls_of_tool n w = filter (\<lambda>(c, t, a). t = n) (cw_calls w)"

lemma effective_policy_Allow: "effective_policy m o' n = Allow \<Longrightarrow> default_policy m n = Allow"
  by (cases "default_policy m n") (auto simp: effective_policy_def Let_def policy_order_defs split: option.splits if_splits)

lemma asking_tool_kept:
  assumes "\<And>t dir m. (dir, m) \<in> set (fst (ce_discover E t)) \<Longrightarrow> default_policy m n \<noteq> Allow"
  shows "sxe.kept E (\<lambda>w. live_manifests (\<lambda>m. default_policy m n \<noteq> Allow) w \<and> calls_of_tool n w = K)"
  unfolding sxe.kept_def
proof (intro conjI allI impI, goal_cases)
  case (1 t j x r x')
  then show ?case using live_manifests_detailed [OF assms, where w = x and w' = x'] by simp
next
  case (2 t j x r x')
  have live: "live_manifests (\<lambda>m. default_policy m n \<noteq> Allow) x'"
    using live_manifests_detailed [OF assms, where w = x and w' = x'] 2 by simp
  from 2 have "call_tool_detailed E t j x = (r, x')" by simp
  then show ?case
  proof (cases rule: detailed_effect)
    case (quiet w0)
    show ?thesis using quiet_calls [OF quiet] 2 by (simp add: calls_of_tool_def)
  next
    case (made w0 c l)
    have "(c, l) \<in> set (ss_live (cw_set x'))" using made(5) by (rule map_of_SomeD)
    then have "default_policy (lc_manifest l) n \<noteq> Allow" using live by (auto simp: live_manifests_def)
    moreover have "default_policy (lc_manifest l) t = Allow"
      using made(8) 2(1) effective_policy_Allow by (simp add: policy_for_def is_autonomous_def)
    ultimately have "t \<noteq> n" by auto
    then show ?thesis using made(3) 2 by (simp add: made_call_def calls_of_tool_def)
  qed
qed (auto simp: live_manifests_def calls_of_tool_def set_autonomous_def set_actor_def)

section \<open>The audit line and the bounds of a run\<close>

lemma audit_result:
  assumes "audit E dir rc w = (r, w')"
  shows "r = Inr rc \<and> sw_run_log w' = sw_run_log w @ [(dir, to_json E rc)] \<or>
    (\<exists>src. r = Inl (rc, src)) \<and> sw_run_log w' = sw_run_log w"
  using assms unfolding audit_def append_run_record_def
  by (auto simp: bindS_def map_errS_def askW_def throwS_def modifyS_def retS_def split: option.splits)

lemma fence_lost:
  assumes "executor_fence_current X w = (Inr False, w')"
  shows "ex_lease_fence X (sw_exec w) \<noteq> None"
  using assms by (auto simp: executor_fence_current_def Let_def split: option.splits)

text \<open>A measure of the executor that a call raises by at most one and nothing else changes.\<close>

definition counts_calls :: "('x, 'l) executor \<Rightarrow> ('x \<Rightarrow> nat) \<Rightarrow> bool" where
  "counts_calls X N =
     ((\<forall>t j x r x'. ex_call X t j x = (r, x') \<longrightarrow> N x' \<le> Suc (N x)) \<and> (\<forall>b x. N (ex_set_autonomous X b x) = N x) \<and>
      (\<forall>a x. N (ex_set_actor X a x) = N x) \<and> (\<forall>d x. N (ex_put_leases X d x) = N x))"

definition bounded :: "('x \<Rightarrow> nat) \<Rightarrow> nat list \<Rightarrow> nat \<Rightarrow> 'x sched_world \<Rightarrow> bool" where
  "bounded N sl k w = (sw_sleeps w = sl \<and> N (sw_exec w) \<le> k)"

lemma bounded_askW: "triple (bounded N sl k) (askW f) (\<lambda>_. bounded N sl k) R"
  by (simp add: triple_def askW_def bounded_def)

lemma bounded_journal:
  "triple (bounded N sl k) (journal_intent E durable n call) (\<lambda>_. bounded N sl k) R"
  "triple (bounded N sl k) (journal_outcome E i oc out) (\<lambda>_. bounded N sl k) R"
proof -
  have "triple (bounded N sl k) (runsW m) (\<lambda>_. bounded N sl k) R" for m :: "(runs_db, runs_error, 'z) sm"
    unfolding triple_def
    by (auto simp: runsW_def bounded_def split: option.splits prod.splits sum.splits)
  then show "triple (bounded N sl k) (journal_intent E durable n call) (\<lambda>_. bounded N sl k) R"
    "triple (bounded N sl k) (journal_outcome E i oc out) (\<lambda>_. bounded N sl k) R"
    unfolding journal_intent_def journal_outcome_def
    by (auto split: option.splits intro!: triple_ret triple_bind)
qed

lemma bounded_call:
  assumes "counts_calls X N"
  shows "triple (bounded N sl k) (call_executor X call) (\<lambda>_. bounded N sl (Suc k)) R"
  unfolding triple_def
proof (intro allI impI)
  fix w assume w: "bounded N sl k w"
  obtain r x where c: "ex_call X (tc_tool call) (tc_arguments call) (sw_exec w) = (r, x)" by fastforce
  have "N x \<le> Suc (N (sw_exec w))" using assms c unfolding counts_calls_def by blast
  then show "case call_executor X call w of (Inl _, s') \<Rightarrow> R s' | (Inr _, s') \<Rightarrow> bounded N sl (Suc k) s'"
    using w by (simp add: call_executor_def c bounded_def)
qed

lemma bounded_attempt_loop:
  fixes X :: "('x, 'l) executor"
  assumes "counts_calls X N"
  shows "triple (bounded N sl k)
    (attempt_loop X E p durable start deadline calls idx steps bytes :: ('x sched_world, 'e, attempt_result) sm)
    (\<lambda>_. bounded N sl (k + length calls)) R"
proof (induction calls arbitrary: idx steps bytes k)
  case Nil
  then show ?case by (simp add: triple_ret)
next
  case (Cons call calls)
  have weak: "triple P m (\<lambda>_. bounded N sl (Suc (k + length calls))) R" if "triple P m (\<lambda>_. bounded N sl (k + length calls)) R"
    for P and m :: "('x sched_world, 'e, attempt_result) sm"
    by (rule triple_conseq [OF that]) (auto simp: bounded_def)
  have IH: "triple (bounded N sl (Suc k))
      (attempt_loop X E p durable start deadline calls i s b :: ('x sched_world, 'e, attempt_result) sm)
      (\<lambda>_. bounded N sl (Suc (k + length calls))) R" for i s b
    using Cons.IH [of "Suc k"] by simp
  have fin: "triple (bounded N sl (Suc k)) (retS a) (\<lambda>_. bounded N sl (Suc (k + length calls))) R" for a :: attempt_result
    by (rule triple_ret) (simp add: bounded_def)
  have now: "triple (bounded N sl k) (retS a) (\<lambda>_. bounded N sl (Suc (k + length calls))) R" for a :: attempt_result
    by (rule triple_ret) (simp add: bounded_def)
  show ?case
  proof (cases "idx < start")
    case True
    then show ?thesis using weak [OF Cons.IH] by simp
  next
    case False
    then show ?thesis
      unfolding attempt_loop.simps if_False list.size(4) add_Suc_right Nat.add_0_right
      by (intro triple_bind [OF bounded_askW] triple_if triple_bind [OF bounded_journal(1)]
          triple_bind [OF bounded_call [OF assms]] triple_sum triple_bind [OF bounded_journal(2)] now fin IH)
        (simp_all add: weak [OF Cons.IH])
  qed
qed

lemma bounded_run_attempt:
  assumes "counts_calls X N"
  shows "triple (bounded N sl k) (run_attempt X E p calls durable) (\<lambda>_. bounded N sl (k + length calls)) R"
proof -
  have stop: "triple (bounded N sl k) (retS a) (\<lambda>_. bounded N sl (k + length calls)) R" for a :: attempt_result
    by (rule triple_ret) (simp add: bounded_def)
  show ?thesis
    unfolding run_attempt_def Let_def
    by (rule triple_bind [OF bounded_askW]) (simp add: stop bounded_attempt_loop [OF assms])
qed

text \<open>The waits of the loop are the first backoff delays, and every round runs the task at most once.\<close>

definition retried :: "('x \<Rightarrow> nat) \<Rightarrow> autonomous_policy \<Rightarrow> nat \<Rightarrow> nat \<Rightarrow> nat list \<Rightarrow> nat \<Rightarrow> 'x sched_world \<Rightarrow> bool" where
  "retried N p len i sl k w =
     (\<exists>n \<le> ap_max_retries p - i. sw_sleeps w = sl @ map retry_delay_for_attempt [i..<i + n] \<and>
        N (sw_exec w) \<le> k + Suc n * len)"

lemma retried_loop:
  fixes X :: "('x, 'l) executor"
  assumes "counts_calls X N"
  shows "triple (bounded N sl k) (retry_loop X E p calls durable i d :: ('x sched_world, 'e, attempt_result \<times> string list) sm) (\<lambda>_. retried N p (length calls) i sl k) R"
proof (induction "ap_max_retries p - i" arbitrary: i d sl k)
  case 0
  have stop: "triple (bounded N sl (k + length calls)) (retS a) (\<lambda>_. retried N p (length calls) i sl k) R"
    for a :: "attempt_result \<times> string list"
    by (rule triple_ret) (auto simp: bounded_def retried_def)
  show ?case using 0
    by (subst retry_loop.simps) (auto intro!: triple_bind [OF bounded_run_attempt [OF assms]] stop)
next
  case (Suc n)
  have stop: "triple (bounded N sl (k + length calls)) (retS a) (\<lambda>_. retried N p (length calls) i sl k) R"
    for a :: "attempt_result \<times> string list"
    by (rule triple_ret) (auto simp: bounded_def retried_def)
  let ?sl = "sl @ [retry_delay_for_attempt i]"
  have sleep: "triple (bounded N sl (k + length calls))
      (modifyS (\<lambda>w. w\<lparr>sw_sleeps := sw_sleeps w @ [retry_delay_for_attempt i]\<rparr>))
      (\<lambda>_. bounded N ?sl (k + length calls)) R"
    by (rule triple_modify) (simp add: bounded_def)
  have n: "n = ap_max_retries p - Suc i" using Suc(2) by simp
  have again: "triple (bounded N ?sl (k + length calls))
      (retry_loop X E p calls durable (Suc i) d' :: ('x sched_world, 'e, attempt_result \<times> string list) sm)
      (\<lambda>_. retried N p (length calls) i sl k) R" for d'
  proof (rule triple_conseq [OF Suc(1) [OF n]])
    fix x s
    assume "retried N p (length calls) (Suc i) ?sl (k + length calls) s"
    then obtain m where m: "m \<le> ap_max_retries p - Suc i"
        "sw_sleeps s = ?sl @ map retry_delay_for_attempt [Suc i..<Suc i + m]"
        "N (sw_exec s) \<le> k + length calls + Suc m * length calls"
      by (auto simp: retried_def)
    have "[i..<i + Suc m] = i # [Suc i..<Suc i + m]" by (simp add: upt_conv_Cons)
    then show "retried N p (length calls) i sl k s"
      unfolding retried_def using m Suc(2) by (intro exI [of _ "Suc m"]) auto
  qed auto
  show ?case
    by (subst retry_loop.simps)
      (auto intro!: triple_bind [OF bounded_run_attempt [OF assms]] triple_bind [OF sleep] stop again)
qed

lemma retried_autonomous_run:
  fixes X :: "('x, 'l) executor"
  assumes "counts_calls X N"
  shows "triple (bounded N sl k) (autonomous_run X E spec dir n)
    (\<lambda>_. retried N (sp_policy spec) (step_count (sp_task spec)) 0 sl k)
    (retried N (sp_policy spec) (step_count (sp_task spec)) 0 sl k)"
proof -
  let ?B = "bounded N sl k" and ?T = "retried N (sp_policy spec) (step_count (sp_task spec)) 0 sl k"
  have leases: "N (ex_put_leases X d x) = N x" for d x using assms by (simp add: counts_calls_def)
  have B: "runner_calm ?B" by (simp add: runner_calm_def bounded_def)
  have T: "log_calm X ?T" by (simp add: log_calm_def runner_calm_def retried_def leases)
  have len: "length (calls_of t) = step_count t" for t by (cases t) simp
  have ctx: "triple ?B (durable_ctx E spec n) (\<lambda>_. ?B) ?T"
    by (rule triple_conseq [OF triple_preserves [OF preserves_durable_ctx [OF B]]])
      (auto simp: bounded_def retried_def)
  have loop: "triple ?B (retry_loop X E (sp_policy spec) (calls_of (sp_task spec)) durable 0 []) (\<lambda>_. ?T) ?T" for durable
    using retried_loop [OF assms, of sl k E "sp_policy spec" "calls_of (sp_task spec)" durable 0 "[]" ?T] by (simp add: len)
  have T': "runner_calm ?T" using T by (simp add: log_calm_def)
  show ?thesis
    unfolding autonomous_run_def
    by (rule triple_bind [OF ctx], rule triple_bind [OF loop])
      (auto split: prod.splits simp: Let_def intro!: triple_bind [OF triple_preserves [OF preserves_finish_run [OF T']]]
        triple_bind [OF triple_preserves [OF preserves_fence [OF T]]] triple_ret triple_preserves [OF preserves_audit [OF T]])
qed

lemma trigger_bound:
  assumes "counts_calls X N" "run_trigger X E spec dir w = (r, w')"
  shows "\<exists>n \<le> 3. n \<le> ap_max_retries (sp_policy spec) \<and>
    sw_sleeps w' = sw_sleeps w @ map retry_delay_for_attempt [0..<n] \<and>
    N (sw_exec w') \<le> N (sw_exec w) + Suc n * step_count (sp_task spec)"
  using assms(2)
proof (cases rule: run_trigger_cases)
  case (refused w1 n oc e)
  have "preserves (\<lambda>v. sw_exec v = sw_exec w \<and> sw_sleeps v = sw_sleeps w) (audit E dir (record_of spec n oc 0 [] e))"
    unfolding audit_def append_run_record_def askW_def by (intro preserves_intros) (auto simp: preserves_def)
  from preservesD [OF this _ refused(1)] show ?thesis using refused(2) by (intro exI [of _ 0]) simp
next
  case (ran w1 w2 n)
  have N: "N (ex_set_autonomous X b x) = N x" "N (ex_set_actor X a x) = N x" for a b x
    using assms(1) by (simp_all add: counts_calls_def)
  let ?x = "ex_set_actor X (''scheduled:'' @ sp_id spec) (ex_set_autonomous X True (sw_exec w1))"
  obtain w3 where 3: "autonomous_run X E spec dir n (w1\<lparr>sw_exec := ?x\<rparr>) = (r, w3)"
      "w2 = w3\<lparr>sw_exec := ex_set_autonomous X (ex_is_autonomous X (sw_exec w1)) (sw_exec w3)\<rparr>"
    using guarded_runD [OF ran(7)] by blast
  have "bounded N (sw_sleeps w) (N (sw_exec w)) (w1\<lparr>sw_exec := ?x\<rparr>)" using ran(6) by (simp add: bounded_def N)
  from tripleD [OF retried_autonomous_run [OF assms(1)] this 3(1)]
  have "retried N (sp_policy spec) (step_count (sp_task spec)) 0 (sw_sleeps w) (N (sw_exec w)) w'"
    using 3(2) ran(8) by (simp add: retried_def N)
  moreover have "ap_max_retries (sp_policy spec) \<le> 3"
    using ran(1) by (auto simp: validate_def Let_def bound_defs split: if_splits)
  ultimately show ?thesis unfolding retried_def by (metis add_0 diff_zero order_trans)
qed

end
