(* ===== verification/Scheduled_Triggers.thy ===== *)
theory Scheduled_Triggers
  imports Scheduled_Runner
begin

text \<open>
  What a trigger of \<open>scheduled.rs\<close> does, on top of the model in \<open>Scheduled_Runner\<close>: its steps cannot fail, a prefix of
  succeeding calls is executed in order, the number of calls and waits is bounded, one audit line is written, the
  session is left as it was. Three of the properties describe behaviour the source does not intend.
\<close>

section \<open>A concrete trigger\<close>

definition ex_sched_env :: sched_env where
  "ex_sched_env = \<lparr>se_now = (\<lambda>_. 7), se_uuid = (\<lambda>t. show_nat t), se_io = (\<lambda>_. None), se_display = (\<lambda>_. ''{}''),
     se_to_string = (\<lambda>_. Some ''line''), se_runs = ex_env\<rparr>"

definition ex_spec :: "string list \<Rightarrow> schedule_spec" where
  "ex_spec tools = \<lparr>sp_id = ''n'', sp_session_id = ''s1'', sp_interval_secs = 60,
     sp_policy = default_autonomous\<lparr>ap_max_retries := 1\<rparr>, sp_enabled = True,
     sp_task = ToolCalls (map (\<lambda>t. \<lparr>tc_tool = t, tc_arguments = JNull\<rparr>) tools)\<rparr>"

text \<open>An executor that logs its calls and refuses one tool.\<close>

record ex_exec =
  xe_autonomous :: bool
  xe_calls :: "string list"

definition ex_executor :: "string \<Rightarrow> (ex_exec, unit) executor" where
  "ex_executor bad = \<lparr>ex_set_autonomous = (\<lambda>b x. x\<lparr>xe_autonomous := b\<rparr>), ex_is_autonomous = xe_autonomous,
     ex_set_actor = (\<lambda>_ x. x), ex_set_lease_fence = (\<lambda>_ x. x), ex_lease_fence = (\<lambda>_. None),
     ex_call = (\<lambda>t _ x. (if t = bad then Inl (fail_failed ''no'') else Inr ''ok'', x\<lparr>xe_calls := xe_calls x @ [t]\<rparr>)),
     ex_leases = (\<lambda>_. ex_lease_db [] 5), ex_put_leases = (\<lambda>_ x. x), ex_poisoned = (\<lambda>_. False), ex_read = (\<lambda>_ _. None)\<rparr>"

definition ex_runner :: "(bool \<times> int) list \<Rightarrow> ex_exec sched_world" where
  "ex_runner script = set_durable_runs ((ex_runs_db [] [])\<lparr>sc_script := script\<rparr>)
     (runner_new \<lparr>xe_autonomous = False, xe_calls = []\<rparr>)"

lemma ex_spec_valid: "validate (ex_spec [''a'', ''b'']) = Inr ()" "validate (ex_spec [''a'']) = Inr ()"
  by (simp_all add: validate_def ex_spec_def bound_defs default_autonomous_def is_ascii_alphanumeric_def byte_of_def
      bad_tool_name_def)

lemmas runner_eval = run_trigger_def guarded_run_def autonomous_run_def durable_ctx_def run_attempt_def
  finallyS_def execW_def askW_def runsW_def sm_simps Let_def try_begin_def
  ex_spec_valid

section \<open>Runs over tools whose answers are known\<close>

text \<open>
  \<open>logs_calls X T\<close>: \<open>T\<close> reads off the executor which tools were called. \<open>answers X L calls\<close>: each of these
  calls succeeds with at most \<open>L\<close> bytes of output.
\<close>

definition logs_calls :: "('x, 'l) executor \<Rightarrow> ('x \<Rightarrow> string list) \<Rightarrow> bool" where
  "logs_calls X T = (\<forall>t j x r x'. ex_call X t j x = (r, x') \<longrightarrow> T x' = T x @ [t])"

definition answers :: "('x, 'l) executor \<Rightarrow> nat \<Rightarrow> scheduled_tool_call list \<Rightarrow> bool" where
  "answers X L calls =
     (\<forall>call\<in>set calls. \<forall>x. \<exists>t x'. ex_call X (tc_tool call) (tc_arguments call) x = (Inr t, x') \<and> length t \<le> L)"

lemma same_runs: "\<exists>d. w = w\<lparr>sw_runs := d\<rparr>"
  by (rule exI [of _ "sw_runs w"]) simp

lemma runsW_frame: "\<exists>o' d. runsW m w = (Inr o', w\<lparr>sw_runs := d\<rparr>)"
proof (cases "sw_runs w")
  case None
  then show ?thesis using same_runs [of w] by (simp add: runsW_def)
next
  case (Some db)
  then show ?thesis by (cases "m db") (auto simp: runsW_def split: sum.splits)
qed

lemma journal_intent_frame: "\<exists>i d. journal_intent E durable n call w = (Inr i, w\<lparr>sw_runs := d\<rparr>)"
  by (cases durable) (auto simp: journal_intent_def retS_def same_runs runsW_frame)

lemma journal_outcome_frame: "\<exists>d. journal_outcome E i oc out w = (Inr () :: 'e + unit, w\<lparr>sw_runs := d\<rparr>)"
proof (cases i)
  case None
  then show ?thesis by (simp add: journal_outcome_def retS_def same_runs)
next
  case (Some j)
  obtain o' d where "runsW (complete_step (se_runs E) j oc out) w = (Inr o' :: 'e + _, w\<lparr>sw_runs := d\<rparr>)" using runsW_frame by blast
  then show ?thesis using Some by (auto simp: journal_outcome_def bindS_def retS_def)
qed

text \<open>One succeeding call of the loop, and what follows it.\<close>

definition after_step ::
  "('x, 'l) executor \<Rightarrow> sched_env \<Rightarrow> autonomous_policy \<Rightarrow> (string \<times> nat) option \<Rightarrow> nat \<Rightarrow> scheduled_tool_call list
     \<Rightarrow> nat \<Rightarrow> nat \<Rightarrow> nat \<Rightarrow> ('x sched_world, 'e, attempt_result) sm" where
  "after_step X E p durable deadline calls idx steps bytes =
     (if bytes > ap_max_output_bytes p then
        retS (ended Killed steps (Some (''exceeded max_output_bytes ('' @ show_nat (ap_max_output_bytes p) @ '')'')))
      else if steps \<ge> ap_max_steps p then
        retS (ended Killed steps (Some (''exceeded max_steps ('' @ show_nat (ap_max_steps p) @ '')'')))
      else attempt_loop X E p durable 0 deadline calls idx steps bytes)"

lemma attempt_step:
  fixes X :: "('x, 'l) executor" and w :: "'x sched_world"
  assumes "\<forall>t. se_now E t < deadline" "logs_calls X T" "answers X L [call]"
  obtains t :: string and w1 where "length t \<le> L" "T (sw_exec w1) = T (sw_exec w) @ [tc_tool call]"
    "attempt_loop X E p durable 0 deadline (call # calls) idx steps bytes w =
      (after_step X E p durable deadline calls (Suc idx) (Suc steps) (saturating_add bytes (length t))
        :: ('x sched_world, 'e, attempt_result) sm) w1"
proof -
  let ?w1 = "w\<lparr>sw_tick := Suc (sw_tick w)\<rparr>"
  obtain i d where i: "journal_intent E durable idx call ?w1 = (Inr i :: 'e + _, ?w1\<lparr>sw_runs := d\<rparr>)"
    using journal_intent_frame by blast
  obtain t x where c: "ex_call X (tc_tool call) (tc_arguments call) (sw_exec w) = (Inr t, x)" "length t \<le> L"
    using assms(3) by (fastforce simp: answers_def)
  let ?w2 = "?w1\<lparr>sw_runs := d, sw_exec := x\<rparr>"
  obtain d2 where o: "journal_outcome E i (Executed True) (Some t) ?w2 = (Inr () :: 'e + _, ?w2\<lparr>sw_runs := d2\<rparr>)"
    using journal_outcome_frame by blast
  have now: "\<not> se_now E (sw_tick w) \<ge> deadline" using assms(1) by (simp add: not_le)
  have T: "T x = T (sw_exec w) @ [tc_tool call]" using assms(2) c(1) by (simp add: logs_calls_def)
  show ?thesis
    by (rule that [OF c(2), of "?w2\<lparr>sw_runs := d2\<rparr>"])
      (use T now i c(1) o in \<open>simp_all add: bindS_def askW_def call_executor_def after_step_def\<close>)
qed

text \<open>A prefix of succeeding calls within the caps is executed in order, and the loop goes on behind it.\<close>

lemma attempt_prefix:
  fixes X :: "('x, 'l) executor" and w :: "'x sched_world"
  assumes "\<forall>t. se_now E t < deadline" "logs_calls X T" "answers X L calls"
    and "steps + length calls < ap_max_steps p" "bytes + length calls * L \<le> ap_max_output_bytes p"
  shows "\<exists>w1 by. by \<le> bytes + length calls * L \<and> T (sw_exec w1) = T (sw_exec w) @ map tc_tool calls \<and>
    attempt_loop X E p durable 0 deadline (calls @ rest) idx steps bytes w =
      (attempt_loop X E p durable 0 deadline rest (idx + length calls) (steps + length calls) by
         :: ('x sched_world, 'e, attempt_result) sm) w1"
  using assms(3-5)
proof (induction calls arbitrary: idx steps bytes w)
  case Nil
  then show ?case by auto
next
  case (Cons call calls)
  have a: "answers X L [call]" "answers X L calls" using Cons.prems(1) by (auto simp: answers_def)
  obtain t :: string and w1 where t: "length t \<le> L" "T (sw_exec w1) = T (sw_exec w) @ [tc_tool call]"
      "attempt_loop X E p durable 0 deadline (call # calls @ rest) idx steps bytes w =
       (after_step X E p durable deadline (calls @ rest) (Suc idx) (Suc steps) (saturating_add bytes (length t))
         :: ('x sched_world, 'e, attempt_result) sm) w1"
    by (rule attempt_step [OF assms(1,2) a(1)])
  let ?by = "saturating_add bytes (length t)"
  have by1: "?by \<le> bytes + L" using t(1) by (simp add: saturating_add_def)
  have 1: "?by + length calls * L \<le> bytes + length (call # calls) * L" using by1 by simp
  then have 2: "?by + length calls * L \<le> ap_max_output_bytes p" using Cons.prems(3) by simp
  have 3: "Suc steps + length calls < ap_max_steps p" using Cons.prems(2) by simp
  obtain w2 b2 where w2: "b2 \<le> ?by + length calls * L" "T (sw_exec w2) = T (sw_exec w1) @ map tc_tool calls"
      "attempt_loop X E p durable 0 deadline (calls @ rest) (Suc idx) (Suc steps) ?by w1 =
       (attempt_loop X E p durable 0 deadline rest (Suc idx + length calls) (Suc steps + length calls) b2
         :: ('x sched_world, 'e, attempt_result) sm) w2"
    using Cons.IH [OF a(2) 3 2] by blast
  have "attempt_loop X E p durable 0 deadline (call # calls @ rest) idx steps bytes w =
      (attempt_loop X E p durable 0 deadline (calls @ rest) (Suc idx) (Suc steps) ?by :: ('x sched_world, 'e, attempt_result) sm) w1"
    using t(3) 2 3 by (simp add: after_step_def)
  then show ?case
    using t(2) w2 1 by (intro exI [of _ w2] exI [of _ b2]) simp
qed

lemma deadline_ahead:
  "c < u64_max \<Longrightarrow> 0 < d \<Longrightarrow> c < saturating_add c (saturating_mul d 1000)"
  by (simp add: saturating_add_def saturating_mul_def)

lemma tick_exec: "sw_exec (w\<lparr>sw_tick := t\<rparr>) = sw_exec w"
  by simp

lemma saturating_le: "bytes + n \<le> m \<Longrightarrow> saturating_add bytes n \<le> m"
  by (simp add: saturating_add_def)

lemma run_attempt_start:
  assumes "\<forall>t. se_now E t = c"
  shows "run_attempt X E p calls (map_option (\<lambda>r. (r, 0)) rid) w =
    attempt_loop X E p (map_option (\<lambda>r. (r, 0)) rid) 0 (saturating_add c (saturating_mul (ap_max_duration_secs p) 1000)) calls 0 0 0
      (w\<lparr>sw_tick := Suc (sw_tick w)\<rparr>)"
  using assms by (cases rid) (simp_all add: run_attempt_def bindS_def askW_def Let_def u64_max_def)

lemma attempt_succeeds:
  fixes X :: "('x, 'l) executor" and w :: "'x sched_world"
  assumes "logs_calls X T" "answers X L calls" "length calls * L \<le> ap_max_output_bytes p"
    and "\<forall>t. se_now E t < deadline" "length calls \<le> ap_max_steps p" "calls \<noteq> []"
  shows "\<exists>a w'. attempt_loop X E p durable 0 deadline calls 0 0 0 w = (Inr a :: 'e + attempt_result, w') \<and>
    rs_outcome a = (if length calls < ap_max_steps p then Completed else Killed) \<and> rs_steps a = length calls \<and>
    T (sw_exec w') = T (sw_exec w) @ map tc_tool calls"
proof (cases "length calls < ap_max_steps p")
  case True
  then obtain w1 b where "T (sw_exec w1) = T (sw_exec w) @ map tc_tool calls"
      "attempt_loop X E p durable 0 deadline (calls @ []) 0 0 0 w =
       (attempt_loop X E p durable 0 deadline [] (0 + length calls) (0 + length calls) b
         :: ('x sched_world, 'e, attempt_result) sm) w1"
    using attempt_prefix [OF assms(4,1,2), of 0 p 0] assms(3) by (metis add_0)
  then show ?thesis using True by (simp add: retS_def ended_def)
next
  case False
  obtain cs call where calls: "calls = cs @ [call]" using assms(6) by (metis rev_exhaust)
  have a: "answers X L cs" "answers X L [call]" using assms(2) by (auto simp: answers_def calls)
  have len: "0 + length cs < ap_max_steps p" "Suc (length cs) = ap_max_steps p" using False assms(5) calls by auto
  have lenL: "0 + length cs * L \<le> ap_max_output_bytes p" "length cs * L + L \<le> ap_max_output_bytes p"
    using assms(3) by (auto simp: calls algebra_simps)
  obtain w1 b where 1: "b \<le> 0 + length cs * L" "T (sw_exec w1) = T (sw_exec w) @ map tc_tool cs"
      "attempt_loop X E p durable 0 deadline (cs @ [call]) 0 0 0 w =
       (attempt_loop X E p durable 0 deadline [call] (0 + length cs) (0 + length cs) b
         :: ('x sched_world, 'e, attempt_result) sm) w1"
    using attempt_prefix [OF assms(4,1) a(1) len(1) lenL(1)] by blast
  obtain t :: string and w2 where 2: "length t \<le> L" "T (sw_exec w2) = T (sw_exec w1) @ [tc_tool call]"
      "attempt_loop X E p durable 0 deadline [call] (0 + length cs) (0 + length cs) b w1 =
       (after_step X E p durable deadline [] (Suc (0 + length cs)) (Suc (0 + length cs)) (saturating_add b (length t))
         :: ('x sched_world, 'e, attempt_result) sm) w2"
    by (rule attempt_step [OF assms(4,1) a(2)])
  have "saturating_add b (length t) \<le> ap_max_output_bytes p"
    by (rule saturating_le) (use 1(1) 2(1) lenL(2) in simp)
  then show ?thesis
    using 1(2,3) 2(2,3) len(2) by (simp add: calls after_step_def retS_def ended_def)
qed

lemma attempt_fails:
  fixes X :: "('x, 'l) executor" and w :: "'x sched_world"
  assumes "logs_calls X T" "answers X L calls" "length calls * L \<le> ap_max_output_bytes p" "length calls < ap_max_steps p"
    and "\<forall>t. se_now E t < deadline"
    and "\<forall>x. \<exists>f x'. ex_call X (tc_tool bad) (tc_arguments bad) x = (Inl f, x') \<and> \<not> tf_uncertain f \<and> \<not> tf_stale_lease f"
  shows "\<exists>a w'. attempt_loop X E p durable 0 deadline (calls @ [bad]) 0 0 0 w = (Inr a :: 'e + attempt_result, w') \<and>
    retryable a \<and> T (sw_exec w') = T (sw_exec w) @ map tc_tool (calls @ [bad])"
proof -
  obtain w1 b where 1: "T (sw_exec w1) = T (sw_exec w) @ map tc_tool calls"
      "attempt_loop X E p durable 0 deadline (calls @ [bad]) 0 0 0 w =
       (attempt_loop X E p durable 0 deadline [bad] (0 + length calls) (0 + length calls) b
         :: ('x sched_world, 'e, attempt_result) sm) w1"
    using attempt_prefix [OF assms(5,1,2), of 0 p 0] assms(3,4) by (metis add_0)
  let ?w1 = "w1\<lparr>sw_tick := Suc (sw_tick w1)\<rparr>"
  obtain i d where i: "journal_intent E durable (length calls) bad ?w1 = (Inr i :: 'e + _, ?w1\<lparr>sw_runs := d\<rparr>)"
    using journal_intent_frame by blast
  obtain f x where c: "ex_call X (tc_tool bad) (tc_arguments bad) (sw_exec w1) = (Inl f, x)" "\<not> tf_uncertain f" "\<not> tf_stale_lease f"
    using assms(6) by blast
  let ?w2 = "?w1\<lparr>sw_runs := d, sw_exec := x\<rparr>"
  obtain d2 where o: "journal_outcome E i (Executed False) None ?w2 = (Inr () :: 'e + _, ?w2\<lparr>sw_runs := d2\<rparr>)"
    using journal_outcome_frame by blast
  have now: "\<not> se_now E (sw_tick w1) \<ge> deadline" using assms(5) by (simp add: not_le)
  have T: "T x = T (sw_exec w1) @ [tc_tool bad]" using assms(1) c(1) by (simp add: logs_calls_def)
  show ?thesis
    using 1 T now i c o by (simp add: bindS_def askW_def call_executor_def retS_def failed_result_def retryable_def)
qed


section \<open>Steps that cannot fail\<close>

lemma nofail_askW [nofail_intros]: "nofail (askW f)"
  by (simp add: nofail_def askW_def)

lemma nofail_runsW [nofail_intros]: "nofail (runsW m)"
  by (auto simp: nofail_def runsW_def split: option.splits prod.splits sum.splits)

lemma nofail_run_steps [nofail_intros]:
  "nofail (durable_ctx S spec n)" "nofail (finish_run durable a)" "nofail (journal_intent S durable k call)"
  "nofail (journal_outcome S i oc out)"
  unfolding durable_ctx_def resume_orphan_def fresh_run_def finish_run_def close_run_def journal_intent_def journal_outcome_def
  by (intro nofail_intros)+

lemma nofail_executor [nofail_intros]: "nofail (call_executor X call)" "nofail (executor_fence_current X)"
  by (auto simp: nofail_def call_executor_def executor_fence_current_def Let_def split: prod.splits option.splits)

lemma nofail_attempt_loop [nofail_intros]: "nofail (attempt_loop X S p durable start deadline calls idx steps bytes)"
  by (induction calls arbitrary: idx steps bytes) (auto intro!: nofail_intros)

lemma nofail_run_attempt [nofail_intros]: "nofail (run_attempt X S p calls durable)"
  unfolding run_attempt_def by (intro nofail_intros)

lemma nofail_retry_loop [nofail_intros]: "nofail (retry_loop X S p calls durable i d)"
proof (induction "ap_max_retries p - i" arbitrary: i d)
  case 0
  then show ?case by (subst retry_loop.simps) (auto intro!: nofail_intros)
next
  case (Suc n)
  then have "n = ap_max_retries p - Suc i" by simp
  then show ?case by (subst retry_loop.simps) (intro nofail_intros Suc(1))
qed

text \<open>The run log and the fence of the session up to the audit of a run.\<close>

definition logged :: "(string \<times> string) list \<Rightarrow> lease_fence option \<Rightarrow> 'l conn_world sched_world \<Rightarrow> bool" where
  "logged l f v = (sw_run_log v = l \<and> ss_lease_fence (cw_set (sw_exec v)) = f)"

lemma logged_kept:
  "preserves (logged l f) (durable_ctx S spec n)"
  "preserves (logged l f) (retry_loop (session_executor E) S p calls durable i d)"
  "preserves (logged l f) (finish_run durable a)"
  "preserves (logged l f) (executor_fence_current (session_executor E))"
proof -
  have c: "runner_calm (logged l f)" by (simp add: runner_calm_def logged_def)
  show "preserves (logged l f) (durable_ctx S spec n)" by (rule preserves_durable_ctx [OF c])
  show "preserves (logged l f) (finish_run durable a)" by (rule preserves_finish_run [OF c])
  show "preserves (logged l f) (retry_loop (session_executor E) S p calls durable i d)"
    by (rule preserves_retry_loop [OF c]) (auto simp: sleep_calm_def calls_keep_def logged_def dest: detailed_set)
  show "preserves (logged l f) (executor_fence_current (session_executor E))"
    by (auto simp: preserves_def executor_fence_current_def Let_def logged_def split: option.splits prod.splits)
qed

lemma autonomous_run_log:
  fixes w :: "'l conn_world sched_world"
  assumes "autonomous_run (session_executor E) S spec dir n w = (r, w')"
  shows "case r of
      Inl (rc, source) \<Rightarrow> sw_run_log w' = sw_run_log w \<and> rc_schedule_id rc = sp_id spec
    | Inr rc \<Rightarrow> rc_schedule_id rc = sp_id spec \<and>
        (sw_run_log w' = sw_run_log w @ [(dir, to_json S rc)] \<or>
         sw_run_log w' = sw_run_log w \<and> rc_outcome rc = Failed \<and> ss_lease_fence (cw_set (sw_exec w)) \<noteq> None)"
proof -
  let ?X = "session_executor E" and ?L = "logged (sw_run_log w) (ss_lease_fence (cw_set (sw_exec w)))"
  have 0: "?L w" by (simp add: logged_def)
  obtain durable w1 where 1: "durable_ctx S spec n w = (Inr durable :: (run_record \<times> string) + _, w1)" "?L w1"
    using nofail_preserves [OF nofail_run_steps(1) logged_kept(1) 0] by blast
  obtain result denied w2 where 2: "retry_loop ?X S (sp_policy spec) (calls_of (sp_task spec)) durable 0 [] w1 =
      (Inr (result, denied) :: (run_record \<times> string) + _, w2)" "?L w2"
    using nofail_preserves [OF nofail_retry_loop logged_kept(2) 1(2)] by (metis surj_pair)
  obtain w3 where 3: "finish_run durable result w2 = (Inr () :: (run_record \<times> string) + _, w3)" "?L w3"
    using nofail_preserves [OF nofail_run_steps(2) logged_kept(3) 2(2)] by (metis old.unit.exhaust)
  obtain cur w4 where 4: "executor_fence_current ?X w3 = (Inr cur :: (run_record \<times> string) + _, w4)" "?L w4"
    using nofail_preserves [OF nofail_executor(2) logged_kept(4) 3(2)] by blast
  show ?thesis
  proof (cases cur)
    case True
    then have "audit S dir (record_of spec n (rs_outcome result) (rs_steps result) (remdups_adj (sort denied)) (rs_error result)) w4
        = (r, w')"
      using assms 1(1) 2(1) 3(1) 4(1) by (simp add: autonomous_run_def bindS_def Let_def)
    from audit_result [OF this] show ?thesis using 4(2) by (auto simp: logged_def record_of_def split: sum.splits)
  next
    case False
    then have "ss_lease_fence (cw_set (sw_exec w3)) \<noteq> None" using fence_lost [of ?X w3 w4] 4(1) by simp
    then show ?thesis
      using assms 1(1) 2(1) 3(1) 4 False 3(2)
      by (simp add: autonomous_run_def bindS_def Let_def retS_def) (auto simp: logged_def record_of_def split: sum.splits)
  qed
qed
section \<open>Properties\<close>

text \<open>
  C35. A run whose task fills its step budget is killed after all its work is done. When every call succeeds in time
  and within the output cap, all calls of the task are executed in order; the attempt then counts as completed only
  if the task is strictly shorter than \<^verbatim>\<open>max_steps\<close>, although validation accepts a task of exactly that length.
\<close>

theorem full_budget_run_is_killed:
  assumes "logs_calls X T" and "answers X L calls" and "length calls * L \<le> ap_max_output_bytes p"
    and "\<forall>t. se_now E t = c" and "c < u64_max" and "0 < ap_max_duration_secs p"
    and "length calls \<le> ap_max_steps p" and "calls \<noteq> []"
  shows "\<exists>a w'. run_attempt X E p calls (map_option (\<lambda>r. (r, 0)) rid) w = (Inr a, w') \<and>
    rs_outcome a = (if length calls < ap_max_steps p then Completed else Killed) \<and> rs_steps a = length calls \<and>
    T (sw_exec w') = T (sw_exec w) @ map tc_tool calls"
proof -
  have "\<forall>t. se_now E t < saturating_add c (saturating_mul (ap_max_duration_secs p) 1000)"
    using deadline_ahead [OF assms(5,6)] assms(4) by simp
  from attempt_succeeds [OF assms(1-3) this assms(7,8), of _ "w\<lparr>sw_tick := Suc (sw_tick w)\<rparr>", unfolded tick_exec]
  show ?thesis unfolding run_attempt_start [OF assms(4)] .
qed

theorem full_budget_run_is_killed_witness:
  "\<exists>a w'. run_attempt (ex_executor ''b'') ex_sched_env (default_autonomous\<lparr>ap_max_steps := 1\<rparr>)
       [\<lparr>tc_tool = ''a'', tc_arguments = JNull\<rparr>] (map_option (\<lambda>r. (r, 0)) None) (ex_runner []) =
         (Inr a :: unit + attempt_result, w') \<and>
     rs_outcome a = Killed \<and> rs_steps a = 1 \<and> xe_calls (sw_exec w') = [''a'']"
proof -
  let ?p = "default_autonomous\<lparr>ap_max_steps := 1\<rparr>" and ?calls = "[\<lparr>tc_tool = ''a'', tc_arguments = JNull\<rparr>]"
  have "logs_calls (ex_executor ''b'') xe_calls" by (auto simp: logs_calls_def ex_executor_def)
  moreover have "answers (ex_executor ''b'') 2 ?calls" by (simp add: answers_def ex_executor_def)
  moreover have "length ?calls * 2 \<le> ap_max_output_bytes ?p" "0 < ap_max_duration_secs ?p" "length ?calls \<le> ap_max_steps ?p"
    "?calls \<noteq> []" "(7::nat) < u64_max" "\<forall>t. se_now ex_sched_env t = 7"
    by (simp_all add: default_autonomous_def u64_max_def ex_sched_env_def)
  ultimately have "\<exists>a w'. run_attempt (ex_executor ''b'') ex_sched_env ?p ?calls (map_option (\<lambda>r. (r, 0)) None) (ex_runner []) =
         (Inr a :: unit + attempt_result, w') \<and> rs_outcome a = (if length ?calls < ap_max_steps ?p then Completed else Killed) \<and>
         rs_steps a = length ?calls \<and> xe_calls (sw_exec w') = xe_calls (sw_exec (ex_runner [])) @ map tc_tool ?calls"
    by (intro full_budget_run_is_killed)
  then show ?thesis by (simp add: ex_runner_def runner_new_def set_durable_runs_def)
qed




text \<open>
  C29. A trigger puts everything back. Whatever happened, when \<^verbatim>\<open>run_trigger\<close> returns, the autonomous flag and the lease
  fence of the connector set are what they were and the slot of the schedule is free again exactly if it was free before.
\<close>

theorem trigger_restores_session:
  assumes "run_trigger (session_executor E) S spec dir w = (r, w')"
  shows "is_autonomous (cw_set (sw_exec w')) = is_autonomous (cw_set (sw_exec w)) \<and>
    ss_lease_fence (cw_set (sw_exec w')) = ss_lease_fence (cw_set (sw_exec w)) \<and> sw_guard w' = sw_guard w"
  using sxe.run_trigger_keeps [OF _ assms, of "\<lambda>_. True"] by (simp add: sxe.kept_def)

theorem trigger_restores_session_witness:
  "sw_guard (snd (run_trigger (session_executor ex_conn_env) ex_sched_env (ex_spec [''a'']) ''/s'' (runner_new ex_conn_world))) =
   run_guard_new"
  using trigger_restores_session [OF prod.collapse [symmetric], of ex_conn_env ex_sched_env "ex_spec [''a'']" "''/s''"
      "runner_new ex_conn_world"]
  by (simp add: runner_new_def)

text \<open>
  C6. An unattended run never calls a tool that would need approval. If no manifest the environment ever discovers, and none
  of the connectors that are live already, allows the tool by default, then a trigger calls that tool not once, whatever the
  task lists, whatever overrides the session has and whatever the environment answers.
\<close>

theorem unattended_run_skips_asking_tools:
  assumes "\<forall>t. \<forall>(d, m) \<in> set (fst (ce_discover E t)). default_policy m n \<noteq> Allow"
    and "\<forall>(c, l) \<in> set (ss_live (cw_set (sw_exec w))). default_policy (lc_manifest l) n \<noteq> Allow"
    and "run_trigger (session_executor E) S spec dir w = (r, w')"
  shows "filter (\<lambda>(c, t, a). t = n) (cw_calls (sw_exec w')) = filter (\<lambda>(c, t, a). t = n) (cw_calls (sw_exec w))"
proof -
  have m: "(d, m) \<in> set (fst (ce_discover E t)) \<Longrightarrow> default_policy m n \<noteq> Allow" for t d m using assms(1) by blast
  have "live_manifests (\<lambda>m. default_policy m n \<noteq> Allow) (sw_exec w)" using assms(2) by (simp add: live_manifests_def)
  moreover have "sxe.kept E (\<lambda>v. live_manifests (\<lambda>m. default_policy m n \<noteq> Allow) v \<and>
      calls_of_tool n v = calls_of_tool n (sw_exec w))"
    by (rule asking_tool_kept) (rule m)
  ultimately show ?thesis using sxe.run_trigger_keeps [OF _ assms(3)] by (fastforce simp: calls_of_tool_def)
qed

theorem unattended_run_skips_asking_tools_witness:
  "filter (\<lambda>(c, t, a). t = ''mail.erase'') (cw_calls (sw_exec (snd (run_trigger (session_executor ex_conn_env) ex_sched_env
     (ex_spec [''mail.erase'']) ''/s'' (set_allow_unjournaled (runner_new ex_conn_world)))))) = []"
proof -
  have "\<forall>t. \<forall>(d, m) \<in> set (fst (ce_discover ex_conn_env t)). default_policy m ''mail.erase'' \<noteq> Allow"
    by (simp add: ex_conn_env_def ex_manifest_def default_policy_def)
  moreover have "\<forall>(c, l) \<in> set (ss_live (cw_set (sw_exec (set_allow_unjournaled (runner_new ex_conn_world))))).
      default_policy (lc_manifest l) ''mail.erase'' \<noteq> Allow"
    by (simp add: set_allow_unjournaled_def runner_new_def ex_conn_world_def ex_set_def)
  ultimately have "filter (\<lambda>(c, t, a). t = ''mail.erase'') (cw_calls (sw_exec (snd (run_trigger (session_executor ex_conn_env)
      ex_sched_env (ex_spec [''mail.erase'']) ''/s'' (set_allow_unjournaled (runner_new ex_conn_world)))))) =
      filter (\<lambda>(c, t, a). t = ''mail.erase'') (cw_calls (sw_exec (set_allow_unjournaled (runner_new ex_conn_world))))"
    by (rule unattended_run_skips_asking_tools [OF _ _ prod.collapse [symmetric]])
  then show ?thesis by (simp add: set_allow_unjournaled_def runner_new_def ex_conn_world_def)
qed

text \<open>
  One line per trigger. A trigger that returns a record has appended exactly that record to the session's run log; if
  the append failed, the error hands the record back and the log is as it was. The only record that is returned without
  being written is a failed run of a session that holds a lease fence.
\<close>

lemma one_line_per_trigger:
  assumes "run_trigger (session_executor E) S spec dir w = (r, w')"
  shows "case r of
      Inl (rc, source) \<Rightarrow> sw_run_log w' = sw_run_log w \<and> rc_schedule_id rc = sp_id spec
    | Inr rc \<Rightarrow> rc_schedule_id rc = sp_id spec \<and>
        (sw_run_log w' = sw_run_log w @ [(dir, to_json S rc)] \<or>
         sw_run_log w' = sw_run_log w \<and> rc_outcome rc = Failed \<and> ss_lease_fence (cw_set (sw_exec w)) \<noteq> None)"
  using assms
proof (cases rule: run_trigger_cases)
  case (refused w1 n oc e)
  then show ?thesis using audit_result [OF refused(1)] by (auto simp: record_of_def split: sum.splits)
next
  case (ran w1 w2 n)
  let ?x = "ex_set_actor (session_executor E) (''scheduled:'' @ sp_id spec) (ex_set_autonomous (session_executor E) True (sw_exec w1))"
  obtain w3 where 3: "autonomous_run (session_executor E) S spec dir n (w1\<lparr>sw_exec := ?x\<rparr>) = (r, w3)" "sw_run_log w' = sw_run_log w3"
    using guarded_runD [OF ran(7)] ran(8) by auto
  have w1: "sw_run_log (w1\<lparr>sw_exec := ?x\<rparr>) = sw_run_log w" "ss_lease_fence (cw_set ?x) = ss_lease_fence (cw_set (sw_exec w))"
    using ran(6) by (simp_all add: set_autonomous_def set_actor_def)
  from autonomous_run_log [OF 3(1)] w1 3(2) show ?thesis by (auto split: sum.splits)
qed

lemma session_counts_calls: "counts_calls (session_executor E) (\<lambda>w. length (cw_calls w))"
proof -
  have "length (cw_calls w') \<le> Suc (length (cw_calls w))" if "call_tool_detailed E t j w = (r, w')" for t j w r w'
    using that by (cases rule: detailed_effect) (auto simp: quiet_calls made_call_def)
  then show ?thesis by (auto simp: counts_calls_def)
qed

text \<open>
  C23. A trigger is bounded. It returns after at most four attempts: it waits a prefix of the backoff delays 5, 10 and 20
  seconds, one fewer wait than attempts and never more than \<^verbatim>\<open>max_retries\<close>, and hands at most as many calls to connectors
  as the task has steps in each attempt.
\<close>

theorem trigger_is_bounded:
  assumes "run_trigger (session_executor E) S spec dir w = (r, w')"
  shows "\<exists>n \<le> ap_max_retries (sp_policy spec). n \<le> 3 \<and> sw_sleeps w' = sw_sleeps w @ take n [5, 10, 20] \<and>
    length (cw_calls (sw_exec w')) \<le> length (cw_calls (sw_exec w)) + Suc n * step_count (sp_task spec)"
proof -
  obtain n where n: "n \<le> 3" "n \<le> ap_max_retries (sp_policy spec)"
      "sw_sleeps w' = sw_sleeps w @ map retry_delay_for_attempt [0..<n]"
      "length (cw_calls (sw_exec w')) \<le> length (cw_calls (sw_exec w)) + Suc n * step_count (sp_task spec)"
    using trigger_bound [OF session_counts_calls assms] by blast
  have "map retry_delay_for_attempt [0..<n] = take n [5, 10, 20]"
    using n(1) by (auto simp: le_Suc_eq numeral_3_eq_3 retry_delay_for_attempt_def saturating_mul_def u64_max_def)
  then show ?thesis using n by auto
qed

theorem trigger_is_bounded_witness:
  "\<exists>n \<le> 1. sw_sleeps (snd (run_trigger (session_executor ex_conn_env) ex_sched_env (ex_spec [''a'', ''b'']) ''/s''
       (runner_new ex_conn_world))) = take n [5, 10, 20] \<and>
     length (cw_calls (sw_exec (snd (run_trigger (session_executor ex_conn_env) ex_sched_env (ex_spec [''a'', ''b'']) ''/s''
       (runner_new ex_conn_world))))) \<le> Suc n * 2"
proof -
  have "sw_sleeps (runner_new ex_conn_world) = []" "cw_calls (sw_exec (runner_new ex_conn_world)) = []"
      "ap_max_retries (sp_policy (ex_spec [''a'', ''b''])) = 1" "step_count (sp_task (ex_spec [''a'', ''b''])) = 2"
    by (simp_all add: runner_new_def ex_conn_world_def ex_spec_def)
  then show ?thesis
    using trigger_is_bounded [OF prod.collapse [symmetric], of "ex_spec [''a'', ''b'']" ex_conn_env ex_sched_env "''/s''"
        "runner_new ex_conn_world"] by auto
qed

end
