(* ===== verification/Scheduler.thy ===== *)
theory Scheduler
  imports Scheduled_Triggers
begin


text \<open>
  The scheduler daemon of \<open>supercli-core/src/scheduled.rs\<close>: the takeover check of a lapsed run, one tick over the
  registry, and the time to the next wake-up.
\<close>

section \<open>The takeover check\<close>

text \<open>
  The check reads both logs of the session twice. A file that cannot be read counts as empty and a line that does not
  parse is skipped; \<open>parse\<close> is the JSON parser.
\<close>

definition parsed_lines :: "('l \<Rightarrow> json option) \<Rightarrow> 'l list option \<Rightarrow> json list" where
  "parsed_lines parse f = List.map_filter parse (case f of None \<Rightarrow> [] | Some ls \<Rightarrow> ls)"

definition superseded_ids :: "json list \<Rightarrow> string list" where
  "superseded_ids vs = List.map_filter (get_str ''replaces_attempt'') vs"

definition attempt_of_line :: "json \<Rightarrow> (string \<times> string \<times> string) option" where
  "attempt_of_line v =
     (case (get_str ''review_id'' v, get_str ''attempt_id'' v, get_str ''outcome'' v) of
        (Some review_id, Some attempt_id, Some outcome) \<Rightarrow> Some (review_id, attempt_id, outcome)
      | _ \<Rightarrow> None)"

definition attempts_of_lines :: "json list \<Rightarrow> string \<Rightarrow> (string \<times> string) option" where
  "attempts_of_lines vs = map_of (rev (List.map_filter attempt_of_line vs))"

definition never_ran_ids :: "json list \<Rightarrow> string list" where
  "never_ran_ids vs = List.map_filter (\<lambda>v.
     if get_str ''type'' v = Some ''attempt_outcome'' \<and> get_str ''outcome'' v = Some ''never_ran''
     then get_str ''review_id'' v else None) vs"

definition uncertain_item ::
  "string \<Rightarrow> string list \<Rightarrow> (string \<Rightarrow> (string \<times> string) option) \<Rightarrow> string list \<Rightarrow> json \<Rightarrow> string option" where
  "uncertain_item actor superseded attempts never_ran v =
     (if get_str ''type'' v = Some ''attempt_outcome'' then None
      else case (get_str ''review_id'' v, get_str ''actor'' v) of
             (Some review_id, Some review_actor) \<Rightarrow>
               if review_actor \<noteq> actor \<or> review_id \<in> set superseded \<or> review_id \<in> set never_ran then None
               else (case attempts review_id of
                       None \<Rightarrow> Some (''review '' @ review_id @ '' (in-flight: no attempt recorded)'')
                     | Some (attempt_id, outcome) \<Rightarrow>
                         if outcome = ''ambiguous'' \<and> attempt_id \<notin> set superseded
                         then Some (''attempt '' @ attempt_id @ '' (ambiguous outcome)'') else None)
           | _ \<Rightarrow> None)"

definition check_lapsed_run ::
  "('l \<Rightarrow> json option) \<Rightarrow> 'l list option \<Rightarrow> 'l list option \<Rightarrow> 'l list option \<Rightarrow> 'l list option \<Rightarrow> schedule_spec \<Rightarrow> claim_info
     \<Rightarrow> nat \<Rightarrow> run_record option" where
  "check_lapsed_run parse audit1 reviews1 audit2 reviews2 spec info now =
     (let superseded = superseded_ids (parsed_lines parse audit1 @ parsed_lines parse reviews1);
          attempts = attempts_of_lines (parsed_lines parse audit2);
          reviews = parsed_lines parse reviews2;
          never_ran = never_ran_ids reviews;
          uncertain = List.map_filter (uncertain_item (''scheduled:'' @ sp_id spec) superseded attempts never_ran) reviews in
      if uncertain = [] then None
      else
        let items = remdups_adj (sort uncertain);
            (prev_owner, prev_claimed_at_ms) = (case ci_took_over info of None \<Rightarrow> (''<unknown>'', 0) | Some oc \<Rightarrow> oc) in
        Some (record_of spec now NeedsReview 0 [] (Some
          (''takeover of lapsed lease (previous holder '' @ prev_owner @ '', claimed '' @ show_nat prev_claimed_at_ms @
           ''): found '' @ show_nat (length items) @ '' uncertain attempt(s) from the lapsed run '' @ em_dash @ '' '' @
           join_with ''; '' items @
           ''; NOT re-firing. Resolve each via an explicit human-approved replacement call referencing the attempt '' @
           ''(or review) id; the schedule stays held until then.''))))"

section \<open>The daemon\<close>

text \<open>
  \<open>sd_world\<close> holds the runner and, through its executor state, the lease database and the session logs;
  \<open>sd_leases\<close> is this worker's lease store, if it coordinates with others. \<open>sd_records\<close> and \<open>sd_errors\<close> are the report
  of the tick, \<open>sd_notified\<close> the calls of \<^verbatim>\<open>notify\<close>.
\<close>

record ('x, 'b) scheduler =
  sd_world :: "'x sched_world"
  sd_next_due :: "(string \<times> nat) list"
  sd_leases :: "schedule_leases option"
  sd_registry :: "'b registry"
  sd_notified :: "(schedule_spec \<times> run_record) list"
  sd_records :: "run_record list"
  sd_errors :: "string list"

text \<open>
  What the host loop passes to a tick and what the source calls: the directory of a session, the factory of executors, the
  system clock, the file formats and the texts of errors.
\<close>

record ('x, 'l, 'b) tick_env =
  te_session_dir :: "string \<Rightarrow> string"
  te_make_executor :: "string \<Rightarrow> string \<Rightarrow> 'x \<Rightarrow> 'x"
  te_sys_now :: "nat \<Rightarrow> nat"
  te_parse :: "'l \<Rightarrow> json option"
  te_codec :: "'b spec_codec"
  te_store_error :: "schedule_store_error \<Rightarrow> string"
  te_lease_error :: "lease_error \<Rightarrow> string"

definition scheduler_new :: "'x \<Rightarrow> 'b registry \<Rightarrow> ('x, 'b) scheduler" where
  "scheduler_new x reg = \<lparr>sd_world = runner_new x, sd_next_due = [], sd_leases = None, sd_registry = reg,
     sd_notified = [], sd_records = [], sd_errors = []\<rparr>"

definition with_lease_store :: "schedule_leases \<Rightarrow> ('x, 'b) scheduler \<Rightarrow> ('x, 'b) scheduler" where
  "with_lease_store leases s = s\<lparr>sd_leases := Some leases\<rparr>"

definition with_durable_runs :: "runs_db \<Rightarrow> ('x, 'b) scheduler \<Rightarrow> ('x, 'b) scheduler" where
  "with_durable_runs db s = s\<lparr>sd_world := set_durable_runs db (sd_world s)\<rparr>"

definition allow_unjournaled :: "('x, 'b) scheduler \<Rightarrow> ('x, 'b) scheduler" where
  "allow_unjournaled s = s\<lparr>sd_world := set_allow_unjournaled (sd_world s)\<rparr>"

definition inW :: "('x sched_world, 'e, 'a) sm \<Rightarrow> (('x, 'b) scheduler, 'e, 'a) sm" where
  "inW m s = (case m (sd_world s) of (r, w) \<Rightarrow> (r, s\<lparr>sd_world := w\<rparr>))"

definition push_error :: "string \<Rightarrow> (('x, 'b) scheduler, 'e, unit) sm" where
  "push_error e = modifyS (\<lambda>s. s\<lparr>sd_errors := sd_errors s @ [e]\<rparr>)"

definition push_record :: "run_record \<Rightarrow> (('x, 'b) scheduler, 'e, unit) sm" where
  "push_record r = modifyS (\<lambda>s. s\<lparr>sd_records := sd_records s @ [r]\<rparr>)"

definition notify :: "schedule_spec \<Rightarrow> run_record \<Rightarrow> (('x, 'b) scheduler, 'e, unit) sm" where
  "notify spec r = modifyS (\<lambda>s. s\<lparr>sd_notified := sd_notified s @ [(spec, r)]\<rparr>)"

text \<open>An operation on the lease store behind its mutex; \<open>poisoned\<close> is the answer when the mutex is poisoned.\<close>

definition leaseW ::
  "('x, 'l) executor \<Rightarrow> (lease_db, lease_error, 'a) sm \<Rightarrow> lease_error + 'a \<Rightarrow> (('x, 'b) scheduler, 'e, lease_error + 'a) sm" where
  "leaseW X m poisoned =
     inW (\<lambda>w. let x = sw_exec w in
        if ex_poisoned X x then (Inr poisoned, w)
        else (case m (ex_leases X x) of (r, db) \<Rightarrow> (Inr r, w\<lparr>sw_exec := ex_put_leases X db x\<rparr>)))"

text \<open>A result with its audit record; a failed append is reported and the record is kept.\<close>

definition audited ::
  "string \<Rightarrow> ('x sched_world, run_record \<times> string, run_record) sm \<Rightarrow> (('x, 'b) scheduler, 'e, run_record) sm" where
  "audited text m s =
     (case m (sd_world s) of
        (Inr r, w) \<Rightarrow> (Inr r, s\<lparr>sd_world := w\<rparr>)
      | (Inl (r, source), w) \<Rightarrow> (Inr r, s\<lparr>sd_world := w, sd_errors := sd_errors s @ [text @ source]\<rparr>))"

definition next_due_after :: "nat \<Rightarrow> schedule_spec \<Rightarrow> nat" where
  "next_due_after now spec = saturating_add now (saturating_mul (sp_interval_secs spec) 1000)"

definition fire ::
  "('x, 'l) executor \<Rightarrow> sched_env \<Rightarrow> ('x, 'l, 'b) tick_env \<Rightarrow> nat \<Rightarrow> schedule_spec \<Rightarrow> string \<Rightarrow> lease_fence option
     \<Rightarrow> (('x, 'b) scheduler, 'e, unit) sm" where
  "fire X E T now spec session_dir fence =
     bindS (inW (execW (te_make_executor T (sp_session_id spec) session_dir))) (\<lambda>_.
     bindS (inW (execW (ex_set_lease_fence X fence))) (\<lambda>_.
     bindS (audited (''schedule '' @ debug_str (sp_id spec) @ '': ran but the audit append failed: '')
       (run_trigger X E spec session_dir)) (\<lambda>record.
     bindS (if rc_outcome record \<in> {Failed, TimedOut, Killed, NeedsReview} then notify spec record else retS ()) (\<lambda>_.
     bindS (push_record record) (\<lambda>_.
     bindS (getS sd_leases) (\<lambda>leases.
     bindS (case leases of
         None \<Rightarrow> retS ()
       | Some store \<Rightarrow>
           bindS (leaseW X (release store (sp_id spec)) (Inr ())) (\<lambda>released.
           case released of
             Inr _ \<Rightarrow> retS ()
           | Inl e \<Rightarrow> push_error (''schedule '' @ debug_str (sp_id spec) @ '': lease release failed ('' @
               te_lease_error T e @ ''); lease will lapse''))) (\<lambda>_.
     modifyS (\<lambda>s. s\<lparr>sd_next_due := AList.update (sp_id spec) (next_due_after now spec) (sd_next_due s)\<rparr>))))))))"

definition escalate ::
  "sched_env \<Rightarrow> schedule_spec \<Rightarrow> string \<Rightarrow> run_record \<Rightarrow> (('x, 'b) scheduler, 'e, unit) sm" where
  "escalate E spec session_dir escalation =
     bindS (audited (''schedule '' @ debug_str (sp_id spec) @ '': escalation audit failed: '')
       (audit E session_dir escalation)) (\<lambda>record.
     bindS (notify spec record) (\<lambda>_.
     push_record record))"

definition lapsed_run ::
  "('x, 'l) executor \<Rightarrow> ('x, 'l, 'b) tick_env \<Rightarrow> schedule_spec \<Rightarrow> string \<Rightarrow> claim_info \<Rightarrow> (('x, 'b) scheduler, 'e, run_record option) sm" where
  "lapsed_run X T spec session_dir info =
     (if ci_took_over info = None then retS None
      else
        bindS (inW (askW (te_sys_now T))) (\<lambda>now.
        getS (\<lambda>s. let x = sw_exec (sd_world s);
                      audit_file = ex_read X (session_dir @ ''/connectors-audit.jsonl'') x;
                      review_file = ex_read X (session_dir @ ''/action-reviews.jsonl'') x in
          check_lapsed_run (te_parse T) audit_file review_file audit_file review_file spec info now)))"

definition fire_due ::
  "('x, 'l) executor \<Rightarrow> sched_env \<Rightarrow> ('x, 'l, 'b) tick_env \<Rightarrow> nat \<Rightarrow> schedule_spec \<Rightarrow> (('x, 'b) scheduler, 'e, unit) sm" where
  "fire_due X E T now spec =
     (let session_dir = te_session_dir T (sp_session_id spec) in
      bindS (getS sd_leases) (\<lambda>leases.
      case leases of
        None \<Rightarrow> fire X E T now spec session_dir None
      | Some store \<Rightarrow>
          bindS (leaseW X (claim store (sp_id spec)) (Inl LeaseOpen)) (\<lambda>claimed.
          case claimed of
            Inr None \<Rightarrow> retS ()
          | Inr (Some info) \<Rightarrow>
              bindS (lapsed_run X T spec session_dir info) (\<lambda>escalation.
              case escalation of
                Some r \<Rightarrow> escalate E spec session_dir r
              | None \<Rightarrow> fire X E T now spec session_dir
                  (Some \<lparr>lf_store = store, lf_schedule_id = sp_id spec, lf_generation = ci_generation info\<rparr>))
          | Inl e \<Rightarrow> push_error (''schedule '' @ debug_str (sp_id spec) @ '': lease claim failed ('' @
              te_lease_error T e @ ''); not firing''))))"

definition tick_one ::
  "('x, 'l) executor \<Rightarrow> sched_env \<Rightarrow> ('x, 'l, 'b) tick_env \<Rightarrow> nat \<Rightarrow> schedule_spec \<Rightarrow> (('x, 'b) scheduler, 'e, unit) sm" where
  "tick_one X E T now spec =
     (let disarm = modifyS (\<lambda>s. s\<lparr>sd_next_due := AList.delete (sp_id spec) (sd_next_due s)\<rparr>) in
      if \<not> sp_enabled spec then disarm
      else case validate spec of
             Inl e \<Rightarrow>
               bindS (push_error (''schedule '' @ debug_str (sp_id spec) @ '' is invalid ('' @ policy_error_text e @
                 ''); not firing'')) (\<lambda>_. disarm)
           | Inr _ \<Rightarrow>
               bindS (getS (\<lambda>s. map_of (sd_next_due s) (sp_id spec))) (\<lambda>entry.
               let due_ms = (case entry of None \<Rightarrow> next_due_after now spec | Some d \<Rightarrow> d) in
               bindS (modifyS (\<lambda>s. if entry = None
                 then s\<lparr>sd_next_due := AList.update (sp_id spec) due_ms (sd_next_due s)\<rparr> else s)) (\<lambda>_.
               if now < due_ms then retS () else fire_due X E T now spec)))"

fun tick_all ::
  "('x, 'l) executor \<Rightarrow> sched_env \<Rightarrow> ('x, 'l, 'b) tick_env \<Rightarrow> nat \<Rightarrow> schedule_spec list \<Rightarrow> (('x, 'b) scheduler, 'e, unit) sm" where
  "tick_all X E T now [] = retS ()"
| "tick_all X E T now (spec # specs) = bindS (tick_one X E T now spec) (\<lambda>_. tick_all X E T now specs)"

definition load_registry :: "'b spec_codec \<Rightarrow> (('x, 'b) scheduler, 'e, schedule_store_error + schedule_spec list) sm" where
  "load_registry C s = (case load_schedules C (sd_registry s) of (r, reg) \<Rightarrow> (Inr r, s\<lparr>sd_registry := reg\<rparr>))"

definition tick ::
  "('x, 'l) executor \<Rightarrow> sched_env \<Rightarrow> ('x, 'l, 'b) tick_env \<Rightarrow> (('x, 'b) scheduler, 'e, unit) sm" where
  "tick X E T =
     bindS (modifyS (\<lambda>s. s\<lparr>sd_records := [], sd_errors := []\<rparr>)) (\<lambda>_.
     bindS (inW (askW (se_now E))) (\<lambda>now.
     bindS (load_registry (te_codec T)) (\<lambda>loaded.
     case loaded of
       Inl e \<Rightarrow> push_error (''cannot load schedule registry: '' @ te_store_error T e)
     | Inr specs \<Rightarrow>
         bindS (tick_all X E T now specs) (\<lambda>_.
         modifyS (\<lambda>s. s\<lparr>sd_next_due := filter (\<lambda>(i, _). i \<in> sp_id ` set specs) (sd_next_due s)\<rparr>)))))"

definition next_wake_in :: "sched_env \<Rightarrow> (('x, 'b) scheduler, 'e, nat) sm" where
  "next_wake_in E =
     bindS (inW (askW (se_now E))) (\<lambda>now.
     getS (\<lambda>s. let waits = map (\<lambda>(_, due). saturating_sub due now) (sd_next_due s);
                   nearest = (if waits = [] then 60000 else Min (set waits)) in
       max 1000 (min nearest 60000)))"

lemma map_of_filter_key: "map_of (filter (\<lambda>(i, _). P i) xs) k = (if P k then map_of xs k else None)"
  by (induction xs) auto

section \<open>What the takeover check decides\<close>

text \<open>
  A review is resolved when a later line names it as replaced, when the review log says its tool never ran, or when its last
  recorded attempt ended with a certain outcome or was itself replaced.
\<close>

definition replaced :: "json list \<Rightarrow> string \<Rightarrow> bool" where
  "replaced vs i = (\<exists>v\<in>set vs. get_str ''replaces_attempt'' v = Some i)"

definition resolved :: "json list \<Rightarrow> json list \<Rightarrow> string \<Rightarrow> bool" where
  "resolved audit_log review_log i =
     (replaced (audit_log @ review_log) i \<or>
      (\<exists>v\<in>set review_log. get_str ''type'' v = Some ''attempt_outcome'' \<and> get_str ''outcome'' v = Some ''never_ran'' \<and>
         get_str ''review_id'' v = Some i) \<or>
      (\<exists>a oc. attempts_of_lines audit_log i = Some (a, oc) \<and>
         (oc \<noteq> ''ambiguous'' \<or> replaced (audit_log @ review_log) a)))"

definition scheduled_review :: "schedule_spec \<Rightarrow> string \<Rightarrow> json \<Rightarrow> bool" where
  "scheduled_review spec i v =
     (get_str ''type'' v \<noteq> Some ''attempt_outcome'' \<and> get_str ''review_id'' v = Some i \<and>
      get_str ''actor'' v = Some (''scheduled:'' @ sp_id spec))"

lemma set_map_filter: "set (List.map_filter f xs) = {y. \<exists>x\<in>set xs. f x = Some y}"
  by (force simp: List.map_filter_def)

lemma map_filter_Nil: "List.map_filter f xs = [] \<longleftrightarrow> (\<forall>x\<in>set xs. f x = None)"
  by (auto simp: List.map_filter_def filter_empty_conv)

lemma superseded_iff: "i \<in> set (superseded_ids vs) \<longleftrightarrow> replaced vs i"
  by (auto simp: superseded_ids_def set_map_filter replaced_def)

lemma never_ran_iff:
  "i \<in> set (never_ran_ids vs) \<longleftrightarrow>
     (\<exists>v\<in>set vs. get_str ''type'' v = Some ''attempt_outcome'' \<and> get_str ''outcome'' v = Some ''never_ran'' \<and>
        get_str ''review_id'' v = Some i)"
  by (auto simp: never_ran_ids_def set_map_filter split: if_splits)

lemma uncertain_item_None:
  "uncertain_item (''scheduled:'' @ sp_id spec) (superseded_ids (a @ b)) (attempts_of_lines a) (never_ran_ids b) v = None \<longleftrightarrow>
     (\<forall>i. scheduled_review spec i v \<longrightarrow> resolved a b i)"
  by (cases "get_str ''review_id'' v"; cases "get_str ''actor'' v")
    (auto simp: uncertain_item_def scheduled_review_def resolved_def superseded_iff never_ran_iff split: option.splits prod.splits)

lemma check_lapsed_None:
  "check_lapsed_run parse af rf af rf spec info now = None \<longleftrightarrow>
     (\<forall>v\<in>set (parsed_lines parse rf). \<forall>i. scheduled_review spec i v \<longrightarrow> resolved (parsed_lines parse af) (parsed_lines parse rf) i)"
  unfolding check_lapsed_run_def Let_def map_filter_Nil uncertain_item_None by (simp split: prod.splits)

lemma check_lapsed_Some:
  "check_lapsed_run parse a1 r1 a2 r2 spec info now = Some r \<Longrightarrow> rc_outcome r = NeedsReview \<and> rc_schedule_id r = sp_id spec"
  by (auto simp: check_lapsed_run_def Let_def record_of_def split: prod.splits if_splits)


lemma audited_effect:
  "\<exists>s'. audited txt (audit E dir r) s = (Inr r, s') \<and> sw_exec (sd_world s') = sw_exec (sd_world s) \<and>
     sd_records s' = sd_records s \<and> sd_notified s' = sd_notified s \<and> sd_next_due s' = sd_next_due s \<and> sd_leases s' = sd_leases s"
  unfolding audited_def audit_def append_run_record_def
  by (auto simp: sm_simps askW_def split: option.splits)

lemma escalate_effect:
  "\<exists>s'. (escalate E spec dir r :: (('x, 'b) scheduler, 'e, unit) sm) s = (Inr (), s') \<and> sw_exec (sd_world s') = sw_exec (sd_world s) \<and>
     sd_records s' = sd_records s @ [r] \<and> sd_notified s' = sd_notified s @ [(spec, r)] \<and> sd_next_due s' = sd_next_due s"
proof -
  obtain s1 where "(audited (''schedule '' @ debug_str (sp_id spec) @ '': escalation audit failed: '') (audit E dir r) ::
      (('x, 'b) scheduler, 'e, run_record) sm) s = (Inr r, s1)"
    "sw_exec (sd_world s1) = sw_exec (sd_world s)" "sd_records s1 = sd_records s" "sd_notified s1 = sd_notified s"
    "sd_next_due s1 = sd_next_due s"
    using audited_effect by meson
  then show ?thesis by (simp add: escalate_def bindS_def notify_def push_record_def modifyS_def)
qed

lemma fire_due_claim:
  assumes "sd_leases s = Some store" and "\<not> ex_poisoned X (sw_exec (sd_world s))"
    and "claim store (sp_id spec) (ex_leases X (sw_exec (sd_world s))) = (r, db)"
  shows "fire_due X E T now spec s =
    (let dir = te_session_dir T (sp_session_id spec);
         s1 = s\<lparr>sd_world := (sd_world s)\<lparr>sw_exec := ex_put_leases X db (sw_exec (sd_world s))\<rparr>\<rparr> in
     case r of
       Inr None \<Rightarrow> (Inr (), s1)
     | Inr (Some info) \<Rightarrow>
         bindS (lapsed_run X T spec dir info) (\<lambda>escalation.
              case escalation of
                Some r \<Rightarrow> escalate E spec dir r
              | None \<Rightarrow> fire X E T now spec dir
                  (Some \<lparr>lf_store = store, lf_schedule_id = sp_id spec, lf_generation = ci_generation info\<rparr>)) s1
     | Inl e \<Rightarrow> push_error (''schedule '' @ debug_str (sp_id spec) @ '': lease claim failed ('' @
              te_lease_error T e @ ''); not firing'') s1)"
  using assms
  by (auto simp: fire_due_def leaseW_def inW_def bindS_def getS_def retS_def Let_def split: sum.splits option.splits)

lemma dirs_end: "ends_in ''/connectors-audit.jsonl'' (d @ ''/connectors-audit.jsonl'')"
    "ends_in ''/action-reviews.jsonl'' (d @ ''/action-reviews.jsonl'')"
    "\<not> ends_in ''/connectors-audit.jsonl'' (d @ ''/action-reviews.jsonl'')"
proof -
  show "ends_in ''/connectors-audit.jsonl'' (d @ ''/connectors-audit.jsonl'')"
    "ends_in ''/action-reviews.jsonl'' (d @ ''/action-reviews.jsonl'')"
    by (simp_all add: ends_in_def)
  show "\<not> ends_in ''/connectors-audit.jsonl'' (d @ ''/action-reviews.jsonl'')"
    by (auto simp: ends_in_def dest!: arg_cong [of _ _ "\<lambda>l. rev (take 7 (rev l))"])
qed

section \<open>What is armed after a tick\<close>

text \<open>A schedule that may fire: enabled and valid.\<close>

definition armable :: "schedule_spec \<Rightarrow> bool" where
  "armable spec = (sp_enabled spec \<and> validate spec = Inr ())"

definition due_of :: "('x, 'b) scheduler \<Rightarrow> string \<Rightarrow> nat option" where
  "due_of s = map_of (sd_next_due s)"

text \<open>\<open>keeps_due m\<close>: \<open>m\<close> does not fail and leaves the due times alone.\<close>

definition keeps_due :: "(('x, 'b) scheduler, 'e, 'a) sm \<Rightarrow> bool" where
  "keeps_due m = (\<forall>s. is_ok (fst (m s)) \<and> sd_next_due (snd (m s)) = sd_next_due s)"

lemma keeps_due_bind: "keeps_due m \<Longrightarrow> (\<And>x. keeps_due (f x)) \<Longrightarrow> keeps_due (bindS m f)"
  by (auto simp: keeps_due_def bindS_def split: prod.splits sum.splits) (metis fst_conv snd_conv is_ok_simps(2))+

lemma keeps_due_simple:
  "keeps_due (retS x)" "keeps_due (getS f)" "keeps_due (push_error e)" "keeps_due (push_record rc)" "keeps_due (notify spec rc)"
  "keeps_due (audited txt m')" "keeps_due (leaseW X lm p)" "keeps_due (inW (askW g))" "keeps_due (inW (execW h))"
  by (simp_all add: keeps_due_def sm_simps push_error_def push_record_def notify_def audited_def leaseW_def inW_def askW_def
      execW_def Let_def split: prod.splits sum.splits)

lemma keeps_due_cases:
  "keeps_due m \<Longrightarrow> keeps_due m' \<Longrightarrow> keeps_due (if b then m else m')"
  "keeps_due m \<Longrightarrow> (\<And>x. keeps_due (f x)) \<Longrightarrow> keeps_due (case p of None \<Rightarrow> m | Some x \<Rightarrow> f x)"
  "(\<And>x. keeps_due (g x)) \<Longrightarrow> (\<And>x. keeps_due (h x)) \<Longrightarrow> keeps_due (case q of Inl x \<Rightarrow> g x | Inr x \<Rightarrow> h x)"
  by (simp_all split: option.splits sum.splits)

lemmas keeps_due_intros = keeps_due_bind keeps_due_simple keeps_due_cases

text \<open>\<open>advances i m\<close>: \<open>m\<close> does not fail and changes at most the due time of \<open>i\<close>.\<close>

definition advances :: "string \<Rightarrow> nat \<Rightarrow> (('x, 'b) scheduler, 'e, 'a) sm \<Rightarrow> bool" where
  "advances i d m = (\<forall>s. is_ok (fst (m s)) \<and> due_of (snd (m s)) \<in> {due_of s, (due_of s)(i \<mapsto> d)})"

lemma advances_bind: "keeps_due m \<Longrightarrow> (\<And>x. advances i d (f x)) \<Longrightarrow> advances i d (bindS m f)"
  unfolding advances_def keeps_due_def due_of_def bindS_def
  by (auto split: prod.splits sum.splits) (metis fst_conv snd_conv is_ok_simps(2))+

lemma advances_keeps: "keeps_due m \<Longrightarrow> advances i d m"
  by (auto simp: advances_def keeps_due_def due_of_def)

lemma fire_advances: "advances (sp_id spec) (next_due_after now spec) (fire X E T now spec dir fence)"
  unfolding fire_def
  by (intro advances_bind keeps_due_intros)
    (simp add: advances_def modifyS_def due_of_def update_conv')

lemma fire_due_advances: "advances (sp_id spec) (next_due_after now spec) (fire_due X E T now spec)"
  unfolding fire_due_def lapsed_run_def escalate_def Let_def
  apply (rule advances_bind, rule keeps_due_intros)
  apply (split option.split, intro conjI allI impI)
   apply (rule fire_advances)
  apply (rule advances_bind, rule keeps_due_intros)
  apply (split sum.split, intro conjI allI impI)
   apply (rule advances_keeps, rule keeps_due_intros)
  apply (split option.split, intro conjI allI impI)
   apply (rule advances_keeps, rule keeps_due_intros)
  apply (rule advances_bind, (intro keeps_due_intros))
  apply (split option.split, intro conjI allI impI)
   apply (rule fire_advances)
  apply (rule advances_keeps, intro keeps_due_intros)
  done

lemma tick_one_due:
  fixes r :: "'e + unit"
  assumes "tick_one X E T now spec s = (r, s')"
  shows "r = Inr () \<and> (if armable spec
    then \<exists>d. due_of s' = (due_of s)(sp_id spec \<mapsto> d) else due_of s' = (due_of s)(sp_id spec := None))"
proof (cases "armable spec")
  case False
  then show ?thesis using assms
    by (auto simp: tick_one_def Let_def armable_def due_of_def sm_simps push_error_def delete_conv' split: if_splits sum.splits)
next
  case True
  define due where "due = (case due_of s (sp_id spec) of None \<Rightarrow> next_due_after now spec | Some d \<Rightarrow> d)"
  define s1 where "s1 = (if due_of s (sp_id spec) = None then s\<lparr>sd_next_due := AList.update (sp_id spec) due (sd_next_due s)\<rparr> else s)"
  have s1: "due_of s1 = (due_of s)(sp_id spec \<mapsto> due)"
    by (auto simp: s1_def due_def due_of_def update_conv' fun_upd_idem)
  obtain q :: "'e + unit" and s2 where f: "fire_due X E T now spec s1 = (q, s2)" by fastforce
  have "tick_one X E T now spec s = (if now < due then (Inr (), s1) else (q, s2))"
    using True f by (cases "map_of (sd_next_due s) (sp_id spec)")
      (simp_all add: tick_one_def Let_def armable_def sm_simps due_def s1_def due_of_def)
  moreover have "is_ok q" "due_of s2 \<in> {due_of s1, (due_of s1)(sp_id spec \<mapsto> next_due_after now spec)}"
    using fire_due_advances [of spec now X E T, where ?'c = 'e] f unfolding advances_def by (metis fst_conv, metis snd_conv)
  ultimately show ?thesis using assms True s1 by (cases r) (auto split: if_splits)
qed

lemma tick_all_due:
  fixes r :: "'e + unit"
  assumes "tick_all X E T now specs s = (r, s')" and "distinct (map sp_id specs)"
  shows "r = Inr () \<and> (\<forall>i. if \<exists>spec\<in>set specs. sp_id spec = i \<and> armable spec then due_of s' i \<noteq> None
    else if i \<in> sp_id ` set specs then due_of s' i = None else due_of s' i = due_of s i)"
  using assms
proof (induction specs arbitrary: s)
  case Nil
  then show ?case by (simp add: retS_def)
next
  case (Cons spec specs)
  obtain r1 :: "'e + unit" and s1 where t: "tick_one X E T now spec s = (r1, s1)" by fastforce
  note one = tick_one_due [OF t]
  then have "tick_all X E T now specs s1 = (r, s')" using Cons.prems(1) t by (simp add: bindS_def)
  note all = Cons.IH [OF this]
  then show ?case using one Cons.prems(2) by (auto split: if_splits) 
qed

text \<open>A tick without a due schedule: nothing but the armed times changes.\<close>

definition idle :: "nat \<Rightarrow> ('x, 'b) scheduler \<Rightarrow> bool" where
  "idle now s = (\<forall>(i, d)\<in>set (sd_next_due s). now < d)"

definition same_but_due :: "('x, 'b) scheduler \<Rightarrow> ('x, 'b) scheduler \<Rightarrow> bool" where
  "same_but_due s t = (sd_world t = sd_world s \<and> sd_leases t = sd_leases s \<and> sd_registry t = sd_registry s \<and>
     sd_notified t = sd_notified s \<and> sd_records t = sd_records s)"

lemma next_due_later: "validate spec = Inr () \<Longrightarrow> now < u64_max \<Longrightarrow> now < next_due_after now spec"
  by (auto simp: validate_def Let_def bound_defs next_due_after_def saturating_add_def saturating_mul_def split: if_splits)

lemma tick_one_idle:
  fixes r :: "'e + unit" and s :: "('x, 'b) scheduler"
  assumes "tick_one X E T now spec s = (r, s')" and "idle now s" and "now < u64_max"
  shows "r = Inr () \<and> idle now s' \<and> same_but_due s s'"
proof -
  have u: "idle now (s\<lparr>sd_next_due := AList.update i d (sd_next_due s)\<rparr>)" if "now < d" for i d
    using that assms(2) set_update_subset [of i d "sd_next_due s"] by (fastforce simp: idle_def)
  have d: "idle now t" if "sd_next_due t = AList.delete (sp_id spec) (sd_next_due s)" for t :: "('x, 'b) scheduler"
    using that assms(2) set_delete_subset [of "sp_id spec" "sd_next_due s"] by (fastforce simp: idle_def)
  have m: "now < x" if "map_of (sd_next_due s) i = Some x" for i x
    using assms(2) map_of_SomeD [OF that] by (auto simp: idle_def)
  show ?thesis
    using assms(1,2) u d m next_due_later [OF _ assms(3), of spec]
    by (auto simp: tick_one_def Let_def sm_simps push_error_def same_but_due_def split: if_splits sum.splits option.splits)
qed

lemma tick_all_idle:
  fixes r :: "'e + unit"
  assumes "tick_all X E T now specs s = (r, s')" and "idle now s" and "now < u64_max"
  shows "r = Inr () \<and> idle now s' \<and> same_but_due s s'"
  using assms
proof (induction specs arbitrary: s)
  case (Cons spec specs)
  obtain r1 :: "'e + unit" and s1 where t: "tick_one X E T now spec s = (r1, s1)" by fastforce
  note one = tick_one_idle [OF t Cons.prems(2,3)]
  then have "tick_all X E T now specs s1 = (r, s')" using Cons.prems(1) t by (simp add: bindS_def)
  from Cons.IH [OF this _ Cons.prems(3)] one show ?case by (auto simp: same_but_due_def)
qed (simp add: retS_def same_but_due_def)
section \<open>Properties\<close>

text \<open>
  C5. The takeover check is exact: a worker that takes over a lapsed lease may fire the schedule if and only if every review
  this schedule made (its actor is \<^verbatim>\<open>scheduled:<id>\<close>) is resolved by the two logs. Reviews of other actors, unreadable lines
  and the order of the lines do not matter.
\<close>

theorem takeover_fires_iff_resolved:
  "check_lapsed_run parse audit_file review_file audit_file review_file spec info now = None \<longleftrightarrow>
     (\<forall>v\<in>set (parsed_lines parse review_file). \<forall>i. scheduled_review spec i v \<longrightarrow>
        resolved (parsed_lines parse audit_file) (parsed_lines parse review_file) i)"
  by (rule check_lapsed_None)

definition ex_lapsed_review :: json where
  "ex_lapsed_review = json_obj [(''review_id'', JStr ''r1''), (''actor'', JStr ''scheduled:nightly'')]"

definition ex_nightly :: schedule_spec where
  "ex_nightly = (ex_spec [''mail.search''])\<lparr>sp_id := ''nightly''\<rparr>"

lemma ex_unresolved:
  "scheduled_review ex_nightly ''r1'' ex_lapsed_review" "\<not> resolved [] [ex_lapsed_review] ''r1''"
  by (simp_all add: scheduled_review_def resolved_def replaced_def ex_lapsed_review_def ex_nightly_def ex_spec_def
      attempts_of_lines_def List.map_filter_def get_str_def json_obj_def)

theorem takeover_fires_iff_resolved_witness:
  "check_lapsed_run Some (Some []) (Some [ex_lapsed_review]) (Some []) (Some [ex_lapsed_review]) ex_nightly
     \<lparr>ci_generation = 2, ci_took_over = Some (''a'', 100)\<rparr> 7 \<noteq> None"
  unfolding takeover_fires_iff_resolved
  using ex_unresolved by (auto simp: parsed_lines_def List.map_filter_def)

text \<open>
  C9. A takeover with something unresolved fires nothing and is held. The worker has claimed a lapsed lease and the review log
  has an unresolved review of the schedule: the tick makes no tool call, reports and notifies one record with outcome
  \<^verbatim>\<open>NeedsReview\<close>, keeps the lease (the executor's state changes by the claim alone) and leaves the schedule due.
\<close>

theorem uncertain_takeover_holds:
  fixes s :: "('l conn_world, 'b) scheduler"
  assumes "sd_leases s = Some store" and "sw_exec (sd_world s) = x" and "\<not> cw_lease_poisoned x"
    and "claim store (sp_id spec) (cw_leases x) = (Inr (Some info), db)" and "ci_took_over info \<noteq> None"
    and "v \<in> set (parsed_lines (te_parse T) (rw_log (cw_reviews x)))" and "scheduled_review spec i v"
    and "\<not> resolved (parsed_lines (te_parse T) (Some (cw_audit x))) (parsed_lines (te_parse T) (rw_log (cw_reviews x))) i"
  shows "\<exists>r s'. fire_due (session_executor C) E T now spec s = (Inr () :: 'e + unit, s') \<and> rc_outcome r = NeedsReview \<and>
    sd_records s' = sd_records s @ [r] \<and> sd_notified s' = sd_notified s @ [(spec, r)] \<and>
    sw_exec (sd_world s') = x\<lparr>cw_leases := db\<rparr> \<and> sd_next_due s' = sd_next_due s"
proof -
  let ?X = "session_executor C" and ?dir = "te_session_dir T (sp_session_id spec)"
  let ?s1 = "s\<lparr>sd_world := (sd_world s)\<lparr>sw_exec := x\<lparr>cw_leases := db\<rparr>\<rparr>\<rparr>"
  let ?check = "\<lambda>now. check_lapsed_run (te_parse T) (Some (cw_audit x)) (rw_log (cw_reviews x)) (Some (cw_audit x))
    (rw_log (cw_reviews x)) spec info now"
  have "?check now \<noteq> None" for now unfolding check_lapsed_None using assms(6-8) by blast
  then obtain r where r: "?check (te_sys_now T (sw_tick (sd_world s))) = Some r" by auto
  obtain s2 where l: "lapsed_run ?X T spec ?dir info ?s1 = (Inr (Some r) :: 'e + _, s2)" and
      s2: "sw_exec (sd_world s2) = x\<lparr>cw_leases := db\<rparr>" "sd_records s2 = sd_records s" "sd_notified s2 = sd_notified s"
        "sd_next_due s2 = sd_next_due s"
    using r assms(5) by (auto simp: lapsed_run_def inW_def askW_def bindS_def getS_def session_executor_def dirs_end)
  obtain s3 where "escalate E spec ?dir r s2 = (Inr () :: 'e + unit, s3)" "sw_exec (sd_world s3) = x\<lparr>cw_leases := db\<rparr>"
      "sd_records s3 = sd_records s @ [r]" "sd_notified s3 = sd_notified s @ [(spec, r)]" "sd_next_due s3 = sd_next_due s"
    using escalate_effect [of E spec ?dir r s2] unfolding s2 by blast
  then show ?thesis
    using fire_due_claim [of s store ?X spec "Inr (Some info)" db, where ?'d = 'e and E = E and T = T and now = now] assms(1-4) l check_lapsed_Some [OF r]
    by (intro exI [of _ r] exI [of _ s3]) (simp add: bindS_def del: append_Cons)
qed

definition ex_lapsed_world :: "json conn_world" where
  "ex_lapsed_world = ex_conn_world\<lparr>cw_leases := ex_lease_db [ex_row ''a'' 100 1] 5000,
     cw_reviews := ex_world\<lparr>rw_log := Some [ex_lapsed_review]\<rparr>\<rparr>"

definition ex_tick_env :: "('x, json, unit) tick_env" where
  "ex_tick_env = \<lparr>te_session_dir = (\<lambda>s. ''/'' @ s), te_make_executor = (\<lambda>_ _ x. x), te_sys_now = (\<lambda>_. 7), te_parse = Some,
     te_codec = \<lparr>sc_from_slice = (\<lambda>_. Some [ex_spec [''a'']]), sc_to_vec = (\<lambda>_. Some ())\<rparr>,
     te_store_error = (\<lambda>_. ''''), te_lease_error = (\<lambda>_. '''')\<rparr>"

definition ex_scheduler :: "'x \<Rightarrow> ('x, unit) scheduler" where
  "ex_scheduler x = with_lease_store (ex_worker ''b'') (scheduler_new x \<lparr>io_flags = [], rg_file = Some ()\<rparr>)"

lemma ex_scheduler_simps [simp]:
  "sd_leases (ex_scheduler x) = Some (ex_worker ''b'')" "sw_exec (sd_world (ex_scheduler x)) = x"
  "sd_records (ex_scheduler x) = []" "sd_next_due (ex_scheduler x) = []" "sw_tick (sd_world (ex_scheduler x)) = 0"
  by (simp_all add: ex_scheduler_def with_lease_store_def scheduler_new_def runner_new_def)

theorem uncertain_takeover_holds_witness:
  "\<exists>r s'. fire_due (session_executor ex_conn_env) ex_sched_env ex_tick_env 9 ex_nightly (ex_scheduler ex_lapsed_world) =
       (Inr () :: unit + unit, s') \<and> rc_outcome r = NeedsReview \<and> sd_records s' = [r] \<and>
     sw_exec (sd_world s') = ex_lapsed_world\<lparr>cw_leases := ex_lease_db [ex_row ''b'' 5000 2] 5000\<rparr>"
proof -
  have "claim (ex_worker ''b'') (sp_id ex_nightly) (cw_leases ex_lapsed_world) =
      (Inr (Some \<lparr>ci_generation = 2, ci_took_over = Some (''a'', 100)\<rparr>), ex_lease_db [ex_row ''b'' 5000 2] 5000)"
    using ex_takeover by (simp add: ex_nightly_def ex_lapsed_world_def)
  moreover have "\<not> cw_lease_poisoned ex_lapsed_world" by (simp add: ex_lapsed_world_def ex_conn_world_def)
  moreover have "parsed_lines (te_parse (ex_tick_env :: (json conn_world, json, unit) tick_env)) (rw_log (cw_reviews ex_lapsed_world)) =
      [ex_lapsed_review]"
      "parsed_lines (te_parse (ex_tick_env :: (json conn_world, json, unit) tick_env)) (Some (cw_audit ex_lapsed_world)) = []"
    by (simp_all add: parsed_lines_def ex_tick_env_def ex_lapsed_world_def ex_world_def ex_conn_world_def List.map_filter_def)
  ultimately have "\<exists>r s'. fire_due (session_executor ex_conn_env) ex_sched_env ex_tick_env 9 ex_nightly (ex_scheduler ex_lapsed_world) =
       (Inr () :: unit + unit, s') \<and> rc_outcome r = NeedsReview \<and> sd_records s' = sd_records (ex_scheduler ex_lapsed_world) @ [r] \<and>
     sd_notified s' = sd_notified (ex_scheduler ex_lapsed_world) @ [(ex_nightly, r)] \<and>
     sw_exec (sd_world s') = ex_lapsed_world\<lparr>cw_leases := ex_lease_db [ex_row ''b'' 5000 2] 5000\<rparr> \<and>
     sd_next_due s' = sd_next_due (ex_scheduler ex_lapsed_world)"
    using ex_unresolved
    by (intro uncertain_takeover_holds [where i = "''r1''" and v = ex_lapsed_review and store = "ex_worker ''b''" and
        info = "\<lparr>ci_generation = 2, ci_took_over = Some (''a'', 100)\<rparr>"]) simp_all
  then show ?thesis by auto
qed

text \<open>
  C37. A panicking tool is re-fired. An unattended call of the schedule \<^verbatim>\<open>n\<close> whose connector panics is reported as uncertain
  and its review has the outcome \<^verbatim>\<open>ambiguous\<close> in the review log. The audit line says \<^verbatim>\<open>panic\<close>, which the takeover check does
  not count as uncertain: on the logs the call leaves, it lets the next worker fire the schedule again.
\<close>

definition ex_panicking_env :: "json conn_env" where
  "ex_panicking_env = ex_conn_env\<lparr>ce_call := (\<lambda>_ _ _ _. Inl (PanicText ''boom''))\<rparr>"

definition ex_unattended_world :: "json conn_world" where
  "ex_unattended_world = ex_conn_world\<lparr>cw_set := ex_set\<lparr>ss_autonomous := True, ss_actor := Some ''scheduled:n''\<rparr>\<rparr>"


text \<open>
  What is armed after a tick. When the registry was read and its ids are distinct, the tick does not fail and a schedule has
  a next due time exactly when it is in the registry, enabled and valid; a paused, invalid or removed schedule is disarmed.
\<close>

lemma armed_exactly_enabled:
  fixes s :: "('x, 'b) scheduler"
  assumes "load_schedules (te_codec T) (sd_registry s) = (Inr specs, reg)" and "distinct (map sp_id specs)"
  shows "\<exists>s'. (tick X E T :: (('x, 'b) scheduler, 'e, unit) sm) s = (Inr (), s') \<and>
    (\<forall>i. due_of s' i \<noteq> None \<longleftrightarrow> (\<exists>spec\<in>set specs. sp_id spec = i \<and> armable spec))"
proof -
  let ?now = "se_now E (sw_tick (sd_world s))"
  let ?s1 = "s\<lparr>sd_records := [], sd_errors := [], sd_world := (sd_world s)\<lparr>sw_tick := Suc (sw_tick (sd_world s))\<rparr>, sd_registry := reg\<rparr>"
  obtain r :: "'e + unit" and s2 where t: "tick_all X E T ?now specs ?s1 = (r, s2)" by fastforce
  note all = tick_all_due [OF t assms(2)]
  let ?s' = "s2\<lparr>sd_next_due := filter (\<lambda>(i, _). i \<in> sp_id ` set specs) (sd_next_due s2)\<rparr>"
  have "(tick X E T :: (('x, 'b) scheduler, 'e, unit) sm) s = (Inr (), ?s')"
    using t all assms(1) by (simp add: tick_def load_registry_def inW_def askW_def sm_simps)
  moreover have "due_of ?s' i = (if i \<in> sp_id ` set specs then due_of s2 i else None)" for i
    by (simp add: due_of_def map_of_filter_key)
  ultimately show ?thesis using all by (intro exI conjI allI) (auto split: if_splits)
qed

lemma ex_load: "load_schedules (te_codec ex_tick_env) (sd_registry (ex_scheduler x)) =
    (Inr [ex_spec [''a'']], \<lparr>io_flags = [], rg_file = Some ()\<rparr>)"
  by (simp add: load_schedules_def ex_tick_env_def ex_scheduler_def with_lease_store_def scheduler_new_def sm_simps io_op_def)

text \<open>
  A restart fires nothing. A tick at a moment before every armed due time, in particular the first tick of a daemon, makes
  no call, claims no lease, reports and notifies no record, and every time it arms is in the future.
\<close>

lemma idle_tick_fires_nothing:
  fixes s :: "('x, 'b) scheduler"
  assumes "\<forall>(i, d)\<in>set (sd_next_due s). se_now E (sw_tick (sd_world s)) < d" and "se_now E (sw_tick (sd_world s)) < u64_max"
  shows "\<exists>s'. (tick X E T :: (('x, 'b) scheduler, 'e, unit) sm) s = (Inr (), s') \<and> sd_records s' = [] \<and>
    sd_notified s' = sd_notified s \<and> sw_exec (sd_world s') = sw_exec (sd_world s) \<and>
    (\<forall>(i, d)\<in>set (sd_next_due s'). se_now E (sw_tick (sd_world s)) < d)"
proof -
  let ?now = "se_now E (sw_tick (sd_world s))"
  obtain l reg where l: "load_schedules (te_codec T) (sd_registry s) = (l, reg)" by fastforce
  let ?s1 = "s\<lparr>sd_records := [], sd_errors := [], sd_world := (sd_world s)\<lparr>sw_tick := Suc (sw_tick (sd_world s))\<rparr>, sd_registry := reg\<rparr>"
  show ?thesis
  proof (cases l)
    case (Inl e)
    then show ?thesis using l assms(1)
      by (simp add: tick_def load_registry_def inW_def askW_def sm_simps push_error_def)
  next
    case (Inr specs)
    obtain r :: "'e + unit" and s2 where t: "tick_all X E T ?now specs ?s1 = (r, s2)" by fastforce
    have "r = Inr () \<and> idle ?now s2 \<and> same_but_due ?s1 s2"
      using tick_all_idle [OF t _ assms(2)] assms(1) by (simp add: idle_def)
    then show ?thesis using t l Inr
      by (auto simp: tick_def load_registry_def inW_def askW_def sm_simps idle_def same_but_due_def)
  qed
qed

text \<open>
  C24. A lease another worker holds stops a due schedule. While the lease row of the schedule is owned and unexpired at every
  instant of the claim, the tick of any worker fires nothing: no tool call, no record, no notification, and every lease row
  stays.
\<close>

theorem held_lease_stops_firing:
  fixes s :: "('l conn_world, 'b) scheduler"
  assumes "sd_leases s = Some store" and "lease_inv (cw_leases (sw_exec (sd_world s)))"
    and "lease_map (cw_leases (sw_exec (sd_world s))) (sl_tenant store, sp_id spec) = Some row" and "lr_owner row \<noteq> ''''"
    and "\<forall>t\<in>sql_times (cw_leases (sw_exec (sd_world s))). t < lr_expires_at_ms row"
  shows "\<exists>s' db. fire_due (session_executor C) E T now spec s = (Inr () :: 'e + unit, s') \<and>
    sd_records s' = sd_records s \<and> sd_notified s' = sd_notified s \<and>
    sw_exec (sd_world s') = (sw_exec (sd_world s))\<lparr>cw_leases := db\<rparr> \<and>
    lease_map db = lease_map (cw_leases (sw_exec (sd_world s)))"
proof (cases "cw_lease_poisoned (sw_exec (sd_world s))")
  case True
  then obtain s' where "fire_due (session_executor C) E T now spec s = (Inr () :: 'e + unit, s')" "sd_records s' = sd_records s"
      "sd_notified s' = sd_notified s" "sd_world s' = sd_world s"
    using assms(1) by (auto simp: fire_due_def leaseW_def inW_def sm_simps push_error_def Let_def)
  then show ?thesis by (intro exI [of _ s'] exI [of _ "cw_leases (sw_exec (sd_world s))"]) simp
next
  case False
  let ?x = "sw_exec (sd_world s)"
  obtain r db where c: "claim store (sp_id spec) (cw_leases ?x) = (r, db)" by fastforce
  have "r = Inr None \<or> (\<exists>e. r = Inl e)" "lease_map db = lease_map (cw_leases ?x)"
    using live_lease_claim [OF assms(2-5) c] by auto
  then show ?thesis
    using fire_due_claim [of s store "session_executor C" spec r db, where ?'d = 'e and E = E and T = T and now = now] assms(1) False c
    by (auto simp: push_error_def modifyS_def simp del: append_Cons)
qed

definition ex_held_world :: "json conn_world" where
  "ex_held_world = ex_conn_world\<lparr>cw_leases := ex_lease_db [ex_row ''a'' 100 1] 200\<rparr>"

theorem held_lease_stops_firing_witness:
  "\<exists>s'. fire_due (session_executor ex_conn_env) ex_sched_env ex_tick_env 9 ex_nightly (ex_scheduler ex_held_world) =
     (Inr () :: unit + unit, s') \<and> sd_records s' = [] \<and> cw_calls (sw_exec (sd_world s')) = []"
proof -
  have "cw_leases ex_held_world = ex_lease_db [ex_row ''a'' 100 1] 200" "cw_calls ex_held_world = []" "sp_id ex_nightly = ''nightly''"
    by (simp_all add: ex_held_world_def ex_conn_world_def ex_nightly_def)
  then show ?thesis
    using held_lease_stops_firing [of "ex_scheduler ex_held_world" "ex_worker ''b''" ex_nightly "ex_row ''a'' 100 1"
        ex_conn_env ex_sched_env ex_tick_env 9, where ?'e = unit]
    by (fastforce simp: ex_lease_defs lease_inv_def pk_ok_def lease_map_def row_at_def lease_key_def sql_times_def as_i64_def)
qed

end
