(* ===== verification/Hook_Registry.thy ===== *)
theory Hook_Registry
  imports Session_Connectors "HOL-Library.Product_Lexorder" "HOL-Library.List_Lexorder" "HOL-Library.Char_ord"
begin

text \<open>
  Declarations of document hooks: the event catalogue and the decision lattice of \<^verbatim>\<open>supercli-events/src/lib.rs\<close>, the
  registry built from two \<^verbatim>\<open>hooks.toml\<close> files (\<^verbatim>\<open>registry.rs\<close>) and the two readers of a webhook URL, the guard at
  registration and the framing at delivery (\<^verbatim>\<open>handlers.rs\<close>).
\<close>

section \<open>The event catalogue\<close>

datatype doc_type =
  Session | Turn | ToolCall | Approval | Grant | Schedule | Job | RunDoc | ConnectorDoc | Device | FileWriteDoc | GitOp | Idea

fun doc_type_str :: "doc_type \<Rightarrow> string" where
  "doc_type_str Session = ''Session''"
| "doc_type_str Turn = ''Turn''"
| "doc_type_str ToolCall = ''ToolCall''"
| "doc_type_str Approval = ''Approval''"
| "doc_type_str Grant = ''Grant''"
| "doc_type_str Schedule = ''Schedule''"
| "doc_type_str Job = ''Job''"
| "doc_type_str RunDoc = ''Run''"
| "doc_type_str ConnectorDoc = ''Connector''"
| "doc_type_str Device = ''Device''"
| "doc_type_str FileWriteDoc = ''FileWrite''"
| "doc_type_str GitOp = ''GitOp''"
| "doc_type_str Idea = ''Idea''"

definition doc_types :: "doc_type list" where
  "doc_types = [Session, Turn, ToolCall, Approval, Grant, Schedule, Job, RunDoc, ConnectorDoc, Device, FileWriteDoc, GitOp, Idea]"

definition doc_type_parse :: "string \<Rightarrow> doc_type option" where
  "doc_type_parse s = List.find (\<lambda>t. doc_type_str t = s) doc_types"

datatype doc_event =
  BeforeInsert | Autoname | AfterInsert | BeforeValidate | Validate | BeforeSave | OnUpdate | OnChange | OnTrash
  | AfterDelete | OnArchive | OnRestore | BeforeSubmit | OnSubmit | OnCancel | OnExpire | BeforeExecute | OnExecute | OnFail
  | OnOutcomeUnknown

fun doc_event_str :: "doc_event \<Rightarrow> string" where
  "doc_event_str BeforeInsert = ''before_insert''"
| "doc_event_str Autoname = ''autoname''"
| "doc_event_str AfterInsert = ''after_insert''"
| "doc_event_str BeforeValidate = ''before_validate''"
| "doc_event_str Validate = ''validate''"
| "doc_event_str BeforeSave = ''before_save''"
| "doc_event_str OnUpdate = ''on_update''"
| "doc_event_str OnChange = ''on_change''"
| "doc_event_str OnTrash = ''on_trash''"
| "doc_event_str AfterDelete = ''after_delete''"
| "doc_event_str OnArchive = ''on_archive''"
| "doc_event_str OnRestore = ''on_restore''"
| "doc_event_str BeforeSubmit = ''before_submit''"
| "doc_event_str OnSubmit = ''on_submit''"
| "doc_event_str OnCancel = ''on_cancel''"
| "doc_event_str OnExpire = ''on_expire''"
| "doc_event_str BeforeExecute = ''before_execute''"
| "doc_event_str OnExecute = ''on_execute''"
| "doc_event_str OnFail = ''on_fail''"
| "doc_event_str OnOutcomeUnknown = ''on_outcome_unknown''"

definition doc_events :: "doc_event list" where
  "doc_events = [BeforeInsert, Autoname, AfterInsert, BeforeValidate, Validate, BeforeSave, OnUpdate, OnChange, OnTrash,
     AfterDelete, OnArchive, OnRestore, BeforeSubmit, OnSubmit, OnCancel, OnExpire, BeforeExecute, OnExecute, OnFail,
     OnOutcomeUnknown]"

definition doc_event_parse :: "string \<Rightarrow> doc_event option" where
  "doc_event_parse s = List.find (\<lambda>e. doc_event_str e = s) doc_events"

definition is_sync :: "doc_event \<Rightarrow> bool" where
  "is_sync e = (e \<in> {BeforeInsert, Autoname, BeforeValidate, Validate, BeforeSave, BeforeSubmit, BeforeExecute, OnTrash})"

interpretation dtc: str_codec doc_type_str doc_type_parse
proof
  show "doc_type_parse (doc_type_str x) = Some x" for x
    by (cases x) (simp_all add: doc_type_parse_def doc_types_def)
  show "doc_type_parse s = Some x \<Longrightarrow> doc_type_str x = s" for s x
    by (auto simp: doc_type_parse_def find_Some_iff)
qed

interpretation dec: str_codec doc_event_str doc_event_parse
proof
  show "doc_event_parse (doc_event_str x) = Some x" for x
    by (cases x) (simp_all add: doc_event_parse_def doc_events_def)
  show "doc_event_parse s = Some x \<Longrightarrow> doc_event_str x = s" for s x
    by (auto simp: doc_event_parse_def find_Some_iff)
qed

section \<open>The decision lattice\<close>

datatype hook_decision = AllowHook | Escalate | Reject

fun strictness :: "hook_decision \<Rightarrow> nat" where
  "strictness AllowHook = 0"
| "strictness Escalate = 1"
| "strictness Reject = 2"

definition combine :: "hook_decision \<Rightarrow> hook_decision \<Rightarrow> hook_decision" where
  "combine d other = (if strictness other > strictness d then other else d)"

fun hook_decision_str :: "hook_decision \<Rightarrow> string" where
  "hook_decision_str AllowHook = ''allow''"
| "hook_decision_str Escalate = ''escalate''"
| "hook_decision_str Reject = ''reject''"

definition hook_decision_parse :: "string \<Rightarrow> hook_decision option" where
  "hook_decision_parse s =
     (if s = ''allow'' then Some AllowHook else if s = ''escalate'' then Some Escalate
      else if s = ''reject'' then Some Reject else None)"

interpretation hdc: str_codec hook_decision_str hook_decision_parse
proof
  show "hook_decision_parse (hook_decision_str x) = Some x" for x
    by (cases x) (simp_all add: hook_decision_parse_def)
  show "hook_decision_parse s = Some x \<Longrightarrow> hook_decision_str x = s" for s x
    by (auto simp: hook_decision_parse_def split: if_splits)
qed

text \<open>The derived order; \<open>combine\<close> is its maximum.\<close>

lemma strictness_inj: "strictness a = strictness b \<longleftrightarrow> a = b"
  by (cases a; cases b) simp_all

instantiation hook_decision :: linorder
begin

definition less_eq_hook_decision :: "hook_decision \<Rightarrow> hook_decision \<Rightarrow> bool" where
  "less_eq_hook_decision a b = (strictness a \<le> strictness b)"

definition less_hook_decision :: "hook_decision \<Rightarrow> hook_decision \<Rightarrow> bool" where
  "less_hook_decision a b = (strictness a < strictness b)"

instance
  by standard (auto simp: less_eq_hook_decision_def less_hook_decision_def strictness_inj)

end

lemma combine_max: "combine a b = max a b"
  by (cases a; cases b) (simp_all add: combine_def max_def less_eq_hook_decision_def)

lemma reject_top [simp]: "d \<le> Reject" "max d Reject = Reject" "max Reject d = Reject"
  by (cases d; simp add: less_eq_hook_decision_def max_def)+

section \<open>Webhook URLs\<close>

text \<open>\<^verbatim>\<open>parse::<u16>()\<close>: decimal digits with an optional plus sign, at most 65535.\<close>

definition parse_u16 :: "string \<Rightarrow> nat option" where
  "parse_u16 s =
     (let ds = (case s of c # r \<Rightarrow> if c = CHR ''+'' then r else s | [] \<Rightarrow> s) in
      if ds \<noteq> [] \<and> list_all is_ascii_digit ds \<and> read_nat ds \<le> 65535 then Some (read_nat ds) else None)"

text \<open>The scheme of a lower-cased URL: the default port and what follows.\<close>

definition url_rest :: "string \<Rightarrow> (nat \<times> string) option" where
  "url_rest lower =
     (case strip_prefix ''http://'' lower of
        Some r \<Rightarrow> Some (80, r)
      | None \<Rightarrow> map_option (Pair 443) (strip_prefix ''https://'' lower))"

definition validate_localhost_url :: "string \<Rightarrow> string + unit" where
  "validate_localhost_url url =
     (case url_rest (to_ascii_lowercase url) of
        None \<Rightarrow> Inl ''URL must start with http:// or https://''
      | Some (_, rest) \<Rightarrow>
          let after_userinfo = last (split_on CHR ''@'' rest);
              host_port = hd (split_on CHR ''/'' after_userinfo);
              host = (case strip_prefix ''['' host_port of
                        Some inside \<Rightarrow> hd (split_on CHR '']'' inside)
                      | None \<Rightarrow> hd (split_on CHR '':'' host_port)) in
          if host \<in> {''127.0.0.1'', ''::1'', ''localhost''} then Inr ()
          else Inl ''webhook host must be 127.0.0.1, ::1, or localhost'')"

text \<open>The text before the first and after the last occurrence of a character.\<close>

definition before :: "char \<Rightarrow> string \<Rightarrow> string" where
  "before c s = takeWhile (\<lambda>x. x \<noteq> c) s"

definition after_last :: "char \<Rightarrow> string \<Rightarrow> string" where
  "after_last c s = rev (before c (rev s))"

definition before_last :: "char \<Rightarrow> string \<Rightarrow> string" where
  "before_last c s = take (length s - length (after_last c s) - 1) s"

definition parse_local_url :: "string \<Rightarrow> string + string \<times> nat \<times> string" where
  "parse_local_url url =
     (case url_rest (to_ascii_lowercase url) of
        None \<Rightarrow> Inl ''URL must start with http:// or https://''
      | Some (default_port, rest) \<Rightarrow>
          let path = (if CHR ''/'' \<in> set rest then dropWhile (\<lambda>x. x \<noteq> CHR ''/'') rest else ''/'');
              authority = last (split_on CHR ''@'' (before CHR ''/'' rest)) in
          bindE (case strip_prefix ''['' authority of
              Some stripped \<Rightarrow>
                if CHR '']'' \<notin> set stripped then Inl ''bad IPv6 literal''
                else Inr (''['' @ before CHR '']'' stripped @ '']'',
                  case Option.bind (strip_prefix '':'' (drop (Suc (length (before CHR '']'' stripped))) stripped)) parse_u16 of
                    None \<Rightarrow> default_port | Some p \<Rightarrow> p)
            | None \<Rightarrow>
                if CHR '':'' \<in> set authority
                then Inr (before_last CHR '':'' authority,
                  case parse_u16 (after_last CHR '':'' authority) of None \<Rightarrow> default_port | Some p \<Rightarrow> p)
                else Inr (authority, default_port))
            (\<lambda>(host, port). Inr (if host = ''localhost'' then ''127.0.0.1'' else host, port, path)))"

section \<open>Declarations\<close>

text \<open>A parsed TOML value. Floats and dates occur in no field that the registry reads.\<close>

datatype toml =
    TStr string
  | TInt int
  | TBool bool
  | TArr "toml list"
  | TTable "(string \<times> toml) list"
  | TOther

fun as_table :: "toml \<Rightarrow> (string \<times> toml) list option" where
  "as_table (TTable m) = Some m"
| "as_table _ = None"

fun as_toml_array :: "toml \<Rightarrow> toml list option" where
  "as_toml_array (TArr vs) = Some vs"
| "as_toml_array _ = None"

fun toml_str :: "toml \<Rightarrow> string option" where
  "toml_str (TStr s) = Some s"
| "toml_str _ = None"

fun toml_uint :: "nat \<Rightarrow> toml \<Rightarrow> nat option" where
  "toml_uint bound (TInt i) = (if 0 \<le> i \<and> nat i \<le> bound then Some (nat i) else None)"
| "toml_uint bound _ = None"

definition DEFAULT_TIMEOUT_MS :: nat where "DEFAULT_TIMEOUT_MS = 2000"

definition DEFAULT_PRIORITY :: nat where "DEFAULT_PRIORITY = 100"

record handler_decl =
  hd_name :: string
  hd_priority :: nat
  hd_timeout_ms :: nat
  hd_command :: "string list option"
  hd_webhook :: "string option"

text \<open>
  The derived deserialisation: \<open>opt_field\<close> is a field with a default (\<open>None\<close>: present with the wrong type).
\<close>

definition opt_field :: "(string \<times> toml) list \<Rightarrow> string \<Rightarrow> (toml \<Rightarrow> 'a option) \<Rightarrow> 'a \<Rightarrow> 'a option" where
  "opt_field m k read d = (case map_of m k of None \<Rightarrow> Some d | Some v \<Rightarrow> read v)"

definition toml_strings :: "toml \<Rightarrow> string list option" where
  "toml_strings v = Option.bind (as_toml_array v) (\<lambda>vs.
     if list_all (\<lambda>x. toml_str x \<noteq> None) vs then Some (List.map_filter toml_str vs) else None)"

definition handler_decl_of :: "toml \<Rightarrow> handler_decl option" where
  "handler_decl_of v =
     Option.bind (as_table v) (\<lambda>m.
     Option.bind (Option.bind (map_of m ''name'') toml_str) (\<lambda>name.
     Option.bind (opt_field m ''priority'' (toml_uint (2 ^ 32 - 1)) DEFAULT_PRIORITY) (\<lambda>priority.
     Option.bind (opt_field m ''timeout_ms'' (toml_uint u64_max) DEFAULT_TIMEOUT_MS) (\<lambda>timeout_ms.
     Option.bind (opt_field m ''command'' (\<lambda>x. map_option Some (toml_strings x)) None) (\<lambda>command.
     Option.bind (opt_field m ''webhook'' (\<lambda>x. map_option Some (toml_str x)) None) (\<lambda>webhook.
     Some \<lparr>hd_name = name, hd_priority = priority, hd_timeout_ms = timeout_ms, hd_command = command,
           hd_webhook = webhook\<rparr>))))))"

section \<open>The registry\<close>

datatype handler_target = Command "string list" | Webhook string

record hook_handler =
  hh_name :: string
  hh_entity :: doc_type
  hh_event :: doc_event
  hh_priority :: nat
  hh_timeout_ms :: nat
  hh_target :: handler_target
  hh_global :: bool
  hh_order :: nat

record disabled_handler =
  dh_name :: string
  dh_entity :: string
  dh_event :: string
  dh_reason :: string
  dh_global :: bool

record hook_registry =
  hr_handlers :: "((doc_type \<times> doc_event) \<times> hook_handler list) list"
  hr_disabled :: "disabled_handler list"

definition empty_registry :: hook_registry where
  "empty_registry = \<lparr>hr_handlers = [], hr_disabled = []\<rparr>"

text \<open>What the registration asks of the machine: which paths are files and the directories of \<^verbatim>\<open>PATH\<close>, if set.\<close>

record hook_machine =
  hm_is_file :: "string \<Rightarrow> bool"
  hm_path :: "string list option"

definition join_path :: "string \<Rightarrow> string \<Rightarrow> string" where
  "join_path dir name = (if dir = [] \<or> last dir = CHR ''/'' then dir @ name else dir @ ''/'' @ name)"

definition command_on_path :: "hook_machine \<Rightarrow> string \<Rightarrow> bool" where
  "command_on_path M program =
     (if starts_with CHR ''/'' program then hm_is_file M program
      else if CHR ''/'' \<in> set program \<or> CHR 0x5C \<in> set program then hm_is_file M program
      else (case hm_path M of
              None \<Rightarrow> False
            | Some dirs \<Rightarrow> list_ex (\<lambda>dir. hm_is_file M (join_path dir program)) dirs))"

definition decl_target :: "hook_machine \<Rightarrow> string \<Rightarrow> handler_decl \<Rightarrow> string + handler_target" where
  "decl_target M path decl =
     (let who = path @ '': handler '' @ debug_str (hd_name decl) @ '': '' in
      if trim (hd_name decl) = [] then Inl (path @ '': handler name must not be empty'')
      else case (hd_command decl, hd_webhook decl) of
             (Some cmd, None) \<Rightarrow>
               (case cmd of
                  [] \<Rightarrow> Inl (who @ ''command must be a non-empty argv array'')
                | program # _ \<Rightarrow>
                    if \<not> command_on_path M program
                    then Inl (who @ ''command '' @ debug_str program @ '' not found on PATH'')
                    else Inr (Command cmd))
           | (None, Some url) \<Rightarrow>
               (case validate_localhost_url url of
                  Inr _ \<Rightarrow> Inr (Webhook url)
                | Inl reason \<Rightarrow> Inl (who @ ''webhook '' @ debug_str url @ '': '' @ reason))
           | (Some _, Some _) \<Rightarrow> Inl (who @ ''specify exactly one of command / webhook'')
           | (None, None) \<Rightarrow> Inl (who @ ''specify command or webhook''))"

definition handlers_for :: "hook_registry \<Rightarrow> doc_type \<Rightarrow> doc_event \<Rightarrow> hook_handler list" where
  "handlers_for reg entity event =
     (case map_of (hr_handlers reg) (entity, event) of None \<Rightarrow> [] | Some hs \<Rightarrow> hs)"

definition add_decl ::
  "hook_machine \<Rightarrow> string \<Rightarrow> bool \<Rightarrow> doc_type \<Rightarrow> doc_event \<Rightarrow> nat \<Rightarrow> handler_decl \<Rightarrow> hook_registry \<Rightarrow> hook_registry" where
  "add_decl M path global entity event order decl reg =
     (case decl_target M path decl of
        Inl reason \<Rightarrow>
          reg\<lparr>hr_disabled := hr_disabled reg @
            [\<lparr>dh_name = hd_name decl, dh_entity = doc_type_str entity, dh_event = doc_event_str event,
              dh_reason = reason, dh_global = global\<rparr>]\<rparr>
      | Inr target \<Rightarrow>
          reg\<lparr>hr_handlers := AList.update (entity, event) (handlers_for reg entity event @
            [\<lparr>hh_name = hd_name decl, hh_entity = entity, hh_event = event, hh_priority = hd_priority decl,
              hh_timeout_ms = hd_timeout_ms decl, hh_target = target, hh_global = global, hh_order = order\<rparr>])
            (hr_handlers reg)\<rparr>)"

definition handler_count :: "hook_registry \<Rightarrow> nat" where
  "handler_count reg = sum_list (map (length \<circ> snd) (hr_handlers reg))"

datatype hook_load_error =
  HookUnreadable string | HookMalformed string | MissingDocEvents string | UnknownEntity string string | NotEventTable string string
  | UnknownEvent string string string | NotHandlerList string string string | BadHandler string string string

fun load_handlers ::
  "hook_machine \<Rightarrow> string \<Rightarrow> bool \<Rightarrow> doc_type \<Rightarrow> doc_event \<Rightarrow> toml list \<Rightarrow> nat \<times> hook_registry
     \<Rightarrow> hook_load_error + nat \<times> hook_registry" where
  "load_handlers M path global entity event [] s = Inr s"
| "load_handlers M path global entity event (h # hs) (order, reg) =
     (case handler_decl_of h of
        None \<Rightarrow> Inl (BadHandler path (doc_type_str entity) (doc_event_str event))
      | Some decl \<Rightarrow>
          load_handlers M path global entity event hs (Suc order, add_decl M path global entity event (Suc order) decl reg))"

fun load_events ::
  "hook_machine \<Rightarrow> string \<Rightarrow> bool \<Rightarrow> doc_type \<Rightarrow> (string \<times> toml) list \<Rightarrow> nat \<times> hook_registry
     \<Rightarrow> hook_load_error + nat \<times> hook_registry" where
  "load_events M path global entity [] s = Inr s"
| "load_events M path global entity ((event_name, handlers) # es) s =
     bindE (ok_or (UnknownEvent path event_name (doc_type_str entity)) (doc_event_parse event_name)) (\<lambda>event.
     bindE (ok_or (NotHandlerList path (doc_type_str entity) event_name) (as_toml_array handlers)) (\<lambda>hs.
     bindE (load_handlers M path global entity event hs s) (\<lambda>s'.
     load_events M path global entity es s')))"

fun load_entities ::
  "hook_machine \<Rightarrow> string \<Rightarrow> bool \<Rightarrow> (string \<times> toml) list \<Rightarrow> nat \<times> hook_registry \<Rightarrow> hook_load_error + nat \<times> hook_registry" where
  "load_entities M path global [] s = Inr s"
| "load_entities M path global ((entity_name, events) # es) s =
     bindE (ok_or (UnknownEntity path entity_name) (doc_type_parse entity_name)) (\<lambda>entity.
     bindE (ok_or (NotEventTable path entity_name) (as_table events)) (\<lambda>evs.
     bindE (load_events M path global entity evs s) (\<lambda>s'.
     load_entities M path global es s')))"

text \<open>A hook file: absent, present but unreadable, not TOML, or parsed.\<close>

datatype hook_file = NoFile | Unreadable | Malformed | Parsed toml

fun load_file :: "hook_machine \<Rightarrow> string \<Rightarrow> hook_file \<Rightarrow> bool \<Rightarrow> nat \<Rightarrow> hook_registry \<Rightarrow> hook_load_error + hook_registry" where
  "load_file M path NoFile global order_base reg = Inr reg"
| "load_file M path Unreadable global order_base reg = Inl (HookUnreadable path)"
| "load_file M path Malformed global order_base reg = Inl (HookMalformed path)"
| "load_file M path (Parsed doc) global order_base reg =
     bindE (ok_or (MissingDocEvents path)
       (Option.bind (Option.bind (as_table doc) (\<lambda>m. map_of m ''doc_events'')) as_table)) (\<lambda>doc_events.
     bindE (load_entities M path global doc_events (order_base, reg)) (\<lambda>(_, reg'). Inr reg'))"

text \<open>Ascending priority, then global before project, then declaration order.\<close>

definition handler_key :: "hook_handler \<Rightarrow> nat \<times> bool \<times> nat" where
  "handler_key h = (hh_priority h, \<not> hh_global h, hh_order h)"

definition sort_all :: "hook_registry \<Rightarrow> hook_registry" where
  "sort_all reg = reg\<lparr>hr_handlers := map (\<lambda>(k, hs). (k, sort_key handler_key hs)) (hr_handlers reg)\<rparr>"

definition load_hooks :: "hook_machine \<Rightarrow> (string \<times> hook_file) \<Rightarrow> (string \<times> hook_file) \<Rightarrow> hook_load_error + hook_registry" where
  "load_hooks M global project =
     bindE (load_file M (fst global) (snd global) True 0 empty_registry) (\<lambda>reg.
     bindE (load_file M (fst project) (snd project) False (handler_count reg) reg) (\<lambda>reg'.
     Inr (sort_all reg')))"

definition all_pairs :: "hook_registry \<Rightarrow> ((doc_type \<times> doc_event) \<times> hook_handler list) list" where
  "all_pairs reg = sort_key (\<lambda>((e, ev), _). (doc_type_str e, doc_event_str ev)) (hr_handlers reg)"

definition has_handlers :: "hook_registry \<Rightarrow> doc_type \<Rightarrow> doc_event \<Rightarrow> bool" where
  "has_handlers reg entity event = (handlers_for reg entity event \<noteq> [])"

section \<open>What a loaded registry promises\<close>

text \<open>A handler that passed registration for its entity and event.\<close>

fun target_ok :: "hook_machine \<Rightarrow> handler_target \<Rightarrow> bool" where
  "target_ok M (Command cmd) = (cmd \<noteq> [] \<and> command_on_path M (hd cmd))"
| "target_ok M (Webhook url) = (validate_localhost_url url = Inr ())"

definition handler_ok :: "hook_machine \<Rightarrow> doc_type \<Rightarrow> doc_event \<Rightarrow> hook_handler \<Rightarrow> bool" where
  "handler_ok M entity event h =
     (hh_entity h = entity \<and> hh_event h = event \<and> trim (hh_name h) \<noteq> [] \<and> target_ok M (hh_target h))"

definition slot :: "hook_handler \<Rightarrow> bool \<times> nat" where
  "slot h = (\<not> hh_global h, hh_order h)"

text \<open>While the files are read: every handler is sound, and no two handlers of one event share a slot up to \<open>ub\<close>.\<close>

definition filling :: "hook_machine \<Rightarrow> bool \<times> nat \<Rightarrow> hook_registry \<Rightarrow> bool" where
  "filling M ub reg =
     (\<forall>entity event. let hs = handlers_for reg entity event in
        (\<forall>h\<in>set hs. handler_ok M entity event h \<and> slot h \<le> ub) \<and> distinct (map slot hs))"

lemma decl_target_ok: "decl_target M path decl = Inr t \<Longrightarrow> trim (hd_name decl) \<noteq> [] \<and> target_ok M t"
  by (auto simp: decl_target_def Let_def split: if_splits option.splits list.splits sum.splits)

lemma handlers_for_update:
  "handlers_for (reg\<lparr>hr_handlers := AList.update (e, ev) hs (hr_handlers reg)\<rparr>) e' ev' =
     (if (e', ev') = (e, ev) then hs else handlers_for reg e' ev')"
  by (auto simp: handlers_for_def update_conv')

lemma filling_mono: "filling M ub reg \<Longrightarrow> ub \<le> ub' \<Longrightarrow> filling M ub' reg"
  unfolding filling_def Let_def by (meson order_trans)

lemma filling_add:
  assumes "filling M ub reg" and "ub < (\<not> global, order)"
  shows "filling M (\<not> global, order) (add_decl M path global entity event order decl reg)"
proof (cases "decl_target M path decl")
  case (Inl reason)
  then have "handlers_for (add_decl M path global entity event order decl reg) = handlers_for reg"
    by (simp add: add_decl_def handlers_for_def fun_eq_iff)
  then show ?thesis using filling_mono [OF assms(1) less_imp_le [OF assms(2)]] by (simp add: filling_def)
next
  case (Inr target)
  let ?h = "\<lparr>hh_name = hd_name decl, hh_entity = entity, hh_event = event, hh_priority = hd_priority decl,
    hh_timeout_ms = hd_timeout_ms decl, hh_target = target, hh_global = global, hh_order = order\<rparr>"
  have hs: "handlers_for (add_decl M path global entity event order decl reg) e ev =
      (if (e, ev) = (entity, event) then handlers_for reg entity event @ [?h] else handlers_for reg e ev)" for e ev
    using Inr by (simp add: add_decl_def handlers_for_update)
  have old: "\<forall>h\<in>set (handlers_for reg e ev). handler_ok M e ev h \<and> slot h < (\<not> global, order)"
      "distinct (map slot (handlers_for reg e ev))" for e ev
    using assms unfolding filling_def Let_def by (meson le_less_trans)+
  have new: "handler_ok M entity event ?h" "slot ?h = (\<not> global, order)"
    using decl_target_ok [OF Inr] by (simp_all add: handler_ok_def slot_def)
  show ?thesis
    unfolding filling_def Let_def hs using old new by (auto simp: less_imp_le) (metis less_irrefl)
qed

lemma load_handlers_filling:
  assumes "load_handlers M path global entity event hs (order, reg) = Inr (order', reg')" and "filling M (\<not> global, order) reg"
  shows "filling M (\<not> global, order') reg'"
  using assms
proof (induction hs arbitrary: order reg)
  case (Cons h hs)
  then obtain decl where "load_handlers M path global entity event hs
      (Suc order, add_decl M path global entity event (Suc order) decl reg) = Inr (order', reg')"
    by (auto split: option.splits)
  from Cons.IH [OF this filling_add [OF Cons.prems(2)]] show ?case by simp
qed simp

lemma load_events_filling:
  assumes "load_events M path global entity es (order, reg) = Inr (order', reg')" and "filling M (\<not> global, order) reg"
  shows "filling M (\<not> global, order') reg'"
  using assms
  by (induction es arbitrary: order reg) (simp, auto simp: bindE_Inr_iff, metis load_handlers_filling)

lemma load_entities_filling:
  assumes "load_entities M path global es (order, reg) = Inr (order', reg')" and "filling M (\<not> global, order) reg"
  shows "filling M (\<not> global, order') reg'"
  using assms
  by (induction es arbitrary: order reg) (simp, auto simp: bindE_Inr_iff, metis load_events_filling)

lemma load_file_filling:
  assumes "load_file M path f global n reg = Inr reg'" and "filling M (\<not> global, n) reg"
  shows "\<exists>n'. filling M (\<not> global, n') reg'"
  using assms by (cases f) (auto simp: bindE_Inr_iff dest: load_entities_filling)

lemma handlers_for_sort: "handlers_for (sort_all reg) e ev = sort_key handler_key (handlers_for reg e ev)"
  by (auto simp: handlers_for_def sort_all_def map_of_map split: option.splits)

lemma sorted_wrt_sort_key_strict:
  assumes "distinct (map f xs)"
  shows "sorted_wrt (\<lambda>a b. f a < f b) (sort_key f xs)"
proof -
  have "distinct (map f (sort_key f xs))" using assms by (simp add: distinct_map)
  moreover have "sorted (map f (sort_key f xs))" by simp
  ultimately show ?thesis using strict_sorted_iff [of "map f (sort_key f xs)"] by (simp add: sorted_wrt_map)
qed

section \<open>Properties\<close>

text \<open>
  A loaded registry runs only registered handlers, in one order. Every handler it returns for an event was declared for
  that event under a non-blank name and passed its check (a program that exists, or a URL the localhost guard accepts), and
  the handlers are strictly ordered by priority, then global before project, then declaration order, whatever order the
  files list their entities in.
\<close>

lemma loaded_handlers_ordered:
  assumes "load_hooks M global project = Inr reg"
  shows "(\<forall>h\<in>set (handlers_for reg entity event). handler_ok M entity event h) \<and>
    sorted_wrt (\<lambda>a b. handler_key a < handler_key b) (handlers_for reg entity event)"
proof -
  obtain reg1 reg2 where l: "load_file M (fst global) (snd global) True 0 empty_registry = Inr reg1"
      "load_file M (fst project) (snd project) False (handler_count reg1) reg1 = Inr reg2" "reg = sort_all reg2"
    using assms by (auto simp: load_hooks_def bindE_Inr_iff)
  have "filling M (False, 0) empty_registry"
    by (simp add: filling_def handlers_for_def empty_registry_def)
  then obtain n1 where "filling M (False, n1) reg1" using load_file_filling [OF l(1)] by auto
  then have "filling M (True, handler_count reg1) reg1" by (rule filling_mono) (simp add: less_bool_def)
  then obtain n2 where f: "filling M (True, n2) reg2" using load_file_filling [OF l(2)] by auto
  let ?hs = "handlers_for reg2 entity event"
  have "\<forall>h\<in>set ?hs. handler_ok M entity event h" "distinct (map slot ?hs)"
    using f unfolding filling_def Let_def by blast+
  moreover have "distinct (map slot ?hs) \<Longrightarrow> distinct (map handler_key ?hs)"
    by (auto simp: distinct_map inj_on_def slot_def handler_key_def)
  ultimately show ?thesis
    unfolding l(3) handlers_for_sort
    by (simp add: sorted_wrt_sort_key_strict)
qed

definition ex_machine :: hook_machine where
  "ex_machine = \<lparr>hm_is_file = (\<lambda>p. p = ''/bin/sh''), hm_path = Some [''/bin'']\<rparr>"

definition ex_decl :: "string \<Rightarrow> int \<Rightarrow> toml" where
  "ex_decl name priority = TTable [(''name'', TStr name), (''priority'', TInt priority), (''command'', TArr [TStr ''sh''])]"

definition ex_hooks :: toml where
  "ex_hooks = TTable [(''doc_events'', TTable [(''ToolCall'', TTable [(''before_execute'', TArr [ex_decl ''b'' 100, ex_decl ''a'' 10])])])]"

definition ex_handler :: "string \<Rightarrow> nat \<Rightarrow> nat \<Rightarrow> hook_handler" where
  "ex_handler name priority order = \<lparr>hh_name = name, hh_entity = ToolCall, hh_event = BeforeExecute, hh_priority = priority,
     hh_timeout_ms = 2000, hh_target = Command [''sh''], hh_global = True, hh_order = order\<rparr>"

lemma ex_hooks_loaded:
  "load_hooks ex_machine (''g'', Parsed ex_hooks) (''p'', NoFile) =
     Inr \<lparr>hr_handlers = [((ToolCall, BeforeExecute), [ex_handler ''a'' 10 2, ex_handler ''b'' 100 1])], hr_disabled = []\<rparr>"
  by (simp add: load_hooks_def ex_hooks_def ex_decl_def ex_machine_def ex_handler_def handler_decl_of_def opt_field_def
      toml_strings_def List.map_filter_def doc_type_parse_def doc_types_def doc_event_parse_def doc_events_def add_decl_def
      decl_target_def trim_def is_space_def byte_of_def command_on_path_def join_path_def starts_with_def handlers_for_def
      empty_registry_def handler_count_def sort_all_def sort_key_def handler_key_def u64_max_def DEFAULT_TIMEOUT_MS_def)

lemma hd_split_on: "hd (split_on c s) = before c s"
  by (induction s) (auto simp: before_def split: list.splits)

lemma before_no_sep [simp]: "c \<notin> set (before c s)"
  by (induction s) (auto simp: before_def)

lemma before_last_snoc: "c \<notin> set b \<Longrightarrow> before_last c (a @ c # b) = a"
  by (simp add: before_last_def after_last_def before_def takeWhile_append)

lemma before_last_prefix:
  assumes "c \<in> set s"
  shows "before_last c s = before c s \<or> (\<exists>t. before_last c s = before c s @ c # t)"
proof -
  obtain a b where s: "s = a @ c # b" "c \<notin> set b" using split_list_last [OF assms] by auto
  show ?thesis
  proof (cases "c \<in> set a")
    case True
    then obtain a1 a2 where "a = a1 @ c # a2" "c \<notin> set a1" using split_list_first by fastforce
    then have "before_last c s = a1 @ c # a2" "before c s = a1"
      using s before_last_snoc [of c b "a1 @ c # a2"] by (auto simp: before_def takeWhile_append)
    then show ?thesis by simp
  qed (use s in \<open>auto simp: before_last_snoc before_def takeWhile_append takeWhile_eq_all_conv\<close>)
qed

lemma lowercase_at: "CHR ''@'' \<notin> set url \<Longrightarrow> CHR ''@'' \<notin> set (to_ascii_lowercase url)"
proof -
  have "char_of (of_char c + 32 :: nat) \<noteq> CHR ''@''" if "65 \<le> (of_char c :: nat)" "(of_char c :: nat) \<le> 90" for c
  proof
    assume "char_of (of_char c + 32 :: nat) = CHR ''@''"
    then have "(of_char (char_of (of_char c + 32 :: nat)) :: nat) = 64" by simp
    then show False using that by simp
  qed
  then show "CHR ''@'' \<notin> set url \<Longrightarrow> ?thesis"
    by (auto simp: to_ascii_lowercase_def Let_def byte_of_def split: if_splits) metis
qed

text \<open>The texts a dialled host can have once it is known to be the local machine.\<close>

definition loopback_host :: "string \<Rightarrow> bool" where
  "loopback_host host =
     (host \<in> {''127.0.0.1'', ''[::1]'', ''[127.0.0.1]'', ''[localhost]''} \<or>
      strip_prefix ''127.0.0.1:'' host \<noteq> None \<or> strip_prefix ''localhost:'' host \<noteq> None)"

lemma url_rest_at: "CHR ''@'' \<notin> set url \<Longrightarrow> url_rest (to_ascii_lowercase url) = Some (p, rest) \<Longrightarrow> CHR ''@'' \<notin> set rest"
  using lowercase_at by (fastforce simp: url_rest_def strip_prefix_Some_iff split: option.splits)

lemmas url_eval = validate_localhost_url_def parse_local_url_def url_rest_def to_ascii_lowercase_def byte_of_def before_def
  before_last_def after_last_def parse_u16_def read_nat_def is_ascii_digit_def Let_def



text \<open>
  The guard can be walked around with an \<^verbatim>\<open>@\<close> in the path. Registration cuts the user information off before the path, delivery
  after it: a URL whose path ends in \<^verbatim>\<open>@localhost\<close> is accepted, and its handler is dialled at the foreign address in front.
\<close>

lemma webhook_guard_bypassed:
  "validate_localhost_url ''http://10.0.0.7:8080/@localhost'' = Inr () \<and>
   parse_local_url ''http://10.0.0.7:8080/@localhost'' = Inr (''10.0.0.7'', 8080, ''/@localhost'')"
  by (simp add: url_eval)

end
