(* ===== verification/Hook_Dispatch.thy ===== *)
theory Hook_Dispatch
  imports Hook_Registry
begin

text \<open>
  Running document hooks: the two kinds of handler of \<^verbatim>\<open>supercli-events/src/handlers.rs\<close>, the dispatcher of
  \<^verbatim>\<open>runner.rs\<close> with its audit entries and its trace, and the emission helpers of \<^verbatim>\<open>lib.rs\<close>. Processes, sockets,
  the clock and the parser of the handler contract are answers of the environment.
\<close>

section \<open>The handler contract\<close>

record handler_context =
  hc_actor :: string
  hc_depth :: nat
  hc_dry_run :: bool

record handler_input =
  hi_event_id :: string
  hi_entity :: string
  hi_event :: string
  hi_doc :: json
  hi_context :: handler_context

record handler_output =
  ho_decision :: string
  ho_patch :: json
  ho_message :: string

definition decision_or_reject :: "handler_output \<Rightarrow> hook_decision \<times> string option" where
  "decision_or_reject out =
     (case hook_decision_parse (ho_decision out) of
        Some d \<Rightarrow> (d, None)
      | None \<Rightarrow> (Reject, Some ''hook_bad_output''))"

definition is_patch_empty :: "handler_output \<Rightarrow> bool" where
  "is_patch_empty out = (ho_patch out = JNull \<or> as_object (ho_patch out) = Some [])"

definition MAX_HOOK_DEPTH :: nat where "MAX_HOOK_DEPTH = 3"

definition event_id :: "doc_type \<Rightarrow> string \<Rightarrow> doc_event \<Rightarrow> nat \<Rightarrow> string" where
  "event_id entity doc_id event seq = doc_type_str entity @ '':'' @ doc_id @ '':'' @ doc_event_str event @ '':'' @ show_nat seq"

section \<open>Running one handler\<close>

datatype exec_failure = ExecTimeout | BadOutput string | Transport string

record exec_result =
  xr_output :: "handler_output option"
  xr_failure :: "exec_failure option"
  xr_elapsed_ms :: nat
  xr_stderr :: string

definition exec_failed :: "exec_failure \<Rightarrow> nat \<Rightarrow> string \<Rightarrow> exec_result" where
  "exec_failed f elapsed stderr = \<lparr>xr_output = None, xr_failure = Some f, xr_elapsed_ms = elapsed, xr_stderr = stderr\<rparr>"

text \<open>
  One run of a command, as the operating system answers it. The poll loop sleeps five milliseconds between two polls, so
  the time at poll \<open>i\<close> is \<open>5 * i\<close> plus a lag.
\<close>

datatype poll = Exited | Running | WaitError string

record command_run =
  cm_spawn :: "string option"
  cm_write_ok :: bool
  cm_poll :: "nat \<Rightarrow> poll"
  cm_lag :: "nat \<Rightarrow> nat"
  cm_output :: "string + string option \<times> string"
  cm_end_ms :: nat

datatype wait_end = ChildExited | ChildTimedOut nat | ChildLost string nat

function wait_loop :: "command_run \<Rightarrow> nat \<Rightarrow> nat \<Rightarrow> wait_end" where
  "wait_loop c timeout i =
     (let elapsed = 5 * i + cm_lag c i in
      case cm_poll c i of
        Exited \<Rightarrow> ChildExited
      | WaitError e \<Rightarrow> ChildLost e elapsed
      | Running \<Rightarrow> if elapsed \<ge> timeout then ChildTimedOut elapsed else wait_loop c timeout (Suc i))"
  by pat_completeness auto

termination
  by (relation "measure (\<lambda>(c, timeout, i). Suc timeout - 5 * i)") auto

declare wait_loop.simps [simp del]

definition execute_command ::
  "(handler_input \<Rightarrow> string + string) \<Rightarrow> (string \<Rightarrow> string + handler_output) \<Rightarrow> command_run \<Rightarrow> string list \<Rightarrow> handler_input \<Rightarrow> nat
     \<Rightarrow> exec_result" where
  "execute_command to_string parse c argv input timeout_ms =
     (case to_string input of
        Inl e \<Rightarrow> exec_failed (BadOutput (''serialize input: '' @ e)) 0 ''''
      | Inr body \<Rightarrow>
          (case cm_spawn c of
             Some e \<Rightarrow> exec_failed (BadOutput (''spawn '' @ hd argv @ '': '' @ e)) (cm_lag c 0) ''''
           | None \<Rightarrow>
               if \<not> cm_write_ok c then exec_failed (BadOutput ''write stdin'') (cm_lag c 0) ''''
               else (case wait_loop c (max timeout_ms 1) 0 of
                       ChildTimedOut t \<Rightarrow> exec_failed ExecTimeout t ''''
                     | ChildLost e t \<Rightarrow> exec_failed (BadOutput (''wait: '' @ e)) t ''''
                     | ChildExited \<Rightarrow>
                         (case cm_output c of
                            Inl e \<Rightarrow> exec_failed (BadOutput (''read output: '' @ e)) (cm_end_ms c) ''''
                          | Inr (None, stderr) \<Rightarrow> exec_failed (BadOutput ''non-UTF8 stdout'') (cm_end_ms c) stderr
                          | Inr (Some stdout, stderr) \<Rightarrow>
                              if trim stdout = [] then exec_failed (BadOutput ''empty stdout'') (cm_end_ms c) stderr
                              else (case parse (trim stdout) of
                                      Inr out \<Rightarrow> \<lparr>xr_output = Some out, xr_failure = None, xr_elapsed_ms = cm_end_ms c, xr_stderr = stderr\<rparr>
                                    | Inl e \<Rightarrow> exec_failed (BadOutput (''stdout is not the JSON contract: '' @ e)) (cm_end_ms c) stderr)))))"

text \<open>
  One webhook exchange. \<open>wr_reads i\<close> is the \<open>i\<close>-th read: some bytes, none at the end of the stream, or an error;
  \<open>wr_time i\<close> is the time after it.
\<close>

datatype read_error = ReadTimedOut | ReadError string

record webhook_run =
  wr_addr :: "string \<Rightarrow> string option"
  wr_connect :: "string option"
  wr_set_timeout_ok :: bool
  wr_write_ok :: bool
  wr_reads :: "nat \<Rightarrow> read_error + string"
  wr_time :: "nat \<Rightarrow> nat"

function read_loop :: "webhook_run \<Rightarrow> nat \<Rightarrow> nat \<Rightarrow> string \<Rightarrow> exec_failure + string" where
  "read_loop r timeout i resp =
     (case wr_reads r i of
        Inl ReadTimedOut \<Rightarrow> Inl ExecTimeout
      | Inl (ReadError e) \<Rightarrow> Inl (Transport (''read: '' @ e))
      | Inr chunk \<Rightarrow>
          if chunk = [] then Inr resp
          else if length (resp @ chunk) > 1048576 then Inl (BadOutput ''response too large'')
          else if wr_time r i \<ge> timeout then Inl ExecTimeout
          else read_loop r timeout (Suc i) (resp @ chunk))"
  by pat_completeness auto

termination
proof (relation "measure (\<lambda>(r, timeout, i, resp). 1048577 - length resp)")
  fix r :: webhook_run and timeout i :: nat and resp chunk :: string
  assume "chunk \<noteq> []" "\<not> length (resp @ chunk) > 1048576"
  then show "((r, timeout, Suc i, resp @ chunk), r, timeout, i, resp) \<in> measure (\<lambda>(r, timeout, i, resp). 1048577 - length resp)"
    by (cases chunk) auto
qed simp

declare read_loop.simps [simp del]

definition header_end :: string where
  "header_end = [CHR 0x0D, CHR 0x0A, CHR 0x0D, CHR 0x0A]"

text \<open>What follows the first blank line, or the whole text.\<close>

fun find_after :: "string \<Rightarrow> string \<Rightarrow> string option" where
  "find_after p [] = (if p = [] then Some [] else None)"
| "find_after p (x # xs) = (case strip_prefix p (x # xs) of Some r \<Rightarrow> Some r | None \<Rightarrow> find_after p xs)"

definition response_payload :: "string \<Rightarrow> string" where
  "response_payload t = trim (case find_after header_end t of None \<Rightarrow> t | Some r \<Rightarrow> r)"

definition execute_webhook ::
  "(handler_input \<Rightarrow> string + string) \<Rightarrow> (string \<Rightarrow> string + handler_output) \<Rightarrow> webhook_run \<Rightarrow> nat \<Rightarrow> string \<Rightarrow> handler_input \<Rightarrow> nat
     \<Rightarrow> exec_result" where
  "execute_webhook to_string parse r end_ms url input timeout_ms =
     (let fail = (\<lambda>f. exec_failed f end_ms '''') in
      case parse_local_url url of
        Inl e \<Rightarrow> fail (Transport e)
      | Inr (host, port, path) \<Rightarrow>
          (case to_string input of
             Inl e \<Rightarrow> fail (BadOutput (''serialize input: '' @ e))
           | Inr body \<Rightarrow>
               let dial_host = (if host = ''localhost'' then ''127.0.0.1'' else host);
                   addr = dial_host @ '':'' @ show_nat port in
               (case wr_addr r addr of
                  Some e \<Rightarrow> fail (Transport (''parse addr '' @ debug_str addr @ '': '' @ e))
                | None \<Rightarrow>
                    (case wr_connect r of
                       Some e \<Rightarrow> fail (Transport (''connect '' @ addr @ '': '' @ e))
                     | None \<Rightarrow>
                         if \<not> wr_set_timeout_ok r then fail (Transport ''set timeout'')
                         else if \<not> wr_write_ok r then fail (Transport ''write request'')
                         else (case read_loop r (max timeout_ms 1) 0 [] of
                                 Inl f \<Rightarrow> fail f
                               | Inr resp \<Rightarrow>
                                   let payload = response_payload resp in
                                   if payload = [] then fail (BadOutput ''empty response body'')
                                   else (case parse payload of
                                           Inr out \<Rightarrow> \<lparr>xr_output = Some out, xr_failure = None, xr_elapsed_ms = end_ms, xr_stderr = ''''\<rparr>
                                         | Inl e \<Rightarrow> fail (BadOutput (''response is not the JSON contract: '' @ e))))))))"

datatype hook_outcome = HookOk | HookTimeout | HookCrash | SkippedRecursionGuard

fun hook_outcome_str :: "hook_outcome \<Rightarrow> string" where
  "hook_outcome_str HookOk = ''ok''"
| "hook_outcome_str HookTimeout = ''timeout''"
| "hook_outcome_str HookCrash = ''crash''"
| "hook_outcome_str SkippedRecursionGuard = ''skipped_recursion_guard''"

text \<open>A result has an output or a failure; one with neither makes the source panic and is a crash here.\<close>

definition classify_exec :: "exec_result \<Rightarrow> hook_outcome \<times> hook_decision \<times> string option" where
  "classify_exec x =
     (case xr_failure x of
        Some ExecTimeout \<Rightarrow> (HookTimeout, Reject, Some ''hook_timeout'')
      | Some (BadOutput _) \<Rightarrow> (HookCrash, Reject, Some ''hook_bad_output'')
      | Some (Transport _) \<Rightarrow> (HookCrash, Reject, Some ''hook_crash'')
      | None \<Rightarrow>
          (case xr_output x of
             None \<Rightarrow> (HookCrash, Reject, Some ''hook_crash'')
           | Some out \<Rightarrow>
               (case decision_or_reject out of
                  (d, Some bad) \<Rightarrow> (HookCrash, Reject, Some bad)
                | (d, None) \<Rightarrow> (HookOk, d, None))))"

section \<open>The dispatcher\<close>

text \<open>
  The state behind a dispatcher: the review log of its audit directory and the trace. \<open>hw_tick\<close> counts the questions put to
  the environment.
\<close>

record trace_entry =
  tn_event_id :: string
  tn_entity :: string
  tn_event :: string
  tn_handler :: string
  tn_decision :: string
  tn_elapsed_ms :: nat
  tn_outcome :: string
  tn_message :: string
  tn_violation :: "string option"

record 'l hook_world =
  hw_reviews :: "'l review_world"
  hw_trace :: "trace_entry list"
  hw_tick :: nat

record 'l hook_env =
  he_codec :: "'l review_codec"
  he_uuid :: "nat \<Rightarrow> string"
  he_now :: "nat \<Rightarrow> nat"
  he_to_string :: "handler_input \<Rightarrow> string + string"
  he_parse :: "string \<Rightarrow> string + handler_output"
  he_command :: "nat \<Rightarrow> string list \<Rightarrow> string \<Rightarrow> command_run"
  he_webhook :: "nat \<Rightarrow> string \<Rightarrow> webhook_run"
  he_files :: "nat \<Rightarrow> (string \<times> hook_file) \<times> (string \<times> hook_file)"
  he_machine :: hook_machine

definition askH :: "(nat \<Rightarrow> 'a) \<Rightarrow> ('l hook_world, 'e, 'a) sm" where
  "askH f w = (Inr (f (hw_tick w)), w\<lparr>hw_tick := Suc (hw_tick w)\<rparr>)"

definition exec_answer :: "'l hook_env \<Rightarrow> handler_target \<Rightarrow> handler_input \<Rightarrow> nat \<Rightarrow> nat \<Rightarrow> exec_result" where
  "exec_answer H target input timeout_ms t =
     (case target of
        Command argv \<Rightarrow>
          execute_command (he_to_string H) (he_parse H) (he_command H t argv (hi_event_id input)) argv input timeout_ms
      | Webhook url \<Rightarrow> execute_webhook (he_to_string H) (he_parse H) (he_webhook H t url) (he_now H t) url input timeout_ms)"

definition execute :: "'l hook_env \<Rightarrow> handler_target \<Rightarrow> handler_input \<Rightarrow> nat \<Rightarrow> ('l hook_world, 'e, exec_result) sm" where
  "execute H target input timeout_ms = askH (exec_answer H target input timeout_ms)"

record handler_run =
  hn_name :: string
  hn_priority :: nat
  hn_decision :: hook_decision
  hn_outcome :: hook_outcome
  hn_elapsed_ms :: nat
  hn_message :: string
  hn_dropped_keys :: "string list"
  hn_observer_patch_ignored :: bool
  hn_patch :: "json option"

definition RESERVED_PATCH_KEYS :: "string list" where
  "RESERVED_PATCH_KEYS = [''id'', ''type'', ''entity'', ''event'', ''tool'']"

fun patch_fields :: "(string \<times> json) list \<Rightarrow> (string \<times> json) list \<times> string list \<Rightarrow> (string \<times> json) list \<times> string list" where
  "patch_fields [] s = s"
| "patch_fields ((k, v) # kvs) (doc, dropped) =
     patch_fields kvs (if k \<in> set RESERVED_PATCH_KEYS then (doc, dropped @ [k]) else (obj_insert k v doc, dropped))"

definition apply_patch :: "json \<Rightarrow> json \<Rightarrow> json \<times> string list" where
  "apply_patch doc patch =
     (case (as_object doc, as_object patch) of
        (Some doc_obj, Some patch_obj) \<Rightarrow> (let (d, dropped) = patch_fields patch_obj (doc_obj, []) in (JObj d, dropped))
      | _ \<Rightarrow> (doc, []))"

definition HOOK_CONNECTOR :: string where "HOOK_CONNECTOR = ''hook''"

definition hook_args_hash ::
  "'l hook_env \<Rightarrow> string \<Rightarrow> doc_type \<Rightarrow> doc_event \<Rightarrow> string \<Rightarrow> handler_run \<Rightarrow> json option \<Rightarrow> string" where
  "hook_args_hash H eid entity event doc_id run patch =
     sha256_hex (he_codec H) (to_text (he_codec H) (json_obj
       [(''event_id'', JStr eid), (''entity'', JStr (doc_type_str entity)), (''event'', JStr (doc_event_str event)),
        (''doc_id'', JStr doc_id), (''handler'', JStr (hn_name run)), (''decision'', JStr (hook_decision_str (hn_decision run))),
        (''patch'', case patch of None \<Rightarrow> JNull | Some p \<Rightarrow> p), (''priority'', JNum (int (hn_priority run))),
        (''elapsed_ms'', JNum (int (hn_elapsed_ms run))), (''outcome'', JStr (hook_outcome_str (hn_outcome run))),
        (''message'', JStr (hn_message run))]))"

definition hook_review_decision :: "hook_decision \<Rightarrow> review_decision" where
  "hook_review_decision d = (if d = Reject then Denied else Approved)"

definition inReviews :: "('l review_world, 'e, 'a) sm \<Rightarrow> ('l hook_world, 'e, 'a) sm" where
  "inReviews m w = (case m (hw_reviews w) of (r, v) \<Rightarrow> (r, w\<lparr>hw_reviews := v\<rparr>))"

definition audit_hook ::
  "'l hook_env \<Rightarrow> string \<Rightarrow> doc_type \<Rightarrow> doc_event \<Rightarrow> string \<Rightarrow> handler_run \<Rightarrow> json option \<Rightarrow> ('l hook_world, 'e, unit) sm" where
  "audit_hook H eid entity event doc_id run patch =
     bindS (askH (he_uuid H)) (\<lambda>uuid.
     bindS (askH (he_now H)) (\<lambda>now.
     bindS (okS (inReviews (record_review (he_codec H) uuid now (Hook (hn_name run)) HOOK_CONNECTOR
       (doc_type_str entity @ '':'' @ doc_event_str event @ '':'' @ hn_name run)
       (hook_args_hash H eid entity event doc_id run patch) (hook_review_decision (hn_decision run)) None))) (\<lambda>_.
     retS ())))"

definition TRACE_CAP :: nat where "TRACE_CAP = 500"

definition trace_push :: "trace_entry \<Rightarrow> ('l hook_world, 'e, unit) sm" where
  "trace_push e = modifyS (\<lambda>w. let tr = hw_trace w @ [e] in w\<lparr>hw_trace := drop (length tr - TRACE_CAP) tr\<rparr>)"

definition trace_of ::
  "string \<Rightarrow> doc_type \<Rightarrow> doc_event \<Rightarrow> handler_run \<Rightarrow> string option \<Rightarrow> trace_entry" where
  "trace_of eid entity event run violation =
     \<lparr>tn_event_id = eid, tn_entity = doc_type_str entity, tn_event = doc_event_str event, tn_handler = hn_name run,
      tn_decision = hook_decision_str (hn_decision run), tn_elapsed_ms = hn_elapsed_ms run,
      tn_outcome = hook_outcome_str (hn_outcome run), tn_message = hn_message run, tn_violation = violation\<rparr>"

definition run_message :: "exec_result \<Rightarrow> string option \<Rightarrow> string" where
  "run_message x fail_reason =
     (let message = (case fail_reason of None \<Rightarrow> '''' | Some m \<Rightarrow> m) in
      if message = [] then (case xr_output x of None \<Rightarrow> '''' | Some out \<Rightarrow> ho_message out) else message)"

text \<open>The run of a handler, from what it answered; a patch counts only when the handler ran well.\<close>

definition sync_run :: "hook_handler \<Rightarrow> exec_result \<Rightarrow> handler_run" where
  "sync_run handler x =
     (let (outcome, decision, fail_reason) = classify_exec x in
      \<lparr>hn_name = hh_name handler, hn_priority = hh_priority handler, hn_decision = decision, hn_outcome = outcome,
       hn_elapsed_ms = xr_elapsed_ms x, hn_message = run_message x fail_reason, hn_dropped_keys = [],
       hn_observer_patch_ignored = False,
       hn_patch = (if outcome = HookOk then
         Option.bind (xr_output x) (\<lambda>out. if is_patch_empty out then None else Some (ho_patch out)) else None)\<rparr>)"

definition stderr_note :: "exec_result \<Rightarrow> string option" where
  "stderr_note x = (if xr_stderr x = [] then None else Some (''stderr: '' @ trim (xr_stderr x)))"

definition run_one_sync ::
  "'l hook_env \<Rightarrow> hook_handler \<Rightarrow> string \<Rightarrow> doc_type \<Rightarrow> doc_event \<Rightarrow> string \<Rightarrow> json \<Rightarrow> handler_context \<Rightarrow> ('l hook_world, 'e, handler_run) sm" where
  "run_one_sync H handler eid entity event doc_id working_doc ctx =
     bindS (execute H (hh_target handler) \<lparr>hi_event_id = eid, hi_entity = doc_type_str entity, hi_event = doc_event_str event,
       hi_doc = working_doc, hi_context = ctx\<rparr> (hh_timeout_ms handler)) (\<lambda>x.
     let run = sync_run handler x in
     bindS (audit_hook H eid entity event doc_id run (hn_patch run)) (\<lambda>_.
     bindS (trace_push (trace_of eid entity event run (stderr_note x))) (\<lambda>_.
     retS run)))"

record sync_outcome =
  so_decision :: hook_decision
  so_patched_doc :: json
  so_runs :: "handler_run list"
  so_reject_reason :: "string option"

definition reject_text :: "handler_run \<Rightarrow> string" where
  "reject_text run = (if hn_message run = [] then ''hook '' @ debug_str (hn_name run) @ '' rejected'' else hn_message run)"

definition absorb_run :: "handler_run \<Rightarrow> sync_outcome \<Rightarrow> sync_outcome" where
  "absorb_run run s =
     (let (doc, dropped) = (case hn_patch run of None \<Rightarrow> (so_patched_doc s, hn_dropped_keys run)
                            | Some patch \<Rightarrow> apply_patch (so_patched_doc s) patch) in
      \<lparr>so_decision = combine (so_decision s) (hn_decision run), so_patched_doc = doc,
       so_runs = so_runs s @ [run\<lparr>hn_patch := None, hn_dropped_keys := dropped\<rparr>],
       so_reject_reason = (if hn_decision run = Reject \<and> so_reject_reason s = None then Some (reject_text run)
                           else so_reject_reason s)\<rparr>)"

fun sync_loop ::
  "'l hook_env \<Rightarrow> hook_handler list \<Rightarrow> string \<Rightarrow> doc_type \<Rightarrow> doc_event \<Rightarrow> string \<Rightarrow> handler_context \<Rightarrow> sync_outcome
     \<Rightarrow> ('l hook_world, 'e, sync_outcome) sm" where
  "sync_loop H [] eid entity event doc_id ctx s = retS s"
| "sync_loop H (h # hs) eid entity event doc_id ctx s =
     bindS (run_one_sync H h eid entity event doc_id (so_patched_doc s) ctx) (\<lambda>run.
     sync_loop H hs eid entity event doc_id ctx (absorb_run run s))"

record sync_params =
  sy_entity :: doc_type
  sy_event :: doc_event
  sy_doc_id :: string
  sy_doc :: json
  sy_proposed :: hook_decision
  sy_ctx :: handler_context
  sy_seq :: nat

definition guard_run :: "hook_decision \<Rightarrow> handler_run" where
  "guard_run proposed = \<lparr>hn_name = ''<dispatcher>'', hn_priority = 0, hn_decision = proposed, hn_outcome = SkippedRecursionGuard,
     hn_elapsed_ms = 0, hn_message = ''recursion_guard: depth >= 3, hooks skipped'', hn_dropped_keys = [],
     hn_observer_patch_ignored = False, hn_patch = None\<rparr>"

definition run_sync :: "'l hook_env \<Rightarrow> hook_registry \<Rightarrow> sync_params \<Rightarrow> ('l hook_world, 'e, sync_outcome) sm" where
  "run_sync H reg p =
     (let eid = event_id (sy_entity p) (sy_doc_id p) (sy_event p) (sy_seq p) in
      if hc_depth (sy_ctx p) \<ge> MAX_HOOK_DEPTH then
        let run = guard_run (sy_proposed p) in
        bindS (audit_hook H eid (sy_entity p) (sy_event p) (sy_doc_id p) run None) (\<lambda>_.
        bindS (trace_push (trace_of eid (sy_entity p) (sy_event p) run None)) (\<lambda>_.
        retS \<lparr>so_decision = sy_proposed p, so_patched_doc = sy_doc p, so_runs = [run], so_reject_reason = None\<rparr>))
      else
        sync_loop H (handlers_for reg (sy_entity p) (sy_event p)) eid (sy_entity p) (sy_event p) (sy_doc_id p) (sy_ctx p)
          \<lparr>so_decision = sy_proposed p, so_patched_doc = sy_doc p, so_runs = [], so_reject_reason = None\<rparr>)"

definition observer_run :: "hook_handler \<Rightarrow> exec_result \<Rightarrow> handler_run" where
  "observer_run h x =
     (let (outcome, decision, fail_reason) = classify_exec x in
      \<lparr>hn_name = hh_name h, hn_priority = hh_priority h, hn_decision = decision, hn_outcome = outcome,
       hn_elapsed_ms = xr_elapsed_ms x, hn_message = run_message x fail_reason, hn_dropped_keys = [],
       hn_observer_patch_ignored = (case xr_output x of None \<Rightarrow> False | Some out \<Rightarrow> \<not> is_patch_empty out), hn_patch = None\<rparr>)"

fun observer_loop ::
  "'l hook_env \<Rightarrow> hook_handler list \<Rightarrow> string \<Rightarrow> doc_type \<Rightarrow> doc_event \<Rightarrow> string \<Rightarrow> json \<Rightarrow> handler_context
     \<Rightarrow> ('l hook_world, 'e, handler_run list) sm" where
  "observer_loop H [] eid entity event doc_id frozen_doc ctx = retS []"
| "observer_loop H (h # hs) eid entity event doc_id frozen_doc ctx =
     bindS (execute H (hh_target h) \<lparr>hi_event_id = eid, hi_entity = doc_type_str entity, hi_event = doc_event_str event,
       hi_doc = frozen_doc, hi_context = ctx\<rparr> (hh_timeout_ms h)) (\<lambda>x.
     let run = observer_run h x in
     bindS (audit_hook H eid entity event doc_id run None) (\<lambda>_.
     bindS (trace_push (trace_of eid entity event run
       (if hn_observer_patch_ignored run then Some ''contract violation: observer returned a patch; ignored'' else None))) (\<lambda>_.
     bindS (observer_loop H hs eid entity event doc_id frozen_doc ctx) (\<lambda>runs.
     retS (run # runs)))))"

definition run_observers ::
  "'l hook_env \<Rightarrow> hook_registry \<Rightarrow> doc_type \<Rightarrow> doc_event \<Rightarrow> string \<Rightarrow> json \<Rightarrow> handler_context \<Rightarrow> nat
     \<Rightarrow> ('l hook_world, 'e, handler_run list) sm" where
  "run_observers H reg entity event doc_id frozen_doc ctx seq =
     observer_loop H (handlers_for reg entity event) (event_id entity doc_id event seq) entity event doc_id frozen_doc ctx"

section \<open>Emission\<close>

text \<open>
  The registry of one emission: both hook files are read again. \<open>None\<close> when neither file exists, when the load fails or when
  nothing is registered for the event.
\<close>

definition emit_registry :: "'l hook_env \<Rightarrow> doc_type \<Rightarrow> doc_event \<Rightarrow> ('l hook_world, 'e, hook_registry option) sm" where
  "emit_registry H entity event =
     bindS (askH (he_files H)) (\<lambda>(global, project).
     retS (if snd global = NoFile \<and> snd project = NoFile then None
           else (case load_hooks (he_machine H) global project of
                   Inl _ \<Rightarrow> None
                 | Inr reg \<Rightarrow> if has_handlers reg entity event then Some reg else None)))"

definition root_context :: "string \<Rightarrow> handler_context" where
  "root_context actor = \<lparr>hc_actor = actor, hc_depth = 0, hc_dry_run = False\<rparr>"

definition emit_sync ::
  "'l hook_env \<Rightarrow> doc_type \<Rightarrow> doc_event \<Rightarrow> string \<Rightarrow> json \<Rightarrow> string \<Rightarrow> ('l hook_world, 'e, sync_outcome option) sm" where
  "emit_sync H entity event doc_id doc actor =
     bindS (emit_registry H entity event) (\<lambda>found.
     case found of
       None \<Rightarrow> retS None
     | Some reg \<Rightarrow>
         bindS (run_sync H reg \<lparr>sy_entity = entity, sy_event = event, sy_doc_id = doc_id, sy_doc = doc, sy_proposed = AllowHook,
           sy_ctx = root_context actor, sy_seq = 0\<rparr>) (\<lambda>o'.
         retS (Some o')))"

definition emit_observer ::
  "'l hook_env \<Rightarrow> doc_type \<Rightarrow> doc_event \<Rightarrow> string \<Rightarrow> json \<Rightarrow> string \<Rightarrow> ('l hook_world, 'e, unit) sm" where
  "emit_observer H entity event doc_id doc actor =
     bindS (emit_registry H entity event) (\<lambda>found.
     case found of
       None \<Rightarrow> retS ()
     | Some reg \<Rightarrow> bindS (run_observers H reg entity event doc_id doc (root_context actor) 0) (\<lambda>_. retS ()))"

definition before_execute_hook ::
  "'l hook_env \<Rightarrow> before_execute_context \<Rightarrow> ('l hook_world, 'e, before_execute_decision) sm" where
  "before_execute_hook H ctx =
     bindS (emit_sync H ToolCall BeforeExecute (bc_attempt_id ctx)
       (json_obj [(''tool'', JStr (bc_tool ctx)), (''arguments'', bc_arguments ctx), (''attempt_id'', JStr (bc_attempt_id ctx))])
       (bc_actor ctx)) (\<lambda>outcome.
     retS (case outcome of
             None \<Rightarrow> HAllow
           | Some o' \<Rightarrow>
               (case so_decision o' of
                  AllowHook \<Rightarrow> HAllow
                | Escalate \<Rightarrow> HEscalate
                    (case List.find (\<lambda>r. hn_decision r = Escalate) (so_runs o') of
                       None \<Rightarrow> ''hook escalated''
                     | Some r \<Rightarrow> if hn_message r = [] then ''hook '' @ hn_name r @ '' escalated'' else hn_message r)
                | Reject \<Rightarrow> HReject (case so_reject_reason o' of None \<Rightarrow> ''hook rejected'' | Some t \<Rightarrow> t))))"

definition doc_diff :: "json \<Rightarrow> json \<Rightarrow> string list" where
  "doc_diff old cur =
     remdups_adj (sort (case (as_object old, as_object cur) of
         (Some b, Some a) \<Rightarrow>
           map fst (filter (\<lambda>(k, v). map_of a k \<noteq> Some v) b) @ filter (\<lambda>k. k \<notin> fst ` set b) (map fst a)
       | _ \<Rightarrow> if old \<noteq> cur then [''<doc>''] else []))"

definition with_field :: "string \<Rightarrow> json \<Rightarrow> json \<Rightarrow> json" where
  "with_field k v doc = (case as_object doc of None \<Rightarrow> doc | Some m \<Rightarrow> JObj (obj_insert k v m))"

definition emit_update ::
  "'l hook_env \<Rightarrow> doc_type \<Rightarrow> string \<Rightarrow> json \<Rightarrow> json \<Rightarrow> string \<Rightarrow> ('l hook_world, 'e, unit) sm" where
  "emit_update H entity doc_id old cur actor =
     bindS (emit_observer H entity OnUpdate doc_id cur actor) (\<lambda>_.
     let changed = doc_diff old cur in
     if changed = [] then retS ()
     else emit_observer H entity OnChange doc_id (with_field ''_changed_fields'' (JArr (map JStr changed)) cur) actor)"

definition emit_device_update ::
  "'l hook_env \<Rightarrow> string \<Rightarrow> string \<Rightarrow> string \<Rightarrow> json \<Rightarrow> string \<Rightarrow> ('l hook_world, 'e, unit) sm" where
  "emit_device_update H device_id before_state after_state device_doc actor =
     emit_update H Device device_id (json_obj [(''id'', JStr device_id), (''state'', JStr before_state)])
       (with_field ''state'' (JStr after_state) (with_field ''id'' (JStr device_id) device_doc)) actor"

section \<open>What a dispatch decides\<close>

text \<open>A run of the handler \<open>h\<close> on some input, at some moment.\<close>

definition run_of :: "'l hook_env \<Rightarrow> hook_handler \<Rightarrow> handler_run \<Rightarrow> bool" where
  "run_of H h run = (\<exists>input t. run = sync_run h (exec_answer H (hh_target h) input (hh_timeout_ms h) t))"

text \<open>\<open>logs_runs H w runs w'\<close>: on a healthy log each run left one verified entry of its own, in order.\<close>

definition hook_entry :: "handler_run \<Rightarrow> review_entry \<Rightarrow> bool" where
  "hook_entry run e = (re_actor e = Hook (hn_name run) \<and> re_decision e = hook_review_decision (hn_decision run))"

definition healthy_log :: "'l hook_env \<Rightarrow> nat \<Rightarrow> 'l hook_world \<Rightarrow> bool" where
  "healthy_log H n w =
     (codec_ok (he_codec H) \<and> (\<forall>t. he_now H t \<le> u64_max) \<and> rw_io (hw_reviews w) = [] \<and>
      verify_review_reader (he_codec H) (log_lines (hw_reviews w)) = Inr n)"

definition logs_runs :: "'l hook_env \<Rightarrow> 'l hook_world \<Rightarrow> handler_run list \<Rightarrow> 'l hook_world \<Rightarrow> bool" where
  "logs_runs H w runs w' =
     (\<forall>n. healthy_log H n w \<longrightarrow> healthy_log H (n + length runs) w' \<and>
        (\<exists>es. list_all2 hook_entry runs es \<and>
           log_lines (hw_reviews w') = log_lines (hw_reviews w) @ map (entry_line (he_codec H)) es))"

lemma logs_runs_Nil: "hw_reviews w' = hw_reviews w \<Longrightarrow> logs_runs H w [] w'"
  by (simp add: logs_runs_def healthy_log_def)

lemma logs_runs_append:
  assumes "logs_runs H w as w1" and "logs_runs H w1 bs w2"
  shows "logs_runs H w (as @ bs) w2"
  unfolding logs_runs_def
proof (intro allI impI)
  fix n assume "healthy_log H n w"
  then obtain es fs where "healthy_log H (n + length as + length bs) w2" "list_all2 hook_entry as es" "list_all2 hook_entry bs fs"
      "log_lines (hw_reviews w2) = log_lines (hw_reviews w) @ map (entry_line (he_codec H)) (es @ fs)"
    using assms unfolding logs_runs_def by fastforce
  then show "healthy_log H (n + length (as @ bs)) w2 \<and> (\<exists>es. list_all2 hook_entry (as @ bs) es \<and>
      log_lines (hw_reviews w2) = log_lines (hw_reviews w) @ map (entry_line (he_codec H)) es)"
    by (intro conjI exI [of _ "es @ fs"]) (simp_all add: add.assoc list_all2_appendI)
qed

lemma classify_exec_cases:
  "classify_exec x = (oc, d, m) \<Longrightarrow> oc \<noteq> SkippedRecursionGuard \<and> (oc = HookOk \<or> d = Reject)"
  by (auto simp: classify_exec_def split: option.splits exec_failure.splits prod.splits)

lemma audit_hook_effect:
  fixes H :: "'l hook_env"
  shows "\<exists>w'. audit_hook H eid entity event doc_id run p w = (Inr () :: 'e + unit, w') \<and> logs_runs H w [run] w'"
proof -
  let ?C = "he_codec H" and ?t = "hw_tick w"
  let ?rec = "record_review ?C (he_uuid H ?t) (he_now H (Suc ?t)) (Hook (hn_name run)) HOOK_CONNECTOR
    (doc_type_str entity @ '':'' @ doc_event_str event @ '':'' @ hn_name run)
    (hook_args_hash H eid entity event doc_id run p) (hook_review_decision (hn_decision run)) None"
  obtain r v where v: "?rec (hw_reviews w) = (r, v)" by fastforce
  let ?w' = "w\<lparr>hw_tick := Suc (Suc ?t), hw_reviews := v\<rparr>"
  have "audit_hook H eid entity event doc_id run p w = (Inr () :: 'e + unit, ?w')"
    using v by (cases r) (simp_all add: audit_hook_def sm_simps askH_def inReviews_def)
  moreover have "logs_runs H w [run] ?w'"
    unfolding logs_runs_def
  proof (intro allI impI)
    fix n assume h: "healthy_log H n w"
    then obtain k where "chain_hash ?C (log_lines (hw_reviews w)) = Some k"
      by (auto simp: healthy_log_def verify_review_reader_iff)
    moreover have "rw_io (hw_reviews w) = []" using h by (simp add: healthy_log_def)
    ultimately have "\<exists>e v'. ?rec (hw_reviews w) = (Inr e, v') \<and> rw_io v' = []"
      using record_review_healthy by meson
    with v obtain e where e: "r = Inr e" "rw_io v = []" by auto
    from h have "codec_ok ?C" "he_now H (Suc ?t) \<le> u64_max" "verify_review_reader ?C (log_lines (hw_reviews w)) = Inr n"
      by (simp_all add: healthy_log_def)
    from record_review_appends_verified_entry [OF this v [unfolded e(1)]] h e(2)
    show "healthy_log H (n + length [run]) ?w' \<and> (\<exists>es. list_all2 hook_entry [run] es \<and>
        log_lines (hw_reviews ?w') = log_lines (hw_reviews w) @ map (entry_line ?C) es)"
      by (auto simp: healthy_log_def hook_entry_def intro!: exI [of _ "[e]"])
  qed
  ultimately show ?thesis by blast
qed

lemma trace_push_reviews: "\<exists>w'. trace_push e w = (Inr () :: 'e + unit, w') \<and> hw_reviews w' = hw_reviews w"
  by (simp add: trace_push_def modifyS_def Let_def)

lemma logs_runs_cong: "hw_reviews w1 = hw_reviews w \<Longrightarrow> hw_reviews w3 = hw_reviews w2 \<Longrightarrow> logs_runs H w1 runs w2 = logs_runs H w runs w3"
  by (simp add: logs_runs_def healthy_log_def)

text \<open>Whatever did not end well counts as a rejection without a patch.\<close>

lemma sync_run_simps [simp]:
  "hn_name (sync_run h x) = hh_name h" "hn_outcome (sync_run h x) = fst (classify_exec x)"
  "hn_decision (sync_run h x) = fst (snd (classify_exec x))"
  by (simp_all add: sync_run_def split: prod.splits)

lemma run_of_verdict:
  assumes "run_of H h run"
  shows "hn_name run = hh_name h" "hn_outcome run \<noteq> SkippedRecursionGuard" "hn_outcome run \<noteq> HookOk \<Longrightarrow> hn_decision run = Reject"
  using assms classify_exec_cases by (auto simp: run_of_def) (metis prod.collapse)+

lemma run_one_sync_effect:
  "\<exists>run w'. run_one_sync H h eid entity event doc_id doc ctx w = (Inr run :: 'e + handler_run, w') \<and> run_of H h run \<and>
     logs_runs H w [run] w'"
proof -
  let ?i = "\<lparr>hi_event_id = eid, hi_entity = doc_type_str entity, hi_event = doc_event_str event, hi_doc = doc, hi_context = ctx\<rparr>"
  let ?x = "exec_answer H (hh_target h) ?i (hh_timeout_ms h) (hw_tick w)" and ?w1 = "w\<lparr>hw_tick := Suc (hw_tick w)\<rparr>"
  obtain w2 where a: "audit_hook H eid entity event doc_id (sync_run h ?x) (hn_patch (sync_run h ?x)) ?w1 = (Inr () :: 'e + unit, w2)"
      "logs_runs H ?w1 [sync_run h ?x] w2"
    using audit_hook_effect by blast
  obtain w3 where t: "trace_push (trace_of eid entity event (sync_run h ?x) (stderr_note ?x)) w2 = (Inr () :: 'e + unit, w3)"
      "hw_reviews w3 = hw_reviews w2"
    using trace_push_reviews by blast
  have "run_one_sync H h eid entity event doc_id doc ctx w = (Inr (sync_run h ?x) :: 'e + handler_run, w3)"
    by (simp add: run_one_sync_def bindS_def execute_def askH_def a(1) t(1) Let_def retS_def)
  moreover have "logs_runs H w [sync_run h ?x] w3" using a(2) logs_runs_cong [of ?w1 w w3 w2] t(2) by simp
  moreover have "run_of H h (sync_run h ?x)" by (auto simp: run_of_def)
  ultimately show ?thesis by (intro exI conjI)
qed

lemma sync_loop_effect:
  "\<exists>runs w'. sync_loop H hs eid entity event doc_id ctx s w = (Inr (fold absorb_run runs s) :: 'e + sync_outcome, w') \<and>
     list_all2 (run_of H) hs runs \<and> logs_runs H w runs w'"
proof (induction hs arbitrary: s w)
  case Nil
  show ?case by (simp add: retS_def logs_runs_Nil)
next
  case (Cons h hs)
  obtain run w1 where 1: "run_one_sync H h eid entity event doc_id (so_patched_doc s) ctx w = (Inr run :: 'e + handler_run, w1)"
      "run_of H h run" "logs_runs H w [run] w1"
    using run_one_sync_effect by blast
  obtain runs w2 where 2: "sync_loop H hs eid entity event doc_id ctx (absorb_run run s) w1 =
      (Inr (fold absorb_run runs (absorb_run run s)) :: 'e + sync_outcome, w2)" "list_all2 (run_of H) hs runs" "logs_runs H w1 runs w2"
    using Cons.IH by blast
  have "sync_loop H (h # hs) eid entity event doc_id ctx s w = (Inr (fold absorb_run (run # runs) s) :: 'e + sync_outcome, w2)"
    by (simp add: bindS_def 1(1) 2(1))
  moreover have "logs_runs H w (run # runs) w2" using logs_runs_append [OF 1(3) 2(3)] by simp
  moreover have "list_all2 (run_of H) (h # hs) (run # runs)" using 1(2) 2(2) by simp
  ultimately show ?case by (intro exI conjI)
qed

lemma patch_fields_reserved:
  "k \<in> set RESERVED_PATCH_KEYS \<Longrightarrow> map_of (fst (patch_fields kvs (doc, dropped))) k = map_of doc k"
  by (induction kvs "(doc, dropped)" arbitrary: doc dropped rule: patch_fields.induct) auto

lemma apply_patch_reserved: "k \<in> set RESERVED_PATCH_KEYS \<Longrightarrow> json_get k (fst (apply_patch doc patch)) = json_get k doc"
  using patch_fields_reserved [of k "the (as_object patch)" "the (as_object doc)" "[]"]
  by (cases doc; cases patch) (auto simp: apply_patch_def split: prod.splits)

text \<open>What the combination keeps of a run.\<close>

definition verdict :: "handler_run \<Rightarrow> string \<times> hook_outcome \<times> hook_decision" where
  "verdict run = (hn_name run, hn_outcome run, hn_decision run)"

lemma verdict_parts: "hn_name = fst \<circ> verdict" "hn_outcome = fst \<circ> snd \<circ> verdict" "hn_decision = snd \<circ> snd \<circ> verdict"
  by (simp_all add: fun_eq_iff verdict_def)

lemma absorb_run_simps [simp]:
  "so_decision (absorb_run run s) = max (so_decision s) (hn_decision run)"
  "map verdict (so_runs (absorb_run run s)) = map verdict (so_runs s) @ [verdict run]"
  "so_reject_reason (absorb_run run s) = None \<longleftrightarrow> hn_decision run \<noteq> Reject \<and> so_reject_reason s = None"
  "k \<in> set RESERVED_PATCH_KEYS \<Longrightarrow> json_get k (so_patched_doc (absorb_run run s)) = json_get k (so_patched_doc s)"
  by (auto simp: absorb_run_def verdict_def Let_def combine_max split: option.splits prod.splits)
    (metis apply_patch_reserved fst_conv)+

lemma absorb_runs:
  "map verdict (so_runs (fold absorb_run runs s)) = map verdict (so_runs s) @ map verdict runs"
  "k \<in> set RESERVED_PATCH_KEYS \<Longrightarrow> json_get k (so_patched_doc (fold absorb_run runs s)) = json_get k (so_patched_doc s)"
  by (induction runs arbitrary: s) simp_all

lemma Max_insert_max: "finite D \<Longrightarrow> Max (insert (max a b) D) = Max (insert a (insert (b :: 'a :: linorder) D))"
  by (cases "D = {}") (simp_all add: max.assoc)

lemma absorb_decision: "so_decision (fold absorb_run runs s) = Max (insert (so_decision s) (hn_decision ` set runs))"
  by (induction runs arbitrary: s) (simp_all add: Max_insert_max)

lemma absorb_reason:
  "so_reject_reason (fold absorb_run runs s) = None \<longleftrightarrow> (\<forall>run\<in>set runs. hn_decision run \<noteq> Reject) \<and> so_reject_reason s = None"
  by (induction runs arbitrary: s) auto

lemma Max_Reject: "finite D \<Longrightarrow> Max (insert p D) = Reject \<longleftrightarrow> p = Reject \<or> Reject \<in> D"
proof
  assume "finite D" "Max (insert p D) = Reject"
  then have "Reject \<in> insert p D" by (metis Max_in finite_insert insert_not_empty)
  then show "p = Reject \<or> Reject \<in> D" by auto
next
  assume "finite D" "p = Reject \<or> Reject \<in> D"
  then show "Max (insert p D) = Reject" by (intro Max_eqI) auto
qed

definition sync_start :: "sync_params \<Rightarrow> sync_outcome" where
  "sync_start p = \<lparr>so_decision = sy_proposed p, so_patched_doc = sy_doc p, so_runs = [], so_reject_reason = None\<rparr>"

lemma sync_start_simps [simp]:
  "so_decision (sync_start p) = sy_proposed p" "so_patched_doc (sync_start p) = sy_doc p" "so_runs (sync_start p) = []"
  "so_reject_reason (sync_start p) = None"
  by (simp_all add: sync_start_def)

lemma run_sync_effect:
  assumes "hc_depth (sy_ctx p) < MAX_HOOK_DEPTH"
  shows "\<exists>runs w'. run_sync H reg p w = (Inr (fold absorb_run runs (sync_start p)) :: 'e + sync_outcome, w') \<and>
    list_all2 (run_of H) (handlers_for reg (sy_entity p) (sy_event p)) runs \<and> logs_runs H w runs w'"
proof -
  obtain runs w' where "sync_loop H (handlers_for reg (sy_entity p) (sy_event p))
        (event_id (sy_entity p) (sy_doc_id p) (sy_event p) (sy_seq p)) (sy_entity p) (sy_event p) (sy_doc_id p) (sy_ctx p)
        (sync_start p) w = (Inr (fold absorb_run runs (sync_start p)) :: 'e + sync_outcome, w')"
      "list_all2 (run_of H) (handlers_for reg (sy_entity p) (sy_event p)) runs" "logs_runs H w runs w'"
    using sync_loop_effect by blast
  then show ?thesis using assms by (intro exI [of _ runs] exI [of _ w']) (simp add: run_sync_def sync_start_def)
qed

lemma absorbed_names:
  "list_all2 (run_of H) hs runs \<Longrightarrow> map hn_name (so_runs (fold absorb_run runs (sync_start p))) = map hh_name hs"
proof -
  assume r: "list_all2 (run_of H) hs runs"
  have "map hn_name (so_runs (fold absorb_run runs (sync_start p))) = map hn_name runs"
    unfolding verdict_parts(1) map_map [symmetric] absorb_runs(1) by simp
  also have "\<dots> = map hh_name hs" using r by (induction rule: list_all2_induct) (simp_all add: run_of_verdict)
  finally show ?thesis .
qed

section \<open>Properties\<close>

text \<open>
  C11. Hooks only tighten. A synchronous dispatch always returns. Its decision is the strictest of the proposed one and those of
  the handlers that ran: a handler that timed out, crashed or answered outside the contract counts as a rejection, and a
  rejection carries a reason. Below the recursion limit every registered handler runs, in registry order. No patch changes
  the fields that identify the document.
\<close>

theorem hooks_only_tighten:
  fixes H :: "'l hook_env"
  shows "\<exists>o' w'. run_sync H reg p w = (Inr o' :: 'e + sync_outcome, w') \<and>
    so_decision o' = Max (insert (sy_proposed p) (hn_decision ` set (so_runs o'))) \<and>
    (\<forall>run\<in>set (so_runs o'). hn_outcome run \<in> {HookTimeout, HookCrash} \<longrightarrow> hn_decision run = Reject) \<and>
    (so_decision o' = Reject \<longrightarrow> sy_proposed p = Reject \<or> so_reject_reason o' \<noteq> None) \<and>
    (hc_depth (sy_ctx p) < MAX_HOOK_DEPTH \<longrightarrow>
       map hn_name (so_runs o') = map hh_name (handlers_for reg (sy_entity p) (sy_event p))) \<and>
    (\<forall>k\<in>set RESERVED_PATCH_KEYS. json_get k (so_patched_doc o') = json_get k (sy_doc p))"
proof (cases "hc_depth (sy_ctx p) < MAX_HOOK_DEPTH")
  case True
  obtain runs w' where r: "run_sync H reg p w = (Inr (fold absorb_run runs (sync_start p)) :: 'e + sync_outcome, w')"
      "list_all2 (run_of H) (handlers_for reg (sy_entity p) (sy_event p)) runs"
    using run_sync_effect [OF True] by blast
  let ?o = "fold absorb_run runs (sync_start p)"
  have vs: "verdict ` set (so_runs ?o) = verdict ` set runs"
    using arg_cong [OF absorb_runs(1) [of runs "sync_start p"], of set] by simp
  have "hn_decision ` set (so_runs ?o) = hn_decision ` set runs"
    unfolding verdict_parts(3) image_comp [symmetric] vs ..
  moreover have "\<forall>run\<in>set (so_runs ?o). hn_outcome run \<noteq> HookOk \<longrightarrow> hn_decision run = Reject"
  proof -
    have "\<forall>x\<in>verdict ` set runs. fst (snd x) \<noteq> HookOk \<longrightarrow> snd (snd x) = Reject"
      using r(2) by (induction rule: list_all2_induct) (simp_all add: run_of_verdict verdict_def)
    then show ?thesis unfolding vs [symmetric] by (simp add: verdict_def)
  qed
  moreover have "so_decision ?o = Reject \<longrightarrow> sy_proposed p = Reject \<or> so_reject_reason ?o \<noteq> None"
    by (auto simp: absorb_decision absorb_reason Max_Reject) (metis (full_types))
  ultimately show ?thesis using absorbed_names [OF r(2)]
    by (intro exI [of _ ?o] exI [of _ w']) (simp add: r(1) absorb_decision absorb_runs(2))
next
  case False
  obtain w1 where a: "audit_hook H (event_id (sy_entity p) (sy_doc_id p) (sy_event p) (sy_seq p)) (sy_entity p) (sy_event p) (sy_doc_id p)
      (guard_run (sy_proposed p)) None w = (Inr () :: 'e + unit, w1)"
    using audit_hook_effect by blast
  then show ?thesis using False
    by (auto simp: run_sync_def Let_def bindS_def trace_push_def modifyS_def retS_def guard_run_def)
qed

definition ex_child :: command_run where
  "ex_child = \<lparr>cm_spawn = None, cm_write_ok = True, cm_poll = (\<lambda>_. Exited), cm_lag = (\<lambda>_. 0), cm_output = Inr (Some ''x'', ''''),
     cm_end_ms = 1\<rparr>"

definition ex_hook_env :: "string \<Rightarrow> hook_file \<Rightarrow> json hook_env" where
  "ex_hook_env decision file = \<lparr>he_codec = ex_codec, he_uuid = (\<lambda>t. show_nat t), he_now = (\<lambda>_. 7), he_to_string = (\<lambda>_. Inr ''{}''),
     he_parse = (\<lambda>_. Inr \<lparr>ho_decision = decision, ho_patch = JNull, ho_message = ''m''\<rparr>), he_command = (\<lambda>_ _ _. ex_child),
     he_webhook = (\<lambda>_ _. \<lparr>wr_addr = (\<lambda>_. None), wr_connect = None, wr_set_timeout_ok = True, wr_write_ok = True,
       wr_reads = (\<lambda>_. Inr []), wr_time = (\<lambda>_. 0)\<rparr>),
     he_files = (\<lambda>_. ((''g'', file), (''p'', NoFile))), he_machine = ex_machine\<rparr>"

definition ex_hook_world :: "json hook_world" where
  "ex_hook_world = \<lparr>hw_reviews = ex_world, hw_trace = [], hw_tick = 0\<rparr>"

definition ex_hook_reg :: hook_registry where
  "ex_hook_reg = \<lparr>hr_handlers = [((ToolCall, BeforeExecute), [ex_handler ''a'' 10 2, ex_handler ''b'' 100 1])], hr_disabled = []\<rparr>"

definition ex_sync :: sync_params where
  "ex_sync = \<lparr>sy_entity = ToolCall, sy_event = BeforeExecute, sy_doc_id = ''d'', sy_doc = JObj [], sy_proposed = AllowHook,
     sy_ctx = root_context ''human:x'', sy_seq = 0\<rparr>"

theorem hooks_only_tighten_witness:
  "\<exists>o' w'. run_sync (ex_hook_env ''maybe'' NoFile) ex_hook_reg ex_sync ex_hook_world = (Inr o' :: unit + sync_outcome, w') \<and>
     map hn_name (so_runs o') = [''a'', ''b''] \<and> json_get ''id'' (so_patched_doc o') = None"
  using hooks_only_tighten [of "ex_hook_env ''maybe'' NoFile" ex_hook_reg ex_sync ex_hook_world, where ?'e = unit]
  by (fastforce simp: ex_sync_def ex_hook_reg_def handlers_for_def ex_handler_def root_context_def MAX_HOOK_DEPTH_def
      RESERVED_PATCH_KEYS_def)

text \<open>
  C26. Every hook run is on record. On a healthy review log a dispatch below the recursion limit leaves one verified entry per
  registered handler, in execution order, each under the actor \<^verbatim>\<open>hook:<name>\<close>; an entry is \<open>Denied\<close> exactly for a rejection.
\<close>

theorem hook_runs_are_audited:
  fixes H :: "'l hook_env"
  assumes "healthy_log H n w" and "hc_depth (sy_ctx p) < MAX_HOOK_DEPTH"
  shows "\<exists>o' w' es. run_sync H reg p w = (Inr o' :: 'e + sync_outcome, w') \<and>
    log_lines (hw_reviews w') = log_lines (hw_reviews w) @ map (entry_line (he_codec H)) es \<and>
    map re_actor es = map (\<lambda>h. Hook (hh_name h)) (handlers_for reg (sy_entity p) (sy_event p)) \<and>
    map (\<lambda>e. re_decision e = Denied) es = map (\<lambda>run. hn_decision run = Reject) (so_runs o') \<and>
    verify_review_reader (he_codec H) (log_lines (hw_reviews w')) =
      Inr (n + length (handlers_for reg (sy_entity p) (sy_event p)))"
proof -
  let ?hs = "handlers_for reg (sy_entity p) (sy_event p)"
  obtain runs w' where r: "run_sync H reg p w = (Inr (fold absorb_run runs (sync_start p)) :: 'e + sync_outcome, w')"
      "list_all2 (run_of H) ?hs runs" "logs_runs H w runs w'"
    using run_sync_effect [OF assms(2)] by blast
  let ?o = "fold absorb_run runs (sync_start p)"
  obtain es where es: "list_all2 hook_entry runs es"
      "log_lines (hw_reviews w') = log_lines (hw_reviews w) @ map (entry_line (he_codec H)) es"
      "healthy_log H (n + length runs) w'"
    using r(3) assms(1) unfolding logs_runs_def by blast
  have "map re_actor es = map (\<lambda>h. Hook (hh_name h)) ?hs"
  proof -
    have "map re_actor es = map (\<lambda>run. Hook (hn_name run)) runs"
      using es(1) by (induction rule: list_all2_induct) (simp_all add: hook_entry_def)
    also have "\<dots> = map (\<lambda>h. Hook (hh_name h)) ?hs"
      using r(2) by (induction rule: list_all2_induct) (simp_all add: run_of_verdict)
    finally show ?thesis .
  qed
  moreover have "map (\<lambda>e. re_decision e = Denied) es = map (\<lambda>run. hn_decision run = Reject) (so_runs ?o)"
  proof -
    have "map (\<lambda>e. re_decision e = Denied) es = map (\<lambda>run. hn_decision run = Reject) runs"
      using es(1) by (induction rule: list_all2_induct) (simp_all add: hook_entry_def hook_review_decision_def)
    also have "\<dots> = map (\<lambda>v. snd (snd v) = Reject) (map verdict (so_runs ?o))"
      by (simp add: absorb_runs(1) verdict_def)
    finally show ?thesis by (simp add: verdict_def)
  qed
  moreover have "length runs = length ?hs" using r(2) by (simp add: list_all2_lengthD)
  ultimately show ?thesis using r(1) es(2,3) by (intro exI [of _ ?o] exI [of _ w'] exI [of _ es]) (simp add: healthy_log_def)
qed

theorem hook_runs_are_audited_witness:
  "\<exists>o' w'. run_sync (ex_hook_env ''allow'' NoFile) ex_hook_reg ex_sync ex_hook_world = (Inr o' :: unit + sync_outcome, w') \<and>
     verify_review_reader ex_codec (log_lines (hw_reviews w')) = Inr 2"
proof -
  have "healthy_log (ex_hook_env ''allow'' NoFile) 0 ex_hook_world"
    using ex_codec_ok
    by (simp add: healthy_log_def ex_hook_env_def ex_hook_world_def ex_world_def log_lines_def verify_review_reader_def u64_max_def)
  moreover have "hc_depth (sy_ctx ex_sync) < MAX_HOOK_DEPTH" by (simp add: ex_sync_def root_context_def MAX_HOOK_DEPTH_def)
  moreover have "length (handlers_for ex_hook_reg (sy_entity ex_sync) (sy_event ex_sync)) = 2" "he_codec (ex_hook_env ''allow'' NoFile) = ex_codec"
    by (simp_all add: ex_sync_def ex_hook_reg_def handlers_for_def ex_hook_env_def)
  ultimately show ?thesis
    using hook_runs_are_audited [of "ex_hook_env ''allow'' NoFile" 0 ex_hook_world ex_sync ex_hook_reg, where ?'e = unit] by fastforce
qed

section \<open>Hooks at the gate\<close>

lemma before_execute_rejected:
  assumes "\<forall>t c. \<exists>m. ce_hook E t c = HReject m" and "ss_before_execute_hook (cw_set w)"
  shows "triple (frame w) (before_execute E a rid ac) (\<lambda>_ _. False) (frame w)"
proof -
  have "\<exists>f. fst (before_execute E a rid ac v) = Inl f" if "cw_set v = cw_set w" for v
  proof -
    obtain m where "ce_hook E (cw_tick v) \<lparr>bc_tool = at_name a, bc_arguments = at_arguments a, bc_attempt_id = at_attempt_id a,
        bc_actor = ac\<rparr> = HReject m" using assms(1) by blast
    then show ?thesis using assms(2) that
      by (auto simp: before_execute_def bindS_def getS_def askS_def throwS_def split: prod.splits sum.splits)
  qed
  moreover have "preserves (frame w) (before_execute E a rid ac)"
    by (rule quiet_before_execute [OF quiet_frame])
  ultimately show ?thesis
    unfolding triple_def preserves_def frame_def by (auto split: sum.splits) (metis fst_conv snd_conv sum.distinct(1))+
qed

lemma execute_rejected:
  assumes "\<forall>t c. \<exists>m. ce_hook E t c = HReject m" and "ss_before_execute_hook (cw_set w)"
  shows "triple (frame w) (execute_call E a ac) (\<lambda>_ _. False) (frame w)"
proof -
  note pre = triple_bind [where Q = "\<lambda>_. frame w"] triple_preserves calm_ask [OF calm_frame] preserves_get
  have rate: "preserves (frame w) (modifyS (\<lambda>w. w\<lparr>cw_rate := rl\<rparr>))" for rl
    using calm_frame by (auto simp: preserves_def modifyS_def frame_def)
  have call: "triple (frame w) (reviewed_call E a s b rid) (\<lambda>_ _. False) (frame w)" for s b rid
    unfolding reviewed_call_def by (rule triple_bind [OF before_execute_rejected [OF assms] triple_unreachable])
  show ?thesis
    unfolding execute_call_def
    by (intro pre triple_prod rate triple_if triple_throw calm_fence [OF calm_frame] quiet_gate_review [OF quiet_frame] call)
qed

lemma rejecting_hook_blocks:
  assumes "call_tool_detailed E n args w = (r, w') \<or> call_tool_replacement E n args rp w = (r, w')"
    and "\<forall>t c. \<exists>m. ce_hook E t c = HReject m" and "ss_before_execute_hook (cw_set w)"
  shows "(\<exists>f. r = Inl f) \<and> cw_calls w' = cw_calls w"
proof -
  consider f where "r = Inl f" "same_but_live w w'"
    | f w1 ac a d m x where "r = Inl f" "same_but_live w w1" "record_denied E ac a d m w1 = (x, w')"
    | w1 ac a where "same_but_live w w1" "execute_call E a ac w1 = (r, w')"
    using gate_paths [OF assms(1)] unfolding gate_path_def by blast
  then show ?thesis
  proof cases
    case 1
    then show ?thesis using same_but_liveD(1) [OF 1(2)] by auto
  next
    case 2
    then show ?thesis using denied_log [OF 2(3)] same_but_liveD(1) [OF 2(2)] by auto
  next
    case 3
    have "ss_before_execute_hook (cw_set w1)"
      using arg_cong [OF 3(1) [unfolded same_but_live_def], of "ss_before_execute_hook \<circ> cw_set"] assms(3)
      by (simp add: forget_live_def)
    from execute_rejected [OF assms(2) this, of a ac] 3(2) have "(\<exists>f. r = Inl f) \<and> frame w1 w'"
      by (cases r) (auto simp: triple_def dest: spec [of _ w1])
    then show ?thesis using same_but_liveD(1) [OF 3(1)] by (auto simp: frame_def)
  qed
qed
lemma no_files_no_handlers: "handlers_for reg entity event = []" if "load_hooks M (g, NoFile) (p, NoFile) = Inr reg"
  using that by (auto simp: load_hooks_def sort_all_def empty_registry_def handlers_for_def)

lemma emit_registry_found:
  assumes "\<forall>t. he_files H t = (g, p)" and "load_hooks (he_machine H) g p = Inr reg" and "h \<in> set (handlers_for reg entity event)"
  shows "emit_registry H entity event w = (Inr (Some reg), w\<lparr>hw_tick := Suc (hw_tick w)\<rparr>)"
proof -
  have "\<not> (snd g = NoFile \<and> snd p = NoFile)"
    using no_files_no_handlers [of "he_machine H" "fst g" "fst p"] assms(2,3) by (metis empty_iff list.set(1) prod.collapse)
  then show ?thesis using assms by (auto simp: emit_registry_def bindS_def askH_def retS_def has_handlers_def)
qed

text \<open>A handler that never completes within its contract: every execution times out, crashes or answers outside it.\<close>

definition failing :: "'l hook_env \<Rightarrow> hook_handler \<Rightarrow> bool" where
  "failing H h = (\<forall>input t. fst (classify_exec (exec_answer H (hh_target h) input (hh_timeout_ms h) t)) \<noteq> HookOk)"

lemma failing_run_rejects:
  assumes "failing H h" and "run_of H h run"
  shows "hn_decision run = Reject"
proof (rule run_of_verdict(3) [OF assms(2)])
  obtain input t where "run = sync_run h (exec_answer H (hh_target h) input (hh_timeout_ms h) t)"
    using assms(2) unfolding run_of_def by blast
  then show "hn_outcome run \<noteq> HookOk" using assms(1) unfolding failing_def sync_run_def by (simp add: case_prod_beta)
qed

definition hook_params :: "before_execute_context \<Rightarrow> sync_params" where
  "hook_params c = \<lparr>sy_entity = ToolCall, sy_event = BeforeExecute, sy_doc_id = bc_attempt_id c,
     sy_doc = json_obj [(''tool'', JStr (bc_tool c)), (''arguments'', bc_arguments c), (''attempt_id'', JStr (bc_attempt_id c))],
     sy_proposed = AllowHook, sy_ctx = root_context (bc_actor c), sy_seq = 0\<rparr>"

lemma hook_params_simps [simp]:
  "sy_entity (hook_params c) = ToolCall" "sy_event (hook_params c) = BeforeExecute" "hc_depth (sy_ctx (hook_params c)) < MAX_HOOK_DEPTH"
  by (simp_all add: hook_params_def root_context_def MAX_HOOK_DEPTH_def)

lemma before_execute_hook_rejects:
  assumes "emit_registry H ToolCall BeforeExecute w = (Inr (Some reg) :: 'e + _, w1)"
    and "run_sync H reg (hook_params c) w1 = (Inr o' :: 'e + _, w')" and "so_decision o' = Reject"
  shows "\<exists>m. fst (before_execute_hook H c w) = (Inr (HReject m) :: 'e + before_execute_decision)"
  unfolding before_execute_hook_def emit_sync_def bindS_def retS_def
  by (simp only: assms(1) assms(2) [unfolded hook_params_def] assms(3) prod.case sum.case option.case hook_decision.case fst_conv
      sum.inject before_execute_decision.inject) blast

lemma failing_hook_rejects:
  assumes "\<forall>t. he_files H t = (g, p)" and "load_hooks (he_machine H) g p = Inr reg"
    and "h \<in> set (handlers_for reg ToolCall BeforeExecute)" and "failing H h"
  shows "\<exists>m. fst (before_execute_hook H c w) = (Inr (HReject m) :: 'e + before_execute_decision)"
proof -
  obtain runs w' where r: "run_sync H reg (hook_params c) (w\<lparr>hw_tick := Suc (hw_tick w)\<rparr>) =
        (Inr (fold absorb_run runs (sync_start (hook_params c))) :: 'e + sync_outcome, w')"
      "list_all2 (run_of H) (handlers_for reg ToolCall BeforeExecute) runs"
    using run_sync_effect [OF hook_params_simps(3), of H reg c] unfolding hook_params_simps(1,2) by blast
  obtain run where "run \<in> set runs" "run_of H h run"
    using r(2) assms(3) by (metis in_set_conv_nth list_all2_conv_all_nth)
  then have "Reject \<in> hn_decision ` set runs" using failing_run_rejects [OF assms(4)] by force
  then have "so_decision (fold absorb_run runs (sync_start (hook_params c))) = Reject" by (simp add: absorb_decision Max_Reject)
  then show ?thesis by (rule before_execute_hook_rejects [OF emit_registry_found [OF assms(1-3)] r(1)])
qed

text \<open>The hook of a session is the installed one: each of its answers is an answer of \<^const>\<open>before_execute_hook\<close> in some state.\<close>

definition hook_installed :: "'l conn_env \<Rightarrow> 'l hook_env \<Rightarrow> bool" where
  "hook_installed E H = (\<forall>t c. \<exists>v. fst (before_execute_hook H c v) = (Inr (ce_hook E t c) :: unit + _))"

text \<open>
  C10. A failing hook stops the call. With the hooks installed in a session and one \<^verbatim>\<open>ToolCall.before_execute\<close> handler that
  never answers within its contract (it times out, crashes, or prints something else), every proxied call and every
  approved replacement fails and no connector is called, whatever the other handlers and the rest of the environment answer.
\<close>

theorem failing_hook_stops_call:
  assumes "call_tool_detailed E n args w = (r, w') \<or> call_tool_replacement E n args rp w = (r, w')"
    and "ss_before_execute_hook (cw_set w)" and "hook_installed E H"
    and "\<forall>t. he_files H t = (g, p)" and "load_hooks (he_machine H) g p = Inr reg"
    and "h \<in> set (handlers_for reg ToolCall BeforeExecute)" and "failing H h"
  shows "(\<exists>f. r = Inl f) \<and> cw_calls w' = cw_calls w"
proof -
  have "\<exists>m. ce_hook E t c = HReject m" for t c
  proof -
    obtain v where "fst (before_execute_hook H c v) = (Inr (ce_hook E t c) :: unit + _)"
      using assms(3) unfolding hook_installed_def by blast
    then show ?thesis using failing_hook_rejects [OF assms(4-7), of c v, where ?'e = unit] by auto
  qed
  then show ?thesis using rejecting_hook_blocks [OF assms(1)] assms(2) by blast
qed

definition ex_hooked_env :: "json conn_env" where
  "ex_hooked_env = ex_conn_env\<lparr>ce_hook := (\<lambda>t c.
     case fst (before_execute_hook (ex_hook_env ''maybe'' (Parsed ex_hooks)) c ex_hook_world) :: unit + _ of Inr d \<Rightarrow> d | Inl _ \<Rightarrow> HAllow)\<rparr>"

lemma ex_hooked_hook: "ce_hook ex_hooked_env t c =
    (case fst (before_execute_hook (ex_hook_env ''maybe'' (Parsed ex_hooks)) c ex_hook_world) :: unit + _ of Inr d \<Rightarrow> d | Inl _ \<Rightarrow> HAllow)"
  by (simp add: ex_hooked_env_def)

definition ex_hooked_world :: "json conn_world" where
  "ex_hooked_world = ex_conn_world\<lparr>cw_set := set_before_execute_hook ex_set\<rparr>"

lemma ex_failing: "failing (ex_hook_env ''maybe'' f) (ex_handler ''a'' 10 2)"
proof -
  have w: "wait_loop ex_child t 0 = ChildExited" for t by (simp add: wait_loop.simps ex_child_def)
  have c: "cm_spawn ex_child = None" "cm_write_ok ex_child" "cm_output ex_child = Inr (Some ''x'', '''')" "trim ''x'' = ''x''"
    by (simp_all add: ex_child_def trim_def is_space_def byte_of_def)
  have "execute_command (\<lambda>_. Inr ''{}'') (\<lambda>_. Inr out) ex_child argv input t =
      \<lparr>xr_output = Some out, xr_failure = None, xr_elapsed_ms = cm_end_ms ex_child, xr_stderr = ''''\<rparr>" for out argv input t
    unfolding execute_command_def w c by (simp add: c)
  then show ?thesis
    by (simp add: failing_def exec_answer_def ex_hook_env_def ex_handler_def classify_exec_def decision_or_reject_def hook_decision_parse_def)
qed

theorem failing_hook_stops_call_witness:
  "(\<exists>f. fst (call_tool_detailed ex_hooked_env ''mail.search'' JNull ex_hooked_world) = Inl f) \<and>
   cw_calls (snd (call_tool_detailed ex_hooked_env ''mail.search'' JNull ex_hooked_world)) = cw_calls ex_hooked_world"
proof (rule failing_hook_stops_call [OF disjI1 [OF prod.collapse [symmetric]], where H = "ex_hook_env ''maybe'' (Parsed ex_hooks)"
      and g = "(''g'', Parsed ex_hooks)" and p = "(''p'', NoFile)" and reg = ex_hook_reg and h = "ex_handler ''a'' 10 2"])
  let ?H = "ex_hook_env ''maybe'' (Parsed ex_hooks)"
  show "ss_before_execute_hook (cw_set ex_hooked_world)" by (simp add: ex_hooked_world_def set_before_execute_hook_def)
  show files: "\<forall>t. he_files ?H t = ((''g'', Parsed ex_hooks), (''p'', NoFile))" by (simp add: ex_hook_env_def)
  show loaded: "load_hooks (he_machine ?H) (''g'', Parsed ex_hooks) (''p'', NoFile) = Inr ex_hook_reg"
    using ex_hooks_loaded by (simp add: ex_hook_env_def ex_hook_reg_def)
  show mem: "ex_handler ''a'' 10 2 \<in> set (handlers_for ex_hook_reg ToolCall BeforeExecute)"
    by (simp add: ex_hook_reg_def handlers_for_def)
  show "failing ?H (ex_handler ''a'' 10 2)" by (rule ex_failing)
  show "hook_installed ex_hooked_env ?H"
    unfolding hook_installed_def
  proof (intro allI exI)
    fix t c
    show "fst (before_execute_hook ?H c ex_hook_world) = (Inr (ce_hook ex_hooked_env t c) :: unit + _)"
      using failing_hook_rejects [OF files loaded mem ex_failing, of c ex_hook_world, where ?'e = unit]
      unfolding ex_hooked_hook by (elim exE) (simp only: sum.case)
  qed
qed

text \<open>
  A broken hook file switches the hooks off. When the load of the hook files fails, the hook allows the call, runs no
  handler and records nothing, although the loader calls its error fail-closed.
\<close>

lemma malformed_hooks_allow:
  assumes "he_files H (hw_tick w) = (g, p)" and "load_hooks (he_machine H) g p = Inl e"
  shows "before_execute_hook H c w = (Inr HAllow, w\<lparr>hw_tick := Suc (hw_tick w)\<rparr>)"
  using assms by (simp add: before_execute_hook_def emit_sync_def emit_registry_def bindS_def askH_def retS_def)

end
