(* ===== verification/Text_Files.thy ===== *)
theory Text_Files
  imports Prelude "HOL-Library.Countable"
begin

text \<open>
  Append-only text files with one JSON value per line. A file is its text; an append may fail to open the file, break off
  after any number of bytes, or fail to be synced. A file is whole when its last line is complete; only then do the lines
  of a longer file start with the lines of the file.
\<close>

section \<open>Lines and appends\<close>

definition newline :: char where "newline = CHR 0x0A"

text \<open>\<^verbatim>\<open>str::lines\<close>: pieces between newlines, without the empty piece at the end and without a carriage return before each.\<close>

definition strip_cr :: "string \<Rightarrow> string" where
  "strip_cr s = (if s \<noteq> [] \<and> last s = CHR 0x0D then butlast s else s)"

definition text_lines :: "string \<Rightarrow> string list" where
  "text_lines s = (let ls = split_on newline s in map strip_cr (if last ls = [] then butlast ls else ls))"

datatype append_answer = Appended | OpenFailed string | BrokeOff nat string | SyncFailed string

section \<open>Lines of a growing file\<close>

lemma split_on_append_sep: "split_on c (a @ c # b) = split_on c a @ split_on c b"
  by (induction a) (auto split: list.splits)

text \<open>A file whose last line is complete.\<close>

definition whole :: "string \<Rightarrow> bool" where
  "whole t = (t = [] \<or> last t = newline)"

lemma text_lines_append:
  assumes "whole t"
  shows "text_lines (t @ x) = text_lines t @ text_lines x"
proof (cases "t = []")
  case False
  then obtain u where "t = u @ [newline]" using assms by (metis append_butlast_last_id whole_def)
  then show ?thesis
    using split_on_append_sep [of newline u x] split_on_append_sep [of newline u "[]"]
    by (simp add: text_lines_def Let_def butlast_append)
qed (simp add: text_lines_def)

lemma text_lines_line: "newline \<notin> set l \<Longrightarrow> text_lines (l @ [newline]) = [strip_cr l]"
  using split_on_append_sep [of newline l "[]"] by (simp add: text_lines_def Let_def split_on_no_sep)

lemma whole_line [simp]: "whole (t @ l @ [newline])"
  by (simp add: whole_def)

lemma trimmed_last: "trim s = s \<Longrightarrow> s \<noteq> [] \<Longrightarrow> \<not> is_space (last s)"
proof
  assume a: "trim s = s" "s \<noteq> []" "is_space (last s)"
  define u where "u = dropWhile is_space s"
  have s: "s = rev (dropWhile is_space (rev u))" using a(1) by (simp add: trim_def u_def)
  then have "dropWhile is_space (rev u) \<noteq> []" using a(2) by auto
  then have "\<not> is_space (hd (dropWhile is_space (rev u)))" by (rule hd_dropWhile)
  then show False using a(2,3) s by (metis last_rev rev_is_Nil_conv)
qed

lemma trim_id: "s \<noteq> [] \<Longrightarrow> \<not> is_space (hd s) \<Longrightarrow> \<not> is_space (last s) \<Longrightarrow> trim s = s"
  using dropWhile_eq_self_iff [of is_space s] dropWhile_eq_self_iff [of is_space "rev s"] by (simp add: trim_def hd_rev)

text \<open>A text that is one line of a file, as every printed JSON value.\<close>

definition one_line :: "string \<Rightarrow> bool" where
  "one_line s = (trim s = s \<and> s \<noteq> [] \<and> newline \<notin> set s)"

lemma lines_of_one: "one_line s \<Longrightarrow> text_lines (s @ [newline]) = [s]"
proof -
  assume s: "one_line s"
  then have "last s \<noteq> CHR 0x0D" using trimmed_last [of s] by (auto simp: one_line_def is_space_def byte_of_def)
  then show ?thesis using s by (simp add: one_line_def text_lines_line strip_cr_def)
qed

lemma lines_of_many:
  "whole t \<Longrightarrow> \<forall>s\<in>set ls. one_line s \<Longrightarrow> text_lines (t @ concat (map (\<lambda>s. s @ [newline]) ls)) = text_lines t @ ls"
proof (induction ls arbitrary: t)
  case (Cons s ls)
  have "text_lines (t @ s @ [newline]) = text_lines t @ [s]"
    using Cons.prems lines_of_one [of s] by (simp add: text_lines_append del: append_assoc)
  then show ?case using Cons.IH [of "t @ s @ [newline]"] Cons.prems(2) by simp
qed simp

lemma whole_many: "whole t \<Longrightarrow> whole (t @ concat (map (\<lambda>s. s @ [newline]) ls))"
  by (cases ls rule: rev_cases) (auto simp: whole_def)

section \<open>A concrete codec\<close>

text \<open>A text of JSON values for the examples: the number of the value in braces.\<close>

instance json :: countable
  by countable_datatype

definition ex_text :: "json \<Rightarrow> string" where
  "ex_text v = CHR ''{'' # show_nat (to_nat v) @ ''}''"

definition ex_parse :: "string \<Rightarrow> json option" where
  "ex_parse s =
     (case s of
        [] \<Rightarrow> None
      | c # r \<Rightarrow> if c = CHR ''{'' \<and> r \<noteq> [] \<and> last r = CHR ''}'' \<and> list_all is_ascii_digit (butlast r) then Some (from_nat (read_nat (butlast r)))
                else None)"

lemma ex_digits: "list_all is_ascii_digit (show_nat n)" "newline \<notin> set (show_nat n)"
  using show_nat_digits [of _ n] by (fastforce simp: list_all_iff is_ascii_digit_def Let_def newline_def byte_of_def)+

lemma ex_text_line: "one_line (ex_text v)" "ex_parse (ex_text v) = Some v"
proof -
  have "trim (ex_text v) = ex_text v" by (rule trim_id) (simp_all add: ex_text_def is_space_def byte_of_def)
  then show "one_line (ex_text v)" by (simp add: one_line_def ex_text_def ex_digits) (simp add: newline_def)
  show "ex_parse (ex_text v) = Some v" by (simp add: ex_parse_def ex_text_def ex_digits butlast_append)
qed

end
