(* ===== verification/Hook_Outbox.thy ===== *)
theory Hook_Outbox
  imports Hook_Dispatch Text_Files "HOL-Library.AList" "HOL-Library.Multiset"
begin

text \<open>
  The durable outbox of observer deliveries (\<^verbatim>\<open>supercli-events/src/outbox.rs\<close>) and the worker that drains it
  (\<^verbatim>\<open>supercli-serve/src/hook_observer.rs\<close>). The two files are texts: an append adds a line and may break off after any
  number of bytes, so that a torn line is a value of the model. Clocks, failures of the disk, the text of a JSON value and the
  iteration order of a hash map are answers of the environment.
\<close>

section \<open>Entries\<close>

record outbox_entry =
  ob_event_id :: string
  ob_entity :: string
  ob_event :: string
  ob_doc_id :: string
  ob_doc :: json
  ob_actor :: string
  ob_enqueued_ms :: nat
  ob_attempts :: nat
  ob_next_retry_ms :: nat
  ob_last_error :: "string option"

definition outbox_entry_json :: "outbox_entry \<Rightarrow> json" where
  "outbox_entry_json e = json_obj
     [(''event_id'', JStr (ob_event_id e)), (''entity'', JStr (ob_entity e)), (''event'', JStr (ob_event e)),
      (''doc_id'', JStr (ob_doc_id e)), (''doc'', ob_doc e), (''actor'', JStr (ob_actor e)),
      (''enqueued_ms'', JNum (int (ob_enqueued_ms e))), (''attempts'', JNum (int (ob_attempts e))),
      (''next_retry_ms'', JNum (int (ob_next_retry_ms e))),
      (''last_error'', case ob_last_error e of None \<Rightarrow> JNull | Some t \<Rightarrow> JStr t)]"

text \<open>The derived deserialiser: every field is required but the optional one, and the counter has 32 bits.\<close>

definition u32_range :: nat where "u32_range = 2 ^ 32"

definition get_u32 :: "string \<Rightarrow> json \<Rightarrow> nat option" where
  "get_u32 k v = Option.bind (get_u64 k v) (\<lambda>n. if n < u32_range then Some n else None)"

definition get_opt_str :: "string \<Rightarrow> json \<Rightarrow> string option option" where
  "get_opt_str k v =
     (case json_get k v of None \<Rightarrow> Some None | Some JNull \<Rightarrow> Some None | Some (JStr t) \<Rightarrow> Some (Some t) | Some _ \<Rightarrow> None)"

definition outbox_entry_of :: "json \<Rightarrow> outbox_entry option" where
  "outbox_entry_of v =
     Option.bind (get_str ''event_id'' v) (\<lambda>eid.
     Option.bind (get_str ''entity'' v) (\<lambda>entity.
     Option.bind (get_str ''event'' v) (\<lambda>event.
     Option.bind (get_str ''doc_id'' v) (\<lambda>doc_id.
     Option.bind (json_get ''doc'' v) (\<lambda>doc.
     Option.bind (get_str ''actor'' v) (\<lambda>actor.
     Option.bind (get_u64 ''enqueued_ms'' v) (\<lambda>enqueued_ms.
     Option.bind (get_u32 ''attempts'' v) (\<lambda>attempts.
     Option.bind (get_u64 ''next_retry_ms'' v) (\<lambda>next_retry_ms.
     Option.bind (get_opt_str ''last_error'' v) (\<lambda>last_error.
     Some \<lparr>ob_event_id = eid, ob_entity = entity, ob_event = event, ob_doc_id = doc_id, ob_doc = doc, ob_actor = actor,
       ob_enqueued_ms = enqueued_ms, ob_attempts = attempts, ob_next_retry_ms = next_retry_ms, ob_last_error = last_error\<rparr>))))))))))"

definition ack_json :: "string \<Rightarrow> nat \<Rightarrow> json" where
  "ack_json eid now = json_obj [(''type'', JStr ''ack''), (''event_id'', JStr eid), (''acked_ms'', JNum (int now))]"

definition BACKOFF_SECS :: "nat list" where "BACKOFF_SECS = [1, 5, 30, 300, 3600]"

definition MAX_ATTEMPTS :: nat where "MAX_ATTEMPTS = 8"

text \<open>The subtraction wraps at zero, where no element is found.\<close>

definition backoff_secs :: "nat \<Rightarrow> nat" where
  "backoff_secs attempts = (if 0 < attempts \<and> attempts - 1 < length BACKOFF_SECS then BACKOFF_SECS ! (attempts - 1) else 3600)"

section \<open>Files\<close>

record 'l outbox_env =
  oe_hooks :: "'l hook_env"
  oe_to_string :: "json \<Rightarrow> string"
  oe_from_str :: "string \<Rightarrow> json option"
  oe_now :: "nat \<Rightarrow> nat"
  oe_read_error :: "nat \<Rightarrow> string option"
  oe_append :: "nat \<Rightarrow> append_answer"
  oe_order :: "nat \<Rightarrow> outbox_entry list \<Rightarrow> outbox_entry list"

record 'l outbox_world =
  ow_hooks :: "'l hook_world"
  ow_outbox :: "string option"
  ow_dead :: "string option"
  ow_tick :: nat

type_synonym ('l, 'a) outbox_op = "('l outbox_world, string, 'a) sm"

definition askO :: "(nat \<Rightarrow> 'a) \<Rightarrow> ('l, 'a) outbox_op" where
  "askO f w = (Inr (f (ow_tick w)), w\<lparr>ow_tick := Suc (ow_tick w)\<rparr>)"

datatype outbox_path = OutboxPath | DeadLetterPath

fun file_at :: "outbox_path \<Rightarrow> 'l outbox_world \<Rightarrow> string option" where
  "file_at OutboxPath w = ow_outbox w"
| "file_at DeadLetterPath w = ow_dead w"

definition grow :: "string \<Rightarrow> string option \<Rightarrow> string option" where
  "grow t file = Some ((case file of None \<Rightarrow> [] | Some s \<Rightarrow> s) @ t)"

fun write_at :: "outbox_path \<Rightarrow> string \<Rightarrow> 'l outbox_world \<Rightarrow> 'l outbox_world" where
  "write_at OutboxPath t w = w\<lparr>ow_outbox := grow t (ow_outbox w)\<rparr>"
| "write_at DeadLetterPath t w = w\<lparr>ow_dead := grow t (ow_dead w)\<rparr>"

definition outbox_append :: "'l outbox_env \<Rightarrow> outbox_path \<Rightarrow> string \<Rightarrow> ('l, unit) outbox_op" where
  "outbox_append E path line =
     bindS (askO (oe_append E)) (\<lambda>answer.
     case answer of
       OpenFailed e \<Rightarrow> throwS e
     | BrokeOff n e \<Rightarrow> bindS (modifyS (write_at path (take n (line @ [newline])))) (\<lambda>_. throwS e)
     | SyncFailed e \<Rightarrow> bindS (modifyS (write_at path (line @ [newline]))) (\<lambda>_. throwS e)
     | Appended \<Rightarrow> modifyS (write_at path (line @ [newline])))"

definition read_text :: "'l outbox_env \<Rightarrow> outbox_path \<Rightarrow> ('l, string option) outbox_op" where
  "read_text E path =
     bindS (askO (oe_read_error E)) (\<lambda>err.
     bindS (getS (file_at path)) (\<lambda>file.
     case file of
       None \<Rightarrow> retS None
     | Some t \<Rightarrow> (case err of Some e \<Rightarrow> throwS e | None \<Rightarrow> retS (Some t))))"

section \<open>The outbox\<close>

definition enqueue ::
  "'l outbox_env \<Rightarrow> string \<Rightarrow> string \<Rightarrow> string \<Rightarrow> string \<Rightarrow> json \<Rightarrow> string \<Rightarrow> ('l, unit) outbox_op" where
  "enqueue E eid entity event doc_id doc actor =
     bindS (askO (oe_now E)) (\<lambda>enqueued.
     bindS (askO (oe_now E)) (\<lambda>next_retry.
     outbox_append E OutboxPath (oe_to_string E (outbox_entry_json
       \<lparr>ob_event_id = eid, ob_entity = entity, ob_event = event, ob_doc_id = doc_id, ob_doc = doc, ob_actor = actor,
        ob_enqueued_ms = enqueued, ob_attempts = 0, ob_next_retry_ms = next_retry, ob_last_error = None\<rparr>))))"

definition ack :: "'l outbox_env \<Rightarrow> string \<Rightarrow> ('l, unit) outbox_op" where
  "ack E eid =
     bindS (askO (oe_now E)) (\<lambda>now. outbox_append E OutboxPath (oe_to_string E (ack_json eid now)))"
type_synonym outbox_scan = "(string \<times> outbox_entry) list \<times> string list"

definition scan_line :: "'l outbox_env \<Rightarrow> string \<Rightarrow> outbox_scan \<Rightarrow> outbox_scan" where
  "scan_line E line s =
     (let line = trim line in
      if line = [] then s
      else (case oe_from_str E line of
              None \<Rightarrow> s
            | Some v \<Rightarrow>
                if get_str ''type'' v = Some ''ack'' then
                  (case get_str ''event_id'' v of None \<Rightarrow> s | Some eid \<Rightarrow> (fst s, List.insert eid (snd s)))
                else
                  (case outbox_entry_of v of None \<Rightarrow> s | Some e \<Rightarrow> (AList.update (ob_event_id e) e (fst s), snd s))))"

definition scan :: "'l outbox_env \<Rightarrow> string \<Rightarrow> outbox_scan" where
  "scan E text = fold (scan_line E) (text_lines text) ([], [])"

definition unacked :: "outbox_scan \<Rightarrow> (string \<times> outbox_entry) list" where
  "unacked s = filter (\<lambda>(eid, _). eid \<notin> set (snd s)) (fst s)"

definition load_all :: "'l outbox_env \<Rightarrow> ('l, (string \<times> outbox_entry) list) outbox_op" where
  "load_all E =
     bindS (read_text E OutboxPath) (\<lambda>text.
     retS (case text of None \<Rightarrow> [] | Some t \<Rightarrow> unacked (scan E t)))"

text \<open>The counter wraps at 32 bits and the retry time at 64.\<close>

definition record_attempt :: "'l outbox_env \<Rightarrow> string \<Rightarrow> string \<Rightarrow> ('l, bool) outbox_op" where
  "record_attempt E eid err =
     bindS (load_all E) (\<lambda>entries.
     case map_of entries eid of
       None \<Rightarrow> retS False
     | Some e \<Rightarrow>
         let attempts = (ob_attempts e + 1) mod u32_range in
         if attempts \<ge> MAX_ATTEMPTS then retS False
         else
           bindS (askO (oe_now E)) (\<lambda>now.
           bindS (outbox_append E OutboxPath (oe_to_string E (outbox_entry_json
             (e\<lparr>ob_attempts := attempts, ob_last_error := Some err,
                ob_next_retry_ms := (now + backoff_secs attempts * 1000) mod 2 ^ 64\<rparr>)))) (\<lambda>_.
           retS True)))"

definition dead_letter_marker :: "string \<Rightarrow> nat \<Rightarrow> string" where
  "dead_letter_marker eid now =
     [CHR ''{''] @ debug_str ''type'' @ '':'' @ debug_str ''dead_letter'' @ '','' @ debug_str ''event_id'' @ '':'' @ debug_str eid @ '','' @
     debug_str ''at_ms'' @ '':'' @ show_nat now @ [CHR ''}'']"

definition dead_letter :: "'l outbox_env \<Rightarrow> string \<Rightarrow> ('l, unit) outbox_op" where
  "dead_letter E eid =
     bindS (load_all E) (\<lambda>entries.
     bindS (case map_of entries eid of
              None \<Rightarrow> retS ()
            | Some e \<Rightarrow>
                bindS (outbox_append E DeadLetterPath (oe_to_string E (outbox_entry_json e))) (\<lambda>_.
                bindS (askO (oe_now E)) (\<lambda>now.
                outbox_append E DeadLetterPath (dead_letter_marker eid now)))) (\<lambda>_.
     ack E eid))"

definition due :: "'l outbox_env \<Rightarrow> ('l, outbox_entry list) outbox_op" where
  "due E =
     bindS (askO (oe_now E)) (\<lambda>now.
     bindS (load_all E) (\<lambda>entries.
     bindS (askO (oe_order E)) (\<lambda>order.
     retS (sort_key ob_enqueued_ms (filter (\<lambda>e. ob_next_retry_ms e \<le> now) (order (map snd entries)))))))"

definition was_ever_enqueued :: "'l outbox_env \<Rightarrow> string \<Rightarrow> ('l, bool) outbox_op" where
  "was_ever_enqueued E eid =
     bindS (read_text E OutboxPath) (\<lambda>text.
     retS (case text of None \<Rightarrow> False | Some t \<Rightarrow> list_ex (\<lambda>l. str_contains l eid) (text_lines t)))"

definition is_delivered :: "'l outbox_env \<Rightarrow> string \<Rightarrow> ('l, bool) outbox_op" where
  "is_delivered E eid =
     bindS (load_all E) (\<lambda>entries.
     if map_of entries eid \<noteq> None then retS False else was_ever_enqueued E eid)"

definition dead_letters :: "'l outbox_env \<Rightarrow> ('l, json list) outbox_op" where
  "dead_letters E =
     bindS (read_text E DeadLetterPath) (\<lambda>text.
     retS (case text of None \<Rightarrow> [] | Some t \<Rightarrow> List.map_filter (\<lambda>l. oe_from_str E (trim l)) (text_lines t)))"

section \<open>The delivery worker\<close>

definition inHooks :: "('l hook_world, string, 'a) sm \<Rightarrow> ('l, 'a) outbox_op" where
  "inHooks m w = (case m (ow_hooks w) of (r, v) \<Rightarrow> (r, w\<lparr>ow_hooks := v\<rparr>))"

definition failed_runs :: "handler_run list \<Rightarrow> string list" where
  "failed_runs runs =
     map (\<lambda>r. hn_name r @ '': '' @ hook_outcome_str (hn_outcome r) @ '' ('' @ hn_message r @ '')'')
       (filter (\<lambda>r. hn_outcome r \<noteq> HookOk) runs)"

definition settle :: "'l outbox_env \<Rightarrow> string \<Rightarrow> handler_run list \<Rightarrow> ('l, unit) outbox_op" where
  "settle E eid runs =
     (let failed = failed_runs runs in
      if failed = [] then map_errS (\<lambda>e. ''ack '' @ eid @ '': '' @ e) (ack E eid)
      else
        bindS (map_errS (\<lambda>e. ''record_attempt '' @ eid @ '': '' @ e) (record_attempt E eid (join_with ''; '' failed))) (\<lambda>retry.
        if retry then retS ()
        else map_errS (\<lambda>e. ''dead_letter '' @ eid @ '': '' @ e) (dead_letter E eid)))"

definition deliver :: "'l outbox_env \<Rightarrow> hook_registry \<Rightarrow> outbox_entry \<Rightarrow> ('l, unit) outbox_op" where
  "deliver E reg e =
     (case doc_type_parse (ob_entity e) of
        None \<Rightarrow> throwS (''bad entity '' @ debug_str (ob_entity e))
      | Some entity \<Rightarrow>
          (case doc_event_parse (ob_event e) of
             None \<Rightarrow> throwS (''bad event '' @ debug_str (ob_event e))
           | Some event \<Rightarrow>
               if is_sync event then bindS (okS (dead_letter E (ob_event_id e))) (\<lambda>_. retS ())
               else
                 bindS (inHooks (run_observers (oe_hooks E) reg entity event (ob_doc_id e) (ob_doc e) (root_context (ob_actor e)) 0)) (
                 settle E (ob_event_id e))))"

fun deliver_all :: "'l outbox_env \<Rightarrow> hook_registry \<Rightarrow> outbox_entry list \<Rightarrow> ('l, unit) outbox_op" where
  "deliver_all E reg [] = retS ()"
| "deliver_all E reg (e # es) = bindS (deliver E reg e) (\<lambda>_. deliver_all E reg es)"

definition pump_once :: "'l outbox_env \<Rightarrow> hook_registry \<Rightarrow> ('l, unit) outbox_op" where
  "pump_once E reg = bindS (map_errS (\<lambda>e. ''outbox due: '' @ e) (due E)) (deliver_all E reg)"

text \<open>The worker thread: the registry is read once at the start, an error of one pass is only printed.\<close>

definition worker_registry :: "'l outbox_env \<Rightarrow> ('l, hook_registry) outbox_op" where
  "worker_registry E =
     bindS (askO (he_files (oe_hooks E))) (\<lambda>(global, project).
     retS (case load_hooks (he_machine (oe_hooks E)) global project of Inl _ \<Rightarrow> empty_registry | Inr reg \<Rightarrow> reg))"

fun polls :: "'l outbox_env \<Rightarrow> hook_registry \<Rightarrow> nat \<Rightarrow> ('l, unit) outbox_op" where
  "polls E reg 0 = retS ()"
| "polls E reg (Suc n) = bindS (okS (pump_once E reg)) (\<lambda>_. polls E reg n)"

definition observer_worker :: "'l outbox_env \<Rightarrow> nat \<Rightarrow> ('l, unit) outbox_op" where
  "observer_worker E n = bindS (worker_registry E) (\<lambda>reg. polls E reg n)"

section \<open>Assumptions on the text of JSON values\<close>

text \<open>A printed value parses back, is one line without white space around it, and is not empty.\<close>

definition text_ok :: "'l outbox_env \<Rightarrow> bool" where
  "text_ok E = (\<forall>v. oe_from_str E (oe_to_string E v) = Some v \<and> trim (oe_to_string E v) = oe_to_string E v \<and>
     oe_to_string E v \<noteq> [] \<and> newline \<notin> set (oe_to_string E v))"

text \<open>Times are 64-bit numbers.\<close>

definition clock_ok :: "'l outbox_env \<Rightarrow> bool" where
  "clock_ok E = (\<forall>t. oe_now E t \<le> u64_max)"

definition entry_ok :: "outbox_entry \<Rightarrow> bool" where
  "entry_ok e = (ob_enqueued_ms e \<le> u64_max \<and> ob_attempts e < u32_range \<and> ob_next_retry_ms e \<le> u64_max)"

lemma u32_fits: "n < u32_range \<Longrightarrow> n \<le> u64_max"
  by (simp add: u32_range_def u64_max_def)

lemma outbox_entry_parsed: "entry_ok e \<Longrightarrow> outbox_entry_of (outbox_entry_json e) = Some e"
  by (cases "ob_last_error e")
    (simp_all add: outbox_entry_of_def outbox_entry_json_def get_u32_def get_opt_str_def json_simps entry_ok_def u32_fits)

lemma outbox_entry_of_ok: "outbox_entry_of v = Some e \<Longrightarrow> entry_ok e"
  by (auto simp: outbox_entry_of_def bind_eq_Some_conv entry_ok_def get_u32_def get_u64_def elim!: as_u64.elims split: if_splits)

lemma entry_json_no_type: "get_str ''type'' (outbox_entry_json e) = None"
  by (simp add: outbox_entry_json_def json_simps)

lemma ack_json_fields: "get_str ''type'' (ack_json eid now) = Some ''ack''" "get_str ''event_id'' (ack_json eid now) = Some eid"
  by (simp_all add: ack_json_def json_simps)

lemma scan_append: "whole t \<Longrightarrow> scan E (t @ x) = fold (scan_line E) (text_lines x) (scan E t)"
  by (simp add: scan_def text_lines_append)

lemma printed_line:
  assumes "text_ok E"
  shows "text_lines (oe_to_string E v @ [newline]) = [oe_to_string E v]" and "trim (oe_to_string E v) = oe_to_string E v"
  using assms lines_of_one [of "oe_to_string E v"] by (auto simp: text_ok_def one_line_def)

lemma scan_entry:
  assumes "text_ok E" "entry_ok e" "whole t"
  shows "scan E (t @ oe_to_string E (outbox_entry_json e) @ [newline]) =
    (AList.update (ob_event_id e) e (fst (scan E t)), snd (scan E t))"
  using assms(1)
  by (simp add: scan_append [OF assms(3)] printed_line [OF assms(1)] scan_line_def text_ok_def entry_json_no_type
      outbox_entry_parsed [OF assms(2)])

lemma scan_ack:
  assumes "text_ok E" "whole t"
  shows "scan E (t @ oe_to_string E (ack_json eid now) @ [newline]) = (fst (scan E t), List.insert eid (snd (scan E t)))"
  using assms(1)
  by (simp add: scan_append [OF assms(2)] printed_line [OF assms(1)] scan_line_def text_ok_def ack_json_fields)

text \<open>Reading further lines never forgets an acknowledgement or an event.\<close>

lemma scan_line_mono: "set (snd s) \<subseteq> set (snd (scan_line E l s))" "dom (map_of (fst s)) \<subseteq> dom (map_of (fst (scan_line E l s)))"
  by (auto simp: scan_line_def Let_def update_conv' split: option.splits)

lemma scan_lines_mono:
  "set (snd s) \<subseteq> set (snd (fold (scan_line E) ls s)) \<and> dom (map_of (fst s)) \<subseteq> dom (map_of (fst (fold (scan_line E) ls s)))"
proof (induction ls arbitrary: s)
  case (Cons l ls)
  show ?case using Cons.IH [of "scan_line E l s"] scan_line_mono [of s E l] by (simp add: order.trans)
qed simp

lemma scan_mono:
  assumes "whole t"
  shows "set (snd (scan E t)) \<subseteq> set (snd (scan E (t @ x)))" "dom (map_of (fst (scan E t))) \<subseteq> dom (map_of (fst (scan E (t @ x))))"
  using scan_lines_mono [of "scan E t" E "text_lines x"] by (simp_all add: scan_append [OF assms])

lemma map_of_unacked: "map_of (unacked s) eid = (if eid \<in> set (snd s) then None else map_of (fst s) eid)"
proof -
  have "map_of (filter (\<lambda>(k, _). k \<notin> A) xs) eid = (if eid \<in> A then None else map_of xs eid)" for A and xs :: "(string \<times> outbox_entry) list"
    by (induction xs) auto
  then show ?thesis by (simp add: unacked_def)
qed

section \<open>The outbox only grows\<close>

definition text_of :: "'l outbox_world \<Rightarrow> string" where
  "text_of w = (case ow_outbox w of None \<Rightarrow> [] | Some t \<Rightarrow> t)"

text \<open>What \<^const>\<open>load_all\<close> finds: the latest version of every event without an acknowledgement.\<close>

definition pending :: "'l outbox_env \<Rightarrow> 'l outbox_world \<Rightarrow> string \<Rightarrow> outbox_entry option" where
  "pending E w = map_of (unacked (scan E (text_of w)))"

definition extends :: "string \<Rightarrow> 'l outbox_world \<Rightarrow> bool" where
  "extends t w = (\<exists>x. text_of w = t @ x)"

lemma extends_refl [simp]: "extends (text_of w) w"
  by (simp add: extends_def)

lemma text_of_other [simp]:
  "text_of (w\<lparr>ow_tick := k\<rparr>) = text_of w" "text_of (w\<lparr>ow_hooks := h\<rparr>) = text_of w" "text_of (w\<lparr>ow_dead := d\<rparr>) = text_of w"
  by (simp_all add: text_of_def)

lemma text_of_write [simp]:
  "text_of (write_at OutboxPath t w) = text_of w @ t" "text_of (write_at DeadLetterPath t w) = text_of w"
  by (simp_all add: text_of_def grow_def)

named_theorems outbox_frame \<open>an operation on the outbox keeps an invariant of its files\<close>

lemma grow_ask [outbox_frame]: "preserves (extends t) (askO f)"
  by (simp add: preserves_def askO_def extends_def)

lemma grow_hooks [outbox_frame]: "preserves (extends t) (inHooks m)"
  by (auto simp: preserves_def inHooks_def extends_def split: prod.splits)

lemma grow_append [outbox_frame]: "preserves (extends t) (outbox_append E path l)"
proof -
  have w: "extends t v \<Longrightarrow> extends t (write_at path x v)" for v x
    by (cases path) (auto simp: extends_def simp del: write_at.simps)
  show ?thesis
    unfolding outbox_append_def
    by (intro preserves_bind grow_ask) (auto split: append_answer.splits intro!: preserves_intros w)
qed

lemma grow_ops [outbox_frame]:
  "preserves (extends t) (load_all E)" "preserves (extends t) (enqueue E eid en ev di doc ac)" "preserves (extends t) (ack E eid)"
  "preserves (extends t) (record_attempt E eid err)"
  unfolding load_all_def read_text_def enqueue_def ack_def record_attempt_def Let_def
  by (intro outbox_frame preserves_intros)+

lemma grow_dead_letter [outbox_frame]: "preserves (extends t) (dead_letter E eid)"
  unfolding dead_letter_def by (intro outbox_frame preserves_intros)

lemma grow_reads [outbox_frame]:
  "preserves (extends t) (due E)" "preserves (extends t) (is_delivered E eid)" "preserves (extends t) (dead_letters E)"
  unfolding due_def is_delivered_def was_ever_enqueued_def dead_letters_def read_text_def
  by (intro outbox_frame preserves_intros)+

lemma grow_settle [outbox_frame]: "preserves (extends t) (settle E eid runs)"
  unfolding settle_def Let_def by (intro outbox_frame preserves_intros)

lemma grow_deliver [outbox_frame]: "preserves (extends t) (deliver E reg e)"
  unfolding deliver_def by (intro outbox_frame preserves_intros)

lemma grow_deliver_all [outbox_frame]: "preserves (extends t) (deliver_all E reg es)"
  by (induction es) (simp_all add: outbox_frame preserves_intros)

lemma grow_pump [outbox_frame]: "preserves (extends t) (pump_once E reg)"
  unfolding pump_once_def by (intro outbox_frame preserves_intros)

section \<open>Everything that can happen to an outbox\<close>

text \<open>Emitters, operators and any number of workers act in any order, and every operation may fail where the disk fails.\<close>

inductive outbox_step :: "'l outbox_env \<Rightarrow> 'l outbox_world \<Rightarrow> 'l outbox_world \<Rightarrow> bool" for E where
  step_enqueue: "enqueue E eid en ev di doc ac w = (r, w') \<Longrightarrow> outbox_step E w w'"
| step_ack: "ack E eid w = (r, w') \<Longrightarrow> outbox_step E w w'"
| step_attempt: "record_attempt E eid err w = (b, w') \<Longrightarrow> outbox_step E w w'"
| step_dead_letter: "dead_letter E eid w = (r, w') \<Longrightarrow> outbox_step E w w'"
| step_query: "is_delivered E eid w = (b, w') \<Longrightarrow> outbox_step E w w'"
| step_due: "due E w = (es, w') \<Longrightarrow> outbox_step E w w'"
| step_dead_letters: "dead_letters E w = (vs, w') \<Longrightarrow> outbox_step E w w'"
| step_pump: "pump_once E reg w = (r, w') \<Longrightarrow> outbox_step E w w'"

lemma step_extends: "outbox_step E w w' \<Longrightarrow> extends t w \<Longrightarrow> extends t w'"
  by (induction rule: outbox_step.induct)
    (use grow_ops(2-4) grow_dead_letter grow_reads grow_pump in \<open>fast dest: preservesD\<close>)+

lemma steps_extend: "(outbox_step E)\<^sup>*\<^sup>* w w' \<Longrightarrow> extends (text_of w) w'"
  by (induction rule: rtranclp_induct) (auto intro: step_extends)

lemma acked_not_pending: "eid \<in> set (snd (scan E (text_of w))) \<Longrightarrow> pending E w eid = None"
  by (simp add: pending_def map_of_unacked)

lemma acked_stays:
  assumes "whole (text_of w)" "eid \<in> set (snd (scan E (text_of w)))" "(outbox_step E)\<^sup>*\<^sup>* w w'"
  shows "eid \<in> set (snd (scan E (text_of w')))"
proof -
  obtain x where "text_of w' = text_of w @ x" using steps_extend [OF assms(3)] by (auto simp: extends_def)
  then show ?thesis using scan_mono(1) [OF assms(1)] assms(2) by fastforce
qed

lemma append_ok:
  assumes "outbox_append E OutboxPath l w = (Inr (), w')"
  shows "text_of w' = text_of w @ l @ [newline]"
  using assms by (auto simp: outbox_append_def bindS_def askO_def throwS_def modifyS_def text_of_def grow_def split: append_answer.splits)

lemma ack_recorded:
  assumes "text_ok E" "whole (text_of w)" "ack E eid w = (Inr (), w')"
  shows "whole (text_of w')" "eid \<in> set (snd (scan E (text_of w')))"
proof -
  obtain now w1 where "text_of w1 = text_of w" "outbox_append E OutboxPath (oe_to_string E (ack_json eid now)) w1 = (Inr (), w')"
    using assms(3) text_of_other(1) [where w = w and k = "Suc (ow_tick w)"] by (auto simp: ack_def bindS_def askO_def simp del: text_of_other)
  then have "text_of w' = text_of w @ oe_to_string E (ack_json eid now) @ [newline]" using append_ok by fastforce
  then show "whole (text_of w')" "eid \<in> set (snd (scan E (text_of w')))" using scan_ack [OF assms(1,2)] by simp_all
qed


section \<open>The outbox as a map\<close>

text \<open>What a file means: the latest version of every event, and the acknowledged events.\<close>

type_synonym outbox_abs = "(string \<Rightarrow> outbox_entry option) \<times> string set"

definition abs_of :: "'l outbox_env \<Rightarrow> 'l outbox_world \<Rightarrow> outbox_abs" where
  "abs_of E w = (map_of (fst (scan E (text_of w))), set (snd (scan E (text_of w))))"

definition put_entry :: "outbox_entry \<Rightarrow> outbox_abs \<Rightarrow> outbox_abs" where
  "put_entry e s = ((fst s)(ob_event_id e \<mapsto> e), snd s)"

definition put_ack :: "string \<Rightarrow> outbox_abs \<Rightarrow> outbox_abs" where
  "put_ack eid s = (fst s, insert eid (snd s))"

definition open_entry :: "outbox_abs \<Rightarrow> string \<Rightarrow> outbox_entry option" where
  "open_entry s eid = (if eid \<in> snd s then None else fst s eid)"

definition bumped :: "outbox_entry \<Rightarrow> string \<Rightarrow> nat \<Rightarrow> outbox_entry" where
  "bumped e err now = e\<lparr>ob_attempts := (ob_attempts e + 1) mod u32_range, ob_last_error := Some err,
     ob_next_retry_ms := (now + backoff_secs ((ob_attempts e + 1) mod u32_range) * 1000) mod 2 ^ 64\<rparr>"

definition spent :: "outbox_entry \<Rightarrow> bool" where
  "spent e = ((ob_attempts e + 1) mod u32_range \<ge> MAX_ATTEMPTS)"

lemma pending_open: "pending E w = open_entry (abs_of E w)"
  by (simp add: fun_eq_iff pending_def open_entry_def abs_of_def map_of_unacked)

lemma abs_of_same: "text_of w' = text_of w \<Longrightarrow> abs_of E w' = abs_of E w"
  by (simp add: abs_of_def)

lemma abs_of_entry:
  assumes "text_ok E" "entry_ok e" "whole (text_of w)" "text_of w' = text_of w @ oe_to_string E (outbox_entry_json e) @ [newline]"
  shows "abs_of E w' = put_entry e (abs_of E w)"
  by (simp add: abs_of_def put_entry_def assms(4) scan_entry [OF assms(1-3)] update_conv')

lemma abs_of_ack:
  assumes "text_ok E" "whole (text_of w)" "text_of w' = text_of w @ oe_to_string E (ack_json eid now) @ [newline]"
  shows "abs_of E w' = put_ack eid (abs_of E w)"
  by (simp add: abs_of_def put_ack_def assms(3) scan_ack [OF assms(1,2)])

text \<open>Writes that break off leave nothing behind.\<close>

definition whole_writes :: "'l outbox_env \<Rightarrow> bool" where
  "whole_writes E = (\<forall>t n e. oe_append E t = BrokeOff n e \<longrightarrow> n = 0)"

lemma append_cases:
  assumes "whole_writes E" "outbox_append E OutboxPath l w = (r, w')"
  obtains "text_of w' = text_of w @ l @ [newline]" | e where "r = Inl e" "text_of w' = text_of w"
proof (cases "oe_append E (ow_tick w)")
  case (BrokeOff n e)
  then have "n = 0" using assms(1) by (auto simp: whole_writes_def)
  then show ?thesis
    using assms(2) BrokeOff that(2) [of e] by (auto simp: outbox_append_def bindS_def askO_def throwS_def modifyS_def text_of_def grow_def)
qed (use assms(2) that in \<open>auto simp: outbox_append_def bindS_def askO_def throwS_def modifyS_def text_of_def grow_def\<close>)

lemma append_dead: "outbox_append E DeadLetterPath l w = (r, w') \<Longrightarrow> text_of w' = text_of w"
  by (auto simp: outbox_append_def bindS_def askO_def throwS_def modifyS_def text_of_def split: append_answer.splits)

lemma load_all_cases:
  assumes "load_all E w = (r, w')"
  shows "text_of w' = text_of w \<and> ((\<exists>e. r = Inl e) \<or> (\<exists>xs. r = Inr xs \<and> map_of xs = pending E w))"
  using assms
  by (auto simp: load_all_def read_text_def bindS_def askO_def getS_def retS_def throwS_def text_of_def pending_def scan_def text_lines_def
      unacked_def split: option.splits)

lemma wrote_entry:
  assumes "text_ok E" "whole_writes E" "whole (text_of w)" "entry_ok e" "text_of w1 = text_of w"
    "outbox_append E OutboxPath (oe_to_string E (outbox_entry_json e)) w1 = (r, w')"
  shows "whole (text_of w') \<and> (abs_of E w' = put_entry e (abs_of E w) \<or> (\<exists>x. r = Inl x) \<and> abs_of E w' = abs_of E w)"
  using append_cases [OF assms(2,6)]
proof cases
  case 1
  then show ?thesis using abs_of_entry [OF assms(1,4,3)] assms(5) by simp
next
  case 2
  then show ?thesis using assms(3,5) abs_of_same by metis
qed

lemma enqueue_abs:
  assumes "text_ok E" "clock_ok E" "whole_writes E" "whole (text_of w)" "enqueue E eid en ev di doc ac w = (r, w')"
  shows "whole (text_of w') \<and> (\<exists>t t'. abs_of E w' = put_entry \<lparr>ob_event_id = eid, ob_entity = en, ob_event = ev, ob_doc_id = di,
      ob_doc = doc, ob_actor = ac, ob_enqueued_ms = t, ob_attempts = 0, ob_next_retry_ms = t', ob_last_error = None\<rparr> (abs_of E w) \<or>
    (\<exists>x. r = Inl x) \<and> abs_of E w' = abs_of E w)"
proof -
  let ?e = "\<lparr>ob_event_id = eid, ob_entity = en, ob_event = ev, ob_doc_id = di, ob_doc = doc, ob_actor = ac,
    ob_enqueued_ms = oe_now E (ow_tick w), ob_attempts = 0, ob_next_retry_ms = oe_now E (Suc (ow_tick w)), ob_last_error = None\<rparr>"
  have "entry_ok ?e" using assms(2) by (simp add: entry_ok_def clock_ok_def u32_range_def)
  then show ?thesis
    using wrote_entry [OF assms(1,3,4), of ?e "w\<lparr>ow_tick := Suc (Suc (ow_tick w))\<rparr>" r w'] assms(5)
    by (auto simp: enqueue_def bindS_def askO_def)
qed

lemma ack_abs:
  assumes "text_ok E" "whole_writes E" "whole (text_of w)" "ack E eid w = (r, w')"
  shows "whole (text_of w') \<and> (abs_of E w' = put_ack eid (abs_of E w) \<or> (\<exists>x. r = Inl x) \<and> abs_of E w' = abs_of E w)"
proof -
  have a: "outbox_append E OutboxPath (oe_to_string E (ack_json eid (oe_now E (ow_tick w)))) (w\<lparr>ow_tick := Suc (ow_tick w)\<rparr>) = (r, w')"
    using assms(4) by (simp add: ack_def bindS_def askO_def)
  show ?thesis
    using append_cases [OF assms(2) a]
  proof cases
    case 1
    then show ?thesis using abs_of_ack [OF assms(1,3)] by simp
  next
    case 2
    then show ?thesis using assms(3) abs_of_same [of w' w] by simp
  qed
qed

lemma scan_line_ok:
  "(\<forall>eid e. map_of (fst s) eid = Some e \<longrightarrow> entry_ok e \<and> ob_event_id e = eid) \<Longrightarrow>
   map_of (fst (scan_line E l s)) eid = Some e \<Longrightarrow> entry_ok e \<and> ob_event_id e = eid"
  by (auto simp: scan_line_def Let_def update_conv' outbox_entry_of_ok split: option.splits if_splits)

lemma scan_lines_ok:
  "(\<forall>eid e. map_of (fst s) eid = Some e \<longrightarrow> entry_ok e \<and> ob_event_id e = eid) \<Longrightarrow>
   map_of (fst (fold (scan_line E) ls s)) eid = Some e \<Longrightarrow> entry_ok e \<and> ob_event_id e = eid"
proof (induction ls arbitrary: s)
  case (Cons l ls)
  have "\<forall>eid e. map_of (fst (scan_line E l s)) eid = Some e \<longrightarrow> entry_ok e \<and> ob_event_id e = eid"
    using scan_line_ok [OF Cons.prems(1)] by blast
  from Cons.IH [OF this] Cons.prems(2) show ?case by simp
qed simp

lemma pending_ok: "pending E w eid = Some e \<Longrightarrow> entry_ok e \<and> ob_event_id e = eid"
  using scan_lines_ok [of "([], [])" E "text_lines (text_of w)" eid e]
  by (auto simp: pending_def map_of_unacked scan_def split: if_splits)

lemma bumped_ok: "entry_ok e \<Longrightarrow> entry_ok (bumped e err now) \<and> ob_event_id (bumped e err now) = ob_event_id e"
  by (simp add: entry_ok_def bumped_def u32_range_def u64_max_def)

lemma record_attempt_abs:
  assumes "text_ok E" "whole_writes E" "whole (text_of w)" "record_attempt E eid err w = (r, w')"
  shows "whole (text_of w') \<and>
    ((\<exists>e now. pending E w eid = Some e \<and> \<not> spent e \<and> abs_of E w' = put_entry (bumped e err now) (abs_of E w) \<and> r \<noteq> Inr False) \<or>
     abs_of E w' = abs_of E w \<and> r \<noteq> Inr True \<and> (r = Inr False \<longrightarrow> (\<forall>e. pending E w eid = Some e \<longrightarrow> spent e)))"
proof -
  obtain r1 w1 where l: "load_all E w = (r1, w1)" by fastforce
  have same: "text_of w1 = text_of w" using load_all_cases [OF l] by simp
  consider x where "r1 = Inl x" | xs where "r1 = Inr xs" "map_of xs = pending E w" "\<forall>e. pending E w eid = Some e \<longrightarrow> spent e"
    | xs e where "r1 = Inr xs" "map_of xs = pending E w" "pending E w eid = Some e" "\<not> spent e"
    using load_all_cases [OF l] by blast
  then show ?thesis
  proof cases
    case 1
    then show ?thesis using assms(3,4) l same abs_of_same [OF same] by (auto simp: record_attempt_def bindS_def)
  next
    case 2
    then have "r = Inr False \<and> w' = w1"
      using assms(4) l by (auto simp: record_attempt_def bindS_def retS_def spent_def Let_def split: option.splits)
    then show ?thesis using 2(3) assms(3) same abs_of_same [OF same] by simp
  next
    case 3
    let ?now = "oe_now E (ow_tick w1)" and ?w2 = "w1\<lparr>ow_tick := Suc (ow_tick w1)\<rparr>"
    obtain ra where a: "outbox_append E OutboxPath (oe_to_string E (outbox_entry_json (bumped e err ?now))) ?w2 = (ra, w')"
        "r = (case ra of Inl x \<Rightarrow> Inl x | Inr _ \<Rightarrow> Inr True)"
      using assms(4) l 3
      by (auto simp: record_attempt_def bindS_def retS_def spent_def Let_def askO_def bumped_def split: prod.splits sum.splits)
    have "entry_ok (bumped e err ?now)" using bumped_ok pending_ok [OF 3(3)] by blast
    then have "whole (text_of w') \<and> (abs_of E w' = put_entry (bumped e err ?now) (abs_of E w) \<or> (\<exists>x. ra = Inl x) \<and> abs_of E w' = abs_of E w)"
      by (rule wrote_entry [OF assms(1-3) _ _ a(1)]) (simp add: same)
    then show ?thesis using 3(3,4) a(2) by (auto split: sum.splits)
  qed
qed

lemma snapshot_text:
  "preserves (\<lambda>v. text_of v = t) (case o' of None \<Rightarrow> retS () | Some e \<Rightarrow>
     bindS (outbox_append E DeadLetterPath (l e)) (\<lambda>_. bindS (askO (oe_now E)) (\<lambda>now. outbox_append E DeadLetterPath (l' now))))"
proof -
  have "preserves (\<lambda>v. text_of v = t) (outbox_append E DeadLetterPath x)" for x
    unfolding preserves_def using append_dead by (metis prod.collapse)
  moreover have "preserves (\<lambda>v. text_of v = t) (askO f)" for f :: "nat \<Rightarrow> nat" by (simp add: preserves_def askO_def)
  ultimately show ?thesis by (intro preserves_intros)
qed

lemma dead_letter_abs:
  assumes "text_ok E" "whole_writes E" "whole (text_of w)" "dead_letter E eid w = (r, w')"
  shows "whole (text_of w') \<and> (abs_of E w' = put_ack eid (abs_of E w) \<or> (\<exists>x. r = Inl x) \<and> abs_of E w' = abs_of E w)"
proof -
  obtain r1 w1 where l: "load_all E w = (r1, w1)" by fastforce
  have same: "text_of w1 = text_of w" using load_all_cases [OF l] by simp
  show ?thesis
  proof (cases r1)
    case (Inl x)
    then show ?thesis using assms(3,4) l same abs_of_same [OF same] by (auto simp: dead_letter_def bindS_def)
  next
    case r1: (Inr xs)
    obtain r2 w2 where s: "(case map_of xs eid of None \<Rightarrow> retS () | Some e \<Rightarrow>
        bindS (outbox_append E DeadLetterPath (oe_to_string E (outbox_entry_json e))) (\<lambda>_. bindS (askO (oe_now E)) (\<lambda>now.
        outbox_append E DeadLetterPath (dead_letter_marker eid now)))) w1 = (r2, w2)" by (meson surj_pair)
    have same2: "text_of w2 = text_of w" using preservesD [OF snapshot_text same s] .
    show ?thesis
    proof (cases r2)
      case (Inl x)
      then have "r = Inl x \<and> w' = w2" using assms(4) l r1 s by (simp add: dead_letter_def bindS_def)
      then show ?thesis using assms(3) same2 abs_of_same [OF same2] by simp
    next
      case r2: (Inr u)
      then have "ack E eid w2 = (r, w')" using assms(4) l r1 s by (simp add: dead_letter_def bindS_def)
      then show ?thesis using ack_abs [OF assms(1,2)] assms(3) same2 abs_of_same [OF same2] by metis
    qed
  qed
qed

section \<open>Simulation of the map\<close>

text \<open>The atomic changes of the map: a fresh entry, one more attempt for an open entry within its budget, an acknowledgement.\<close>

inductive abs_step :: "outbox_abs \<Rightarrow> outbox_abs \<Rightarrow> bool" where
  abs_enqueue: "ob_attempts e = 0 \<Longrightarrow> abs_step s (put_entry e s)"
| abs_attempt: "open_entry s eid = Some e \<Longrightarrow> \<not> spent e \<Longrightarrow> abs_step s (put_entry (bumped e err now) s)"
| abs_ack: "abs_step s (put_ack eid s)"

definition simulated :: "'l outbox_env \<Rightarrow> outbox_abs \<Rightarrow> 'l outbox_world \<Rightarrow> bool" where
  "simulated E s v = (whole (text_of v) \<and> abs_step\<^sup>*\<^sup>* s (abs_of E v))"

definition sound_env :: "'l outbox_env \<Rightarrow> bool" where
  "sound_env E = (text_ok E \<and> clock_ok E \<and> whole_writes E)"

lemma simulated_step:
  "simulated E s w \<Longrightarrow> whole (text_of w') \<Longrightarrow> abs_of E w' = abs_of E w \<or> abs_step (abs_of E w) (abs_of E w') \<Longrightarrow> simulated E s w'"
  unfolding simulated_def by (metis rtranclp.rtrancl_into_rtrancl)

named_theorems sim_frame \<open>an operation on the outbox is simulated by steps of the map\<close>

lemma sim_text: "(\<And>w. text_of (snd (m w)) = text_of w) \<Longrightarrow> preserves (simulated E s) m"
  by (simp add: preserves_def simulated_def abs_of_def)

lemma sim_ask [sim_frame]: "preserves (simulated E s) (askO f)"
  by (rule sim_text) (simp add: askO_def)

lemma sim_hooks [sim_frame]: "preserves (simulated E s) (inHooks m)"
  by (rule sim_text) (auto simp: inHooks_def split: prod.splits)

lemma sim_load [sim_frame]: "preserves (simulated E s) (load_all E')"
  by (rule sim_text) (metis load_all_cases prod.collapse)

lemma sim_step:
  assumes "\<And>w r w'. whole (text_of w) \<Longrightarrow> m w = (r, w') \<Longrightarrow>
    whole (text_of w') \<and> (abs_of E w' = abs_of E w \<or> abs_step (abs_of E w) (abs_of E w'))"
  shows "preserves (simulated E s) m"
  unfolding preserves_def
proof (intro allI impI)
  fix w
  assume w: "simulated E s w"
  then have "whole (text_of w)" by (simp add: simulated_def)
  from assms [OF this prod.collapse [symmetric]] show "simulated E s (snd (m w))" using simulated_step [OF w] by blast
qed

lemma sim_enqueue [sim_frame]: "sound_env E \<Longrightarrow> preserves (simulated E s) (enqueue E eid en ev di doc ac)"
proof (rule sim_step)
  fix w w' :: "'a outbox_world" and r
  assume "sound_env E" "whole (text_of w)" "enqueue E eid en ev di doc ac w = (r, w')"
  then have a: "whole (text_of w') \<and> (\<exists>t t'. abs_of E w' = put_entry \<lparr>ob_event_id = eid, ob_entity = en, ob_event = ev, ob_doc_id = di,
      ob_doc = doc, ob_actor = ac, ob_enqueued_ms = t, ob_attempts = 0, ob_next_retry_ms = t', ob_last_error = None\<rparr> (abs_of E w) \<or>
    (\<exists>x. r = Inl x) \<and> abs_of E w' = abs_of E w)"
    unfolding sound_env_def using enqueue_abs by blast
  show "whole (text_of w') \<and> (abs_of E w' = abs_of E w \<or> abs_step (abs_of E w) (abs_of E w'))"
    using a by (elim conjE exE disjE) (simp_all add: abs_enqueue)
qed

lemma sim_ack [sim_frame]: "sound_env E \<Longrightarrow> preserves (simulated E s) (ack E eid)"
  by (rule sim_step) (use ack_abs abs_ack in \<open>metis sound_env_def\<close>)

lemma sim_attempt [sim_frame]: "sound_env E \<Longrightarrow> preserves (simulated E s) (record_attempt E eid err)"
  by (rule sim_step) (use record_attempt_abs abs_attempt in \<open>metis sound_env_def pending_open\<close>)

lemma sim_dead_letter [sim_frame]: "sound_env E \<Longrightarrow> preserves (simulated E s) (dead_letter E eid)"
  by (rule sim_step) (use dead_letter_abs abs_ack in \<open>metis sound_env_def\<close>)

lemma sim_reads [sim_frame]:
  "preserves (simulated E s) (due E')" "preserves (simulated E s) (is_delivered E' eid)" "preserves (simulated E s) (dead_letters E')"
  unfolding due_def is_delivered_def was_ever_enqueued_def dead_letters_def read_text_def
  by (intro sim_frame preserves_intros)+

lemma sim_deliver [sim_frame]: "sound_env E \<Longrightarrow> preserves (simulated E s) (deliver E reg e)"
  unfolding deliver_def settle_def Let_def by (intro sim_frame preserves_intros)

lemma sim_deliver_all [sim_frame]: "sound_env E \<Longrightarrow> preserves (simulated E s) (deliver_all E reg es)"
  by (induction es) (simp_all add: sim_frame preserves_intros)

lemma sim_pump [sim_frame]: "sound_env E \<Longrightarrow> preserves (simulated E s) (pump_once E reg)"
  unfolding pump_once_def by (intro sim_frame preserves_intros)

lemma step_simulated: "outbox_step E w w' \<Longrightarrow> sound_env E \<Longrightarrow> simulated E s w \<Longrightarrow> simulated E s w'"
  by (induction rule: outbox_step.induct)
    (use sim_enqueue sim_ack sim_attempt sim_dead_letter sim_reads sim_pump in \<open>fast dest: preservesD\<close>)+

text \<open>
  C20. The outbox file implements a map with acknowledgements. Whatever step is taken, as long as a write that breaks off leaves
  no partial line, the lines of the file stay whole and the meaning of the file changes by atomic steps of the map only: a
  fresh entry, one more attempt of an open entry within its budget, or an acknowledgement. Loading returns exactly the open
  entries of the map.
\<close>

theorem outbox_refines_map:
  assumes "sound_env E" "whole (text_of w)" "outbox_step E w w'"
  shows "whole (text_of w') \<and> abs_step\<^sup>*\<^sup>* (abs_of E w) (abs_of E w') \<and>
    (\<forall>xs v. load_all E w' = (Inr xs, v) \<longrightarrow> map_of xs = open_entry (abs_of E w'))"
proof -
  have "simulated E (abs_of E w) w'" using assms(2) by (intro step_simulated [OF assms(3,1)]) (simp add: simulated_def)
  moreover have "map_of xs = open_entry (abs_of E w')" if "load_all E w' = (Inr xs, v)" for xs v
    using load_all_cases [OF that] by (auto simp: pending_open)
  ultimately show ?thesis by (auto simp: simulated_def)
qed

text \<open>No open entry has used up its budget.\<close>

definition within_budget :: "outbox_abs \<Rightarrow> bool" where
  "within_budget s = (\<forall>eid e. open_entry s eid = Some e \<longrightarrow> ob_attempts e < MAX_ATTEMPTS)"

lemma abs_step_budget: "abs_step s s' \<Longrightarrow> within_budget s \<Longrightarrow> within_budget s'"
  by (induction rule: abs_step.induct)
    (auto simp: within_budget_def open_entry_def put_entry_def put_ack_def bumped_def spent_def MAX_ATTEMPTS_def split: if_splits)

section \<open>Delivery on a healthy disk\<close>

definition healthy :: "'l outbox_env \<Rightarrow> bool" where
  "healthy E = (text_ok E \<and> clock_ok E \<and> (\<forall>t. oe_append E t = Appended) \<and> (\<forall>t. oe_read_error E t = None))"

lemma healthy_sound: "healthy E \<Longrightarrow> sound_env E"
  by (auto simp: healthy_def sound_env_def whole_writes_def)

lemma healthy_append:
  "healthy E \<Longrightarrow> outbox_append E path l w = (Inr (), write_at path (l @ [newline]) (w\<lparr>ow_tick := Suc (ow_tick w)\<rparr>))"
  by (simp add: healthy_def outbox_append_def bindS_def askO_def modifyS_def)

lemma healthy_load: "healthy E \<Longrightarrow> load_all E w = (Inr (unacked (scan E (text_of w))), w\<lparr>ow_tick := Suc (ow_tick w)\<rparr>)"
  by (auto simp: healthy_def load_all_def read_text_def bindS_def askO_def getS_def retS_def text_of_def scan_def text_lines_def
      unacked_def split: option.splits)

lemma write_at_other [simp]:
  "ow_hooks (write_at path t w) = ow_hooks w" "ow_dead (write_at OutboxPath t w) = ow_dead w"
  "ow_dead (write_at DeadLetterPath t w) = grow t (ow_dead w)"
  by (cases path) simp_all

lemma healthy_ack:
  assumes "healthy E" "whole (text_of w)"
  shows "\<exists>w'. ack E eid w = (Inr (), w') \<and> whole (text_of w') \<and> abs_of E w' = put_ack eid (abs_of E w) \<and>
    ow_hooks w' = ow_hooks w \<and> ow_dead w' = ow_dead w"
proof -
  let ?now = "oe_now E (ow_tick w)"
  let ?w = "write_at OutboxPath (oe_to_string E (ack_json eid ?now) @ [newline]) (w\<lparr>ow_tick := Suc (Suc (ow_tick w))\<rparr>)"
  have "ack E eid w = (Inr (), ?w)" by (simp add: ack_def bindS_def askO_def healthy_append [OF assms(1)])
  moreover have "whole (text_of ?w)" "ow_hooks ?w = ow_hooks w" "ow_dead ?w = ow_dead w" by (simp_all del: write_at.simps)
  moreover have "abs_of E ?w = put_ack eid (abs_of E w)"
    by (rule abs_of_ack [where now = ?now]) (use assms in \<open>simp_all add: healthy_def del: write_at.simps\<close>)
  ultimately show ?thesis by blast
qed

lemma healthy_attempt:
  assumes "healthy E" "whole (text_of w)" "pending E w eid = Some e"
  shows "\<exists>w'. record_attempt E eid err w = (Inr (\<not> spent e), w') \<and> whole (text_of w') \<and> ow_hooks w' = ow_hooks w \<and>
    ow_dead w' = ow_dead w \<and> abs_of E w' = (if spent e then abs_of E w else put_entry (bumped e err (oe_now E (Suc (ow_tick w)))) (abs_of E w))"
proof -
  let ?w1 = "w\<lparr>ow_tick := Suc (ow_tick w)\<rparr>" and ?e = "bumped e err (oe_now E (Suc (ow_tick w)))"
  let ?w = "write_at OutboxPath (oe_to_string E (outbox_entry_json ?e) @ [newline]) (w\<lparr>ow_tick := Suc (Suc (Suc (ow_tick w)))\<rparr>)"
  have p: "map_of (unacked (scan E (text_of w))) eid = Some e" using assms(3) by (simp add: pending_def)
  show ?thesis
  proof (cases "spent e")
    case True
    then have "record_attempt E eid err w = (Inr False, ?w1)"
      using p by (simp add: record_attempt_def bindS_def healthy_load [OF assms(1)] retS_def Let_def spent_def)
    then show ?thesis using True assms(2) by (simp add: abs_of_def)
  next
    case False
    then have "record_attempt E eid err w = (Inr True, ?w)"
      using p by (simp add: record_attempt_def bindS_def healthy_load [OF assms(1)] retS_def Let_def spent_def askO_def
          healthy_append [OF assms(1)] bumped_def)
    moreover have "whole (text_of ?w)" "ow_hooks ?w = ow_hooks w" "ow_dead ?w = ow_dead w" by (simp_all del: write_at.simps)
    moreover have "abs_of E ?w = put_entry ?e (abs_of E w)"
      by (rule abs_of_entry) (use assms pending_ok [OF assms(3)] bumped_ok in \<open>auto simp: healthy_def simp del: write_at.simps\<close>)
    ultimately show ?thesis using False by auto
  qed
qed

text \<open>What a dead letter adds to its file.\<close>

definition letter :: "'l outbox_env \<Rightarrow> outbox_entry \<Rightarrow> nat \<Rightarrow> string" where
  "letter E e now = oe_to_string E (outbox_entry_json e) @ [newline] @ dead_letter_marker (ob_event_id e) now @ [newline]"

lemma grow_grow [simp]: "grow t' (grow t file) = grow (t @ t') file"
  by (simp add: grow_def)

lemma healthy_dead_letter:
  assumes "healthy E" "whole (text_of w)" "pending E w eid = Some e"
  shows "\<exists>w' now. dead_letter E eid w = (Inr (), w') \<and> whole (text_of w') \<and> abs_of E w' = put_ack eid (abs_of E w) \<and>
    ow_hooks w' = ow_hooks w \<and> ow_dead w' = grow (letter E e now) (ow_dead w)"
proof -
  let ?now = "oe_now E (Suc (Suc (ow_tick w)))"
  let ?w1 = "write_at DeadLetterPath (letter E e ?now) (w\<lparr>ow_tick := Suc (Suc (Suc (Suc (ow_tick w))))\<rparr>)"
  have p: "map_of (unacked (scan E (text_of w))) eid = Some e" using assms(3) by (simp add: pending_def)
  obtain w' where a: "ack E eid ?w1 = (Inr (), w')" "whole (text_of w')" "abs_of E w' = put_ack eid (abs_of E ?w1)"
      "ow_hooks w' = ow_hooks ?w1" "ow_dead w' = ow_dead ?w1"
    using healthy_ack [OF assms(1), of ?w1 eid] assms(2) by (auto simp del: write_at.simps)
  have "dead_letter E eid w = (Inr (), w')"
    using p a(1) pending_ok [OF assms(3)]
    by (simp add: dead_letter_def bindS_def healthy_load [OF assms(1)] healthy_append [OF assms(1)] askO_def letter_def)
  moreover have "abs_of E ?w1 = abs_of E w" by (rule abs_of_same) (simp del: write_at.simps)
  ultimately show ?thesis using a by (intro exI [of _ w'] exI [of _ ?now]) (simp del: write_at.simps)
qed

lemma observer_loop_returns:
  "\<exists>runs v'. observer_loop H hs eid entity event doc_id doc ctx v = (Inr runs :: 'e + handler_run list, v')"
proof (induction hs arbitrary: v)
  case (Cons h hs)
  let ?i = "\<lparr>hi_event_id = eid, hi_entity = doc_type_str entity, hi_event = doc_event_str event, hi_doc = doc, hi_context = ctx\<rparr>"
  let ?x = "exec_answer H (hh_target h) ?i (hh_timeout_ms h) (hw_tick v)" and ?v1 = "v\<lparr>hw_tick := Suc (hw_tick v)\<rparr>"
  obtain v2 where a: "audit_hook H eid entity event doc_id (observer_run h ?x) None ?v1 = (Inr () :: 'e + unit, v2)"
    using audit_hook_effect by blast
  obtain n where t: "\<exists>v3. trace_push (trace_of eid entity event (observer_run h ?x) n) v2 = (Inr () :: 'e + unit, v3)"
      "n = (if hn_observer_patch_ignored (observer_run h ?x) then Some ''contract violation: observer returned a patch; ignored'' else None)"
    by (simp add: trace_push_def modifyS_def)
  then obtain v3 where t3: "trace_push (trace_of eid entity event (observer_run h ?x) n) v2 = (Inr () :: 'e + unit, v3)" by blast
  obtain runs v4 where "observer_loop H hs eid entity event doc_id doc ctx v3 = (Inr runs :: 'e + handler_run list, v4)"
    using Cons.IH by blast
  then show ?case
    unfolding observer_loop.simps execute_def bindS_def askH_def Let_def
    by (simp only: prod.case sum.case a t3 [unfolded t(2)] retS_def) simp
qed (simp add: retS_def)

lemma inHooks_observers:
  "\<exists>runs v'. run_observers H reg entity event doc_id doc ctx seq (ow_hooks w) = (Inr runs :: string + handler_run list, v') \<and>
     inHooks (run_observers H reg entity event doc_id doc ctx seq) w = (Inr runs, w\<lparr>ow_hooks := v'\<rparr>)"
  using observer_loop_returns [where ?'e = string] unfolding run_observers_def inHooks_def by (metis (no_types, lifting) case_prod_conv)

lemma abs_of_other [simp]: "abs_of E (w\<lparr>ow_hooks := v\<rparr>) = abs_of E w" "pending E (w\<lparr>ow_hooks := v\<rparr>) = pending E w"
  by (simp_all add: abs_of_def pending_def)

lemma deliver_settles:
  assumes "healthy E" "whole (text_of w)" "pending E w (ob_event_id e) = Some e"
    and "doc_type_parse (ob_entity e) = Some entity" "doc_event_parse (ob_event e) = Some event" "\<not> is_sync event"
  shows "\<exists>runs v' w'. run_observers (oe_hooks E) reg entity event (ob_doc_id e) (ob_doc e) (root_context (ob_actor e)) 0 (ow_hooks w) =
      (Inr runs :: string + handler_run list, v') \<and>
    deliver E reg e w = (Inr (), w') \<and> whole (text_of w') \<and> ow_hooks w' = v' \<and>
    (if failed_runs runs = [] then abs_of E w' = put_ack (ob_event_id e) (abs_of E w) \<and> ow_dead w' = ow_dead w
     else if \<not> spent e then ow_dead w' = ow_dead w \<and>
       (\<exists>t. abs_of E w' = put_entry (bumped e (join_with ''; '' (failed_runs runs)) (oe_now E t)) (abs_of E w))
     else abs_of E w' = put_ack (ob_event_id e) (abs_of E w) \<and> (\<exists>now. ow_dead w' = grow (letter E e now) (ow_dead w)))"
proof -
  obtain runs v' where r: "run_observers (oe_hooks E) reg entity event (ob_doc_id e) (ob_doc e) (root_context (ob_actor e)) 0 (ow_hooks w) =
      (Inr runs :: string + handler_run list, v')"
      "inHooks (run_observers (oe_hooks E) reg entity event (ob_doc_id e) (ob_doc e) (root_context (ob_actor e)) 0) w =
        (Inr runs, w\<lparr>ow_hooks := v'\<rparr>)"
    using inHooks_observers [of "oe_hooks E" reg entity event "ob_doc_id e" "ob_doc e" "root_context (ob_actor e)" 0 w] by auto
  let ?w = "w\<lparr>ow_hooks := v'\<rparr>" and ?id = "ob_event_id e" and ?err = "join_with ''; '' (failed_runs runs)"
  have d: "deliver E reg e w = settle E ?id runs ?w"
    using assms(4-6) r(2) by (simp add: deliver_def bindS_def)
  have w: "whole (text_of ?w)" "pending E ?w ?id = Some e" using assms(2,3) by simp_all
  note a = healthy_attempt [OF assms(1) w, of ?err]
  consider "failed_runs runs = []" | "failed_runs runs \<noteq> []" "\<not> spent e" | "failed_runs runs \<noteq> []" "spent e" by blast
  then show ?thesis
  proof cases
    case 1
    then show ?thesis using r(1) d healthy_ack [OF assms(1) w(1), of ?id] by (auto simp: settle_def map_errS_def)
  next
    case 2
    then show ?thesis using r(1) d a by (fastforce simp: settle_def map_errS_def bindS_def retS_def)
  next
    case 3
    obtain w2 where b: "record_attempt E ?id ?err ?w = (Inr False, w2)" "whole (text_of w2)" "ow_hooks w2 = v'" "ow_dead w2 = ow_dead w"
        "abs_of E w2 = abs_of E w" using a 3 by auto
    have "pending E w2 ?id = Some e" using assms(3) b(5) by (simp add: pending_open)
    from healthy_dead_letter [OF assms(1) b(2) this] show ?thesis
      using r(1) d b 3 by (auto simp: settle_def map_errS_def bindS_def)
  qed
qed

text \<open>
  C27. One delivery settles its entry. On a healthy disk, delivering an open entry of an observer event runs the registered
  handlers once. When all of them succeed the event is acknowledged. When one fails and the budget of eight attempts allows
  it, the entry is open with one more attempt, the reasons, and a later retry time. Otherwise it is acknowledged and appended to the dead letters,
  in the version it had before this attempt: neither the last attempt nor its reasons are part of the letter.
\<close>

theorem delivery_settles_entry:
  assumes "healthy E" "whole (text_of w)" "pending E w (ob_event_id e) = Some e"
    and "doc_type_parse (ob_entity e) = Some entity" "doc_event_parse (ob_event e) = Some event" "\<not> is_sync event"
  shows "\<exists>runs v' w'. run_observers (oe_hooks E) reg entity event (ob_doc_id e) (ob_doc e) (root_context (ob_actor e)) 0 (ow_hooks w) =
      (Inr runs :: string + handler_run list, v') \<and>
    deliver E reg e w = (Inr (), w') \<and> whole (text_of w') \<and> ow_hooks w' = v' \<and>
    (if failed_runs runs = [] then abs_of E w' = put_ack (ob_event_id e) (abs_of E w) \<and> ow_dead w' = ow_dead w
     else if \<not> spent e then ow_dead w' = ow_dead w \<and>
       (\<exists>t. abs_of E w' = put_entry (bumped e (join_with ''; '' (failed_runs runs)) (oe_now E t)) (abs_of E w))
     else abs_of E w' = put_ack (ob_event_id e) (abs_of E w) \<and> (\<exists>now. ow_dead w' = grow (letter E e now) (ow_dead w)))"
  by (rule deliver_settles [OF assms])

lemma open_put_ack: "open_entry (put_ack eid s) = (open_entry s)(eid := None)"
  by (auto simp: fun_eq_iff open_entry_def put_ack_def)

lemma open_put_entry:
  "open_entry s (ob_event_id e) \<noteq> None \<Longrightarrow> open_entry (put_entry e s) = (open_entry s)(ob_event_id e := Some e)"
  by (auto simp: fun_eq_iff open_entry_def put_entry_def split: if_splits)

text \<open>What a delivery may leave of an entry: nothing, or the entry with one more attempt within the budget.\<close>

definition progressed :: "outbox_entry \<Rightarrow> outbox_entry option \<Rightarrow> bool" where
  "progressed e x = (\<forall>e'. x = Some e' \<longrightarrow> ob_attempts e' = Suc (ob_attempts e) \<and> ob_attempts e' < MAX_ATTEMPTS \<and>
     ob_entity e' = ob_entity e \<and> ob_event e' = ob_event e)"

definition readable :: "outbox_entry \<Rightarrow> bool" where
  "readable e = (doc_type_parse (ob_entity e) \<noteq> None \<and> doc_event_parse (ob_event e) \<noteq> None)"

lemma bumped_progress: "ob_attempts e < MAX_ATTEMPTS \<Longrightarrow> \<not> spent e \<Longrightarrow> progressed e (Some (bumped e err now))"
  by (simp add: progressed_def bumped_def spent_def MAX_ATTEMPTS_def u32_range_def)

lemma deliver_pending:
  assumes "healthy E" "whole (text_of w)" "pending E w (ob_event_id e) = Some e" "ob_attempts e < MAX_ATTEMPTS" "readable e"
  shows "\<exists>w' x. deliver E reg e w = (Inr (), w') \<and> whole (text_of w') \<and> pending E w' = (pending E w)(ob_event_id e := x) \<and> progressed e x"
proof -
  obtain entity event where p: "doc_type_parse (ob_entity e) = Some entity" "doc_event_parse (ob_event e) = Some event"
    using assms(5) by (auto simp: readable_def)
  let ?id = "ob_event_id e"
  have acked: "pending E w' = (pending E w)(?id := None)" if "abs_of E w' = put_ack ?id (abs_of E w)" for w'
    using that by (simp add: pending_open open_put_ack)
  show ?thesis
  proof (cases "is_sync event")
    case True
    then show ?thesis
      using healthy_dead_letter [OF assms(1-3)] p acked
      by (fastforce simp: deliver_def bindS_def okS_def retS_def progressed_def intro: exI [of _ None])
  next
    case False
    obtain runs v' w' where d: "deliver E reg e w = (Inr (), w')" "whole (text_of w')"
        "if failed_runs runs = [] then abs_of E w' = put_ack ?id (abs_of E w) \<and> ow_dead w' = ow_dead w
         else if \<not> spent e then ow_dead w' = ow_dead w \<and>
           (\<exists>t. abs_of E w' = put_entry (bumped e (join_with ''; '' (failed_runs runs)) (oe_now E t)) (abs_of E w))
         else abs_of E w' = put_ack ?id (abs_of E w) \<and> (\<exists>now. ow_dead w' = grow (letter E e now) (ow_dead w))"
      using deliver_settles [OF assms(1-3) p False, of reg] by blast
    show ?thesis
    proof (cases "failed_runs runs = [] \<or> spent e")
      case True
      then show ?thesis using d acked [of w'] by (intro exI [of _ w'] exI [of _ None]) (auto simp: progressed_def split: if_splits)
    next
      case False
      then obtain t where "abs_of E w' = put_entry (bumped e (join_with ''; '' (failed_runs runs)) (oe_now E t)) (abs_of E w)"
        using d(3) by auto
      moreover have "ob_event_id (bumped e s n) = ?id" for s n by (simp add: bumped_def)
      ultimately have "pending E w' = (pending E w)(?id := Some (bumped e (join_with ''; '' (failed_runs runs)) (oe_now E t)))"
        using assms(3) open_put_entry [of "abs_of E w" "bumped e (join_with ''; '' (failed_runs runs)) (oe_now E t)"]
        by (simp add: pending_open)
      then show ?thesis using d bumped_progress [OF assms(4)] False by blast
    qed
  qed
qed

lemma deliver_all_pending:
  assumes "healthy E" "whole (text_of w)" "distinct (map ob_event_id es)"
    and "\<forall>e\<in>set es. pending E w (ob_event_id e) = Some e \<and> ob_attempts e < MAX_ATTEMPTS \<and> readable e"
  shows "\<exists>w'. deliver_all E reg es w = (Inr (), w') \<and> whole (text_of w') \<and>
    (\<forall>e\<in>set es. progressed e (pending E w' (ob_event_id e))) \<and>
    (\<forall>eid. eid \<notin> ob_event_id ` set es \<longrightarrow> pending E w' eid = pending E w eid)"
  using assms(2-4)
proof (induction es arbitrary: w)
  case Nil
  then show ?case by (simp add: retS_def)
next
  case (Cons e es)
  obtain w1 x where 1: "deliver E reg e w = (Inr (), w1)" "whole (text_of w1)" "pending E w1 = (pending E w)(ob_event_id e := x)" "progressed e x"
    using deliver_pending [OF assms(1) Cons.prems(1), of e reg] Cons.prems(3) by fastforce
  have d: "ob_event_id e \<notin> ob_event_id ` set es" "distinct (map ob_event_id es)" using Cons.prems(2) by simp_all
  have "pending E w1 (ob_event_id e') = Some e' \<and> ob_attempts e' < MAX_ATTEMPTS \<and> readable e'" if "e' \<in> set es" for e'
  proof -
    have "ob_event_id e' \<noteq> ob_event_id e" using d(1) that by (metis imageI)
    then show ?thesis using Cons.prems(3) that by (simp add: 1(3))
  qed
  then have "\<forall>e\<in>set es. pending E w1 (ob_event_id e) = Some e \<and> ob_attempts e < MAX_ATTEMPTS \<and> readable e" by blast
  from Cons.IH [OF 1(2) d(2) this] obtain w' where 2: "deliver_all E reg es w1 = (Inr (), w')" "whole (text_of w')"
      "\<forall>e\<in>set es. progressed e (pending E w' (ob_event_id e))"
      "\<forall>eid. eid \<notin> ob_event_id ` set es \<longrightarrow> pending E w' eid = pending E w1 eid"
    by blast
  have "deliver_all E reg (e # es) w = (Inr (), w')" by (simp add: bindS_def 1(1) 2(1))
  moreover have "\<forall>e'\<in>set (e # es). progressed e' (pending E w' (ob_event_id e'))" using 2(3,4) d(1) 1(3,4) by simp
  moreover have "\<forall>eid. eid \<notin> ob_event_id ` set (e # es) \<longrightarrow> pending E w' eid = pending E w eid" using 2(4) 1(3) by simp
  ultimately show ?case using 2(2) by blast
qed

text \<open>A hash map hands out each of its values once.\<close>

definition order_ok :: "'l outbox_env \<Rightarrow> bool" where
  "order_ok E = (\<forall>t xs. mset (oe_order E t xs) = mset xs)"

lemma scan_distinct: "distinct (map fst (fst (scan E t)))"
proof -
  have "distinct (map fst (fst s)) \<Longrightarrow> distinct (map fst (fst (fold (scan_line E) ls s)))" for ls s
  proof (induction ls arbitrary: s)
    case (Cons l ls)
    have "distinct (map fst (fst (scan_line E l s)))"
      using Cons.prems by (auto simp: scan_line_def Let_def distinct_update split: option.splits)
    from Cons.IH [OF this] show ?case by simp
  qed simp
  then show ?thesis by (simp add: scan_def)
qed

lemma open_entries:
  fixes E w
  defines "xs \<equiv> unacked (scan E (text_of w))"
  shows "distinct (map fst xs)" and "map (ob_event_id \<circ> snd) xs = map fst xs"
    and "e \<in> snd ` set xs \<longleftrightarrow> pending E w (ob_event_id e) = Some e"
proof -
  show d: "distinct (map fst xs)"
    unfolding xs_def unacked_def using scan_distinct [of E "text_of w"] by (auto simp: distinct_map intro: inj_on_subset)
  have k: "ob_event_id v = k" if "(k, v) \<in> set xs" for k v
    using map_of_is_SomeI [OF d that] pending_ok [of E w k v] by (simp add: pending_def xs_def)
  then show "map (ob_event_id \<circ> snd) xs = map fst xs" by auto
  show "e \<in> snd ` set xs \<longleftrightarrow> pending E w (ob_event_id e) = Some e"
  proof
    assume "e \<in> snd ` set xs"
    then obtain k where "(k, e) \<in> set xs" by auto
    then show "pending E w (ob_event_id e) = Some e" using k map_of_is_SomeI [OF d] by (auto simp: pending_def xs_def)
  next
    assume "pending E w (ob_event_id e) = Some e"
    then show "e \<in> snd ` set xs" by (force simp: pending_def xs_def dest: map_of_SomeD)
  qed
qed

lemma due_entries:
  assumes "\<forall>t. oe_read_error E t = None" "order_ok E"
  obtains es k where "due E w = (Inr es, w\<lparr>ow_tick := k\<rparr>)" "distinct (map ob_event_id es)"
    "\<forall>e. e \<in> set es \<longleftrightarrow> pending E w (ob_event_id e) = Some e \<and> ob_next_retry_ms e \<le> oe_now E (ow_tick w)"
    "sorted (map ob_enqueued_ms es)"
proof -
  let ?xs = "unacked (scan E (text_of w))" and ?w1 = "w\<lparr>ow_tick := Suc (ow_tick w)\<rparr>"
  define ys where "ys = oe_order E (Suc (Suc (ow_tick w))) (map snd ?xs)"
  define es where "es = sort_key ob_enqueued_ms (filter (\<lambda>e. ob_next_retry_ms e \<le> oe_now E (ow_tick w)) ys)"
  have l: "load_all E ?w1 = (Inr ?xs, w\<lparr>ow_tick := Suc (Suc (ow_tick w))\<rparr>)"
    using assms(1)
    by (auto simp: load_all_def read_text_def bindS_def askO_def getS_def retS_def text_of_def scan_def text_lines_def
        unacked_def split: option.splits)
  have due: "due E w = (Inr es, w\<lparr>ow_tick := Suc (Suc (Suc (ow_tick w)))\<rparr>)"
    unfolding due_def bindS_def askO_def by (simp add: l retS_def es_def ys_def)
  have m: "mset ys = mset (map snd ?xs)" using assms(2) by (simp add: order_ok_def ys_def)
  have "distinct (map ob_event_id ys)"
  proof -
    have "mset (map ob_event_id ys) = mset (map ob_event_id (map snd ?xs))" using m by (metis mset_map)
    then have "mset (map ob_event_id ys) = mset (map fst ?xs)" using open_entries(2) [of E w] by simp
    then show ?thesis using open_entries(1) [of E w] by (metis mset_eq_imp_distinct_iff)
  qed
  then have "distinct (map ob_event_id (filter (\<lambda>e. ob_next_retry_ms e \<le> oe_now E (ow_tick w)) ys))" by (rule distinct_map_filter)
  moreover have "mset (map ob_event_id es) = mset (map ob_event_id (filter (\<lambda>e. ob_next_retry_ms e \<le> oe_now E (ow_tick w)) ys))"
    by (simp add: es_def)
  ultimately have ids: "distinct (map ob_event_id es)" by (metis mset_eq_imp_distinct_iff)
  have elems: "\<forall>e. e \<in> set es \<longleftrightarrow> pending E w (ob_event_id e) = Some e \<and> ob_next_retry_ms e \<le> oe_now E (ow_tick w)"
    using open_entries(3) [of _ E w] mset_eq_setD [OF m] by (auto simp: es_def)
  show ?thesis by (rule that [OF due ids elems]) (simp add: es_def)
qed

definition all_readable :: "'l outbox_env \<Rightarrow> 'l outbox_world \<Rightarrow> bool" where
  "all_readable E w = (\<forall>eid e. pending E w eid = Some e \<longrightarrow> readable e \<and> ob_attempts e < MAX_ATTEMPTS)"

lemma pump_progress:
  assumes "healthy E" "order_ok E" "whole (text_of w)" "all_readable E w"
  shows "\<exists>w'. pump_once E reg w = (Inr (), w') \<and> whole (text_of w') \<and> all_readable E w' \<and>
    (\<forall>eid. pending E w eid = None \<longrightarrow> pending E w' eid = None) \<and>
    (\<forall>eid e. pending E w eid = Some e \<longrightarrow> ob_next_retry_ms e \<le> oe_now E (ow_tick w) \<longrightarrow> progressed e (pending E w' eid))"
proof -
  have rd: "\<forall>t. oe_read_error E t = None" using assms(1) by (simp add: healthy_def)
  obtain es k where d: "due E w = (Inr es, w\<lparr>ow_tick := k\<rparr>)" "distinct (map ob_event_id es)"
    "\<forall>e. e \<in> set es \<longleftrightarrow> pending E w (ob_event_id e) = Some e \<and> ob_next_retry_ms e \<le> oe_now E (ow_tick w)"
    "sorted (map ob_enqueued_ms es)"
    by (rule due_entries [OF rd assms(2), of w])
  have p: "pending E (w\<lparr>ow_tick := k\<rparr>) = pending E w" by (simp add: pending_def)
  have "\<forall>e\<in>set es. pending E (w\<lparr>ow_tick := k\<rparr>) (ob_event_id e) = Some e \<and> ob_attempts e < MAX_ATTEMPTS \<and> readable e"
    using d(3) assms(4) unfolding p all_readable_def by blast
  moreover have "whole (text_of (w\<lparr>ow_tick := k\<rparr>))" using assms(3) by simp
  ultimately obtain w' where w': "deliver_all E reg es (w\<lparr>ow_tick := k\<rparr>) = (Inr (), w')" "whole (text_of w')"
    "\<forall>e\<in>set es. progressed e (pending E w' (ob_event_id e))"
    "\<forall>eid. eid \<notin> ob_event_id ` set es \<longrightarrow> pending E w' eid = pending E w eid"
    using deliver_all_pending [OF assms(1) _ d(2), of "w\<lparr>ow_tick := k\<rparr>" reg] unfolding p by blast
  have "pump_once E reg w = (Inr (), w')" using d(1) w'(1) by (simp add: pump_once_def bindS_def map_errS_def)
  moreover have "all_readable E w'"
    unfolding all_readable_def
  proof (intro allI impI)
    fix eid e'
    assume e': "pending E w' eid = Some e'"
    show "readable e' \<and> ob_attempts e' < MAX_ATTEMPTS"
    proof (cases "eid \<in> ob_event_id ` set es")
      case True
      then obtain e where e: "e \<in> set es" "eid = ob_event_id e" by blast
      have "progressed e (Some e')" using w'(3) e e' by fastforce
      moreover have "readable e" using d(3) e(1) assms(4) unfolding all_readable_def by blast
      ultimately show ?thesis by (simp add: progressed_def readable_def)
    next
      case False
      then have "pending E w eid = Some e'" using w'(4) e' by simp
      then show ?thesis using assms(4) by (simp add: all_readable_def)
    qed
  qed
  moreover have "pending E w' eid = None" if "pending E w eid = None" for eid
  proof -
    have "eid \<notin> ob_event_id ` set es" using that d(3) by auto
    then show ?thesis using w'(4) that by simp
  qed
  moreover have "progressed e (pending E w' eid)" if "pending E w eid = Some e" "ob_next_retry_ms e \<le> oe_now E (ow_tick w)" for eid e
  proof -
    have "eid = ob_event_id e" using pending_ok [OF that(1)] by simp
    then show ?thesis using w'(3) d(3) that by simp
  qed
  ultimately show ?thesis using w'(2) by (intro exI [of _ w']) simp
qed

text \<open>
  C21. The retry budget drains the outbox. On a healthy disk, with entries that name known entities and events, every pass of
  the worker returns, and an event that is due in each of eight passes is no longer open after them: it was delivered or went to the dead
  letters.
\<close>

theorem outbox_is_drained:
  assumes "healthy E" "order_ok E" "whole (text_of (ws 0))" "all_readable E (ws 0)"
    and "\<forall>i. ws (Suc i) = snd (pump_once E reg (ws i))"
    and "\<forall>i<MAX_ATTEMPTS. \<forall>e. pending E (ws i) eid = Some e \<longrightarrow> ob_next_retry_ms e \<le> oe_now E (ow_tick (ws i))"
  shows "(\<forall>i. fst (pump_once E reg (ws i)) = Inr ()) \<and> pending E (ws MAX_ATTEMPTS) eid = None"
proof -
  have i: "whole (text_of (ws i)) \<and> all_readable E (ws i) \<and> fst (pump_once E reg (ws i)) = Inr () \<and>
      (i \<le> MAX_ATTEMPTS \<longrightarrow> (\<forall>e. pending E (ws i) eid = Some e \<longrightarrow> i \<le> ob_attempts e))" for i
  proof (induction i)
    case 0
    from pump_progress [OF assms(1-4), of reg] have "fst (pump_once E reg (ws 0)) = Inr ()" by (elim exE conjE) simp
    then show ?case using assms(3,4) by simp
  next
    case (Suc i)
    obtain w' where w': "pump_once E reg (ws i) = (Inr (), w')" "whole (text_of w')" "all_readable E w'"
        "pending E (ws i) eid = None \<Longrightarrow> pending E w' eid = None"
        "\<And>e. pending E (ws i) eid = Some e \<Longrightarrow> ob_next_retry_ms e \<le> oe_now E (ow_tick (ws i)) \<Longrightarrow> progressed e (pending E w' eid)"
      using pump_progress [OF assms(1,2), of "ws i" reg] Suc.IH by blast
    have s: "ws (Suc i) = w'" using assms(5) w'(1) by simp
    have "Suc i \<le> ob_attempts e'" if "Suc i \<le> MAX_ATTEMPTS" "pending E w' eid = Some e'" for e'
    proof (cases "pending E (ws i) eid")
      case (Some e)
      then have "progressed e (pending E w' eid)" using assms(6) that(1) by (intro w'(5)) auto
      then show ?thesis using Some that Suc.IH by (auto simp: progressed_def)
    qed (use w'(4) that in simp)
    moreover have "fst (pump_once E reg w') = Inr ()" using pump_progress [OF assms(1,2) w'(2,3), of reg] by (elim exE conjE) simp
    ultimately show ?case using w'(2,3) s by simp
  qed
  have "pending E (ws MAX_ATTEMPTS) eid = None"
  proof (rule ccontr)
    assume "pending E (ws MAX_ATTEMPTS) eid \<noteq> None"
    then obtain e where "pending E (ws MAX_ATTEMPTS) eid = Some e" by blast
    then show False using i [of MAX_ATTEMPTS] by (fastforce simp: all_readable_def)
  qed
  then show ?thesis using i by blast
qed

section \<open>What blocks and what loses an event\<close>

lemma sorted_head:
  assumes "sorted (map k xs)" "e \<in> set xs" "\<forall>y\<in>set xs. y \<noteq> e \<longrightarrow> k e < (k y :: nat)"
  shows "\<exists>ys. xs = e # ys"
proof (cases xs)
  case (Cons y ys)
  then have "k y \<le> k e" using assms(1,2) by auto
  then have "y = e" using assms(3) Cons by (metis leD list.set_intros(1))
  then show ?thesis using Cons by simp
qed (use assms(2) in simp)

lemma poisoned_pump:
  assumes "\<forall>t. oe_read_error E t = None" "order_ok E" "pending E w eid = Some e" "\<not> readable e" "\<forall>t. ob_next_retry_ms e \<le> oe_now E t"
    and "\<forall>eid' e'. pending E w eid' = Some e' \<longrightarrow> eid' \<noteq> eid \<longrightarrow> ob_enqueued_ms e < ob_enqueued_ms e'"
  shows "\<exists>x k. pump_once E reg w = (Inl x, w\<lparr>ow_tick := k\<rparr>)"
proof -
  obtain es k where d: "due E w = (Inr es, w\<lparr>ow_tick := k\<rparr>)" "distinct (map ob_event_id es)"
    "\<forall>e. e \<in> set es \<longleftrightarrow> pending E w (ob_event_id e) = Some e \<and> ob_next_retry_ms e \<le> oe_now E (ow_tick w)"
    "sorted (map ob_enqueued_ms es)"
    by (rule due_entries [OF assms(1,2), of w])
  have id: "ob_event_id e = eid" using pending_ok [OF assms(3)] by simp
  then have "e \<in> set es" using d(3) assms(3,5) by simp
  moreover have "\<forall>y\<in>set es. y \<noteq> e \<longrightarrow> ob_enqueued_ms e < ob_enqueued_ms y"
    using d(3) assms(3,6) id by (metis option.inject)
  ultimately obtain ys where es: "es = e # ys" using sorted_head [OF d(4)] by blast
  have "\<exists>x. deliver E reg e v = (Inl x, v)" for v
    using assms(4) by (auto simp: readable_def deliver_def throwS_def split: option.splits)
  then obtain x where "deliver E reg e (w\<lparr>ow_tick := k\<rparr>) = (Inl x, w\<lparr>ow_tick := k\<rparr>)" by blast
  then show ?thesis by (intro exI [of _ x] exI [of _ k]) (simp add: pump_once_def bindS_def map_errS_def d(1) es)
qed

text \<open>
  C39. One unreadable entry stops the worker. When the oldest open entry names an unknown entity or event, every pass of the
  worker fails at it: however often the worker polls, nothing is delivered, acknowledged, retried or dead-lettered.
\<close>

theorem unreadable_entry_blocks_worker:
  assumes "\<forall>t. oe_read_error E t = None" "order_ok E" "pending E w eid = Some e" "\<not> readable e" "\<forall>t. ob_next_retry_ms e \<le> oe_now E t"
    and "\<forall>eid' e'. pending E w eid' = Some e' \<longrightarrow> eid' \<noteq> eid \<longrightarrow> ob_enqueued_ms e < ob_enqueued_ms e'"
  shows "\<exists>k. polls E reg n w = (Inr (), w\<lparr>ow_tick := k\<rparr>)"
  using assms(3,6)
proof (induction n arbitrary: w)
  case 0
  show ?case by (intro exI [of _ "ow_tick w"]) (simp add: retS_def)
next
  case (Suc n)
  obtain x k where p: "pump_once E reg w = (Inl x, w\<lparr>ow_tick := k\<rparr>)"
    using poisoned_pump [OF assms(1,2) Suc.prems(1) assms(4,5) Suc.prems(2), of reg] by blast
  have q: "pending E (w\<lparr>ow_tick := k\<rparr>) = pending E w" by (simp add: pending_def)
  obtain k' where "polls E reg n (w\<lparr>ow_tick := k\<rparr>) = (Inr (), w\<lparr>ow_tick := k\<rparr>\<lparr>ow_tick := k'\<rparr>)"
    using Suc.IH [of "w\<lparr>ow_tick := k\<rparr>"] Suc.prems unfolding q by blast
  then show ?case by (intro exI [of _ k']) (simp add: bindS_def okS_def p)
qed

text \<open>
  C38. A torn line swallows the next event. When the file ends in a torn line, as after a crash in the middle of an append, and
  the torn text followed by an entry is not JSON, the next event is enqueued with success, synced, and nevertheless not part of the outbox.
\<close>

theorem torn_line_loses_event:
  assumes "\<forall>t. oe_append E t = Appended" "text_ok E" "text_of w = t @ torn" "whole t" "newline \<notin> set torn"
    and "\<forall>v. oe_from_str E (trim (torn @ oe_to_string E v)) = None"
  shows "\<exists>w'. enqueue E eid en ev di doc ac w = (Inr (), w') \<and> pending E w' = map_of (unacked (scan E t))"
proof -
  obtain v w' where w': "enqueue E eid en ev di doc ac w = (Inr (), w')" "text_of w' = t @ (torn @ oe_to_string E v) @ [newline]"
    using assms(1,3) by (simp add: enqueue_def bindS_def askO_def outbox_append_def modifyS_def text_of_def grow_def split: option.splits)
  let ?l = "torn @ oe_to_string E v"
  have t: "trim (oe_to_string E v) = oe_to_string E v" "oe_to_string E v \<noteq> []" "newline \<notin> set (oe_to_string E v)"
    using assms(2) by (auto simp: text_ok_def)
  have "last ?l \<noteq> CHR 0x0D" using trimmed_last [OF t(1,2)] t(2) by (auto simp: is_space_def byte_of_def)
  then have "text_lines (?l @ [newline]) = [?l]" using t assms(5) text_lines_line [of ?l] by (simp add: strip_cr_def)
  then have "scan E (text_of w') = scan_line E ?l (scan E t)" using w'(2) scan_append [OF assms(4), of E "?l @ [newline]"] by simp
  also have "\<dots> = scan E t" using assms(6) by (simp add: scan_line_def Let_def)
  finally show ?thesis using w'(1) by (auto simp: pending_def)
qed

section \<open>An outbox with one entry\<close>

definition ex_outbox_env :: "json outbox_env" where
  "ex_outbox_env = \<lparr>oe_hooks = ex_hook_env ''maybe'' NoFile, oe_to_string = ex_text, oe_from_str = ex_parse, oe_now = (\<lambda>_. u64_max),
     oe_read_error = (\<lambda>_. None), oe_append = (\<lambda>_. Appended), oe_order = (\<lambda>_ xs. xs)\<rparr>"

definition ex_entry :: "string \<Rightarrow> outbox_entry" where
  "ex_entry entity = \<lparr>ob_event_id = ''e'', ob_entity = entity, ob_event = ''on_update'', ob_doc_id = ''d'', ob_doc = JNull, ob_actor = ''a'',
     ob_enqueued_ms = 1, ob_attempts = 0, ob_next_retry_ms = 1, ob_last_error = None\<rparr>"

definition ex_outbox_world :: "string \<Rightarrow> json outbox_world" where
  "ex_outbox_world entity = \<lparr>ow_hooks = ex_hook_world, ow_outbox = Some (ex_text (outbox_entry_json (ex_entry entity)) @ [newline]),
     ow_dead = None, ow_tick = 0\<rparr>"

lemma ex_text_ok: "text_ok ex_outbox_env"
  using ex_text_line unfolding text_ok_def one_line_def ex_outbox_env_def by simp

lemma ex_healthy: "healthy ex_outbox_env" "order_ok ex_outbox_env"
  using ex_text_ok by (simp_all add: healthy_def clock_ok_def order_ok_def) (simp_all add: ex_outbox_env_def)

lemma ex_whole: "whole (text_of (ex_outbox_world entity))"
  by (simp add: ex_outbox_world_def text_of_def whole_def)

lemma ex_pending: "pending ex_outbox_env (ex_outbox_world entity) = [''e'' \<mapsto> ex_entry entity]"
proof -
  have e: "entry_ok (ex_entry entity)" by (simp add: entry_ok_def ex_entry_def u64_max_def u32_range_def)
  have "text_of (ex_outbox_world entity) = [] @ oe_to_string ex_outbox_env (outbox_entry_json (ex_entry entity)) @ [newline]"
    by (simp add: ex_outbox_world_def text_of_def ex_outbox_env_def)
  then have "scan ex_outbox_env (text_of (ex_outbox_world entity)) = ([(''e'', ex_entry entity)], [])"
    using scan_entry [OF ex_text_ok e, of "[]"] by (simp add: whole_def scan_def text_lines_def) (simp add: ex_entry_def)
  then show ?thesis by (simp add: pending_def unacked_def)
qed


theorem outbox_refines_map_witness:
  "\<exists>w'. ack ex_outbox_env ''e'' (ex_outbox_world ''Session'') = (Inr (), w') \<and>
     abs_step\<^sup>*\<^sup>* (abs_of ex_outbox_env (ex_outbox_world ''Session'')) (abs_of ex_outbox_env w')"
proof -
  obtain w' where w': "ack ex_outbox_env ''e'' (ex_outbox_world ''Session'') = (Inr (), w')"
    using healthy_ack [OF ex_healthy(1) ex_whole] by blast
  show ?thesis using outbox_refines_map [OF healthy_sound [OF ex_healthy(1)] ex_whole step_ack [OF w']] w' by blast
qed

lemma ex_parses: "doc_type_parse ''Session'' = Some Session" "doc_event_parse ''on_update'' = Some OnUpdate" "\<not> is_sync OnUpdate"
  by (simp_all add: doc_type_parse_def doc_types_def doc_event_parse_def doc_events_def is_sync_def)

theorem delivery_settles_entry_witness:
  "\<exists>w'. deliver ex_outbox_env empty_registry (ex_entry ''Session'') (ex_outbox_world ''Session'') = (Inr (), w') \<and> whole (text_of w')"
proof -
  have "pending ex_outbox_env (ex_outbox_world ''Session'') (ob_event_id (ex_entry ''Session'')) = Some (ex_entry ''Session'')"
    "doc_type_parse (ob_entity (ex_entry ''Session'')) = Some Session" "doc_event_parse (ob_event (ex_entry ''Session'')) = Some OnUpdate"
    using ex_pending ex_parses by (simp_all add: ex_entry_def)
  from delivery_settles_entry [OF ex_healthy(1) ex_whole this ex_parses(3), of empty_registry] show ?thesis by blast
qed

theorem outbox_is_drained_witness:
  "pending ex_outbox_env (((\<lambda>w. snd (pump_once ex_outbox_env ex_hook_reg w)) ^^ MAX_ATTEMPTS) (ex_outbox_world ''Session'')) ''e'' = None"
proof -
  let ?ws = "\<lambda>i. ((\<lambda>w. snd (pump_once ex_outbox_env ex_hook_reg w)) ^^ i) (ex_outbox_world ''Session'')"
  have r: "all_readable ex_outbox_env (?ws 0)"
    using ex_pending ex_parses by (simp add: all_readable_def readable_def MAX_ATTEMPTS_def ex_entry_def)
  have d: "\<forall>i<MAX_ATTEMPTS. \<forall>e. pending ex_outbox_env (?ws i) ''e'' = Some e \<longrightarrow> ob_next_retry_ms e \<le> oe_now ex_outbox_env (ow_tick (?ws i))"
    by (auto simp: ex_outbox_env_def entry_ok_def dest!: pending_ok)
  show ?thesis using outbox_is_drained [OF ex_healthy, of ?ws ex_hook_reg "''e''"] ex_whole r d by simp
qed

theorem unreadable_entry_blocks_worker_witness:
  "\<exists>k. polls ex_outbox_env empty_registry 100 (ex_outbox_world ''Nope'') = (Inr (), (ex_outbox_world ''Nope'')\<lparr>ow_tick := k\<rparr>)"
proof (rule unreadable_entry_blocks_worker)
  show "pending ex_outbox_env (ex_outbox_world ''Nope'') ''e'' = Some (ex_entry ''Nope'')" using ex_pending by simp
  show "\<not> readable (ex_entry ''Nope'')" by (simp add: readable_def ex_entry_def doc_type_parse_def doc_types_def)
  show "\<forall>t. ob_next_retry_ms (ex_entry ''Nope'') \<le> oe_now ex_outbox_env t" by (simp add: ex_entry_def ex_outbox_env_def u64_max_def)
qed (use ex_healthy ex_pending in \<open>simp_all add: healthy_def\<close>)

definition ex_torn_world :: "json outbox_world" where
  "ex_torn_world = \<lparr>ow_hooks = ex_hook_world, ow_outbox = Some ''{1'', ow_dead = None, ow_tick = 0\<rparr>"

theorem torn_line_loses_event_witness:
  "\<exists>w'. enqueue ex_outbox_env ''e'' ''Session'' ''on_update'' ''d'' JNull ''a'' ex_torn_world = (Inr (), w') \<and>
     pending ex_outbox_env w' = Map.empty"
proof -
  have "ex_parse (trim (''{1'' @ ex_text v)) = None" for v
  proof -
    have "trim (''{1'' @ ex_text v) = ''{1'' @ ex_text v" by (rule trim_id) (simp_all add: ex_text_def is_space_def byte_of_def)
    then show ?thesis by (simp add: ex_parse_def ex_text_def is_ascii_digit_def byte_of_def)
  qed
  then show ?thesis
    using torn_line_loses_event [OF _ ex_text_ok, of ex_torn_world "[]" "''{1''" "''e''" "''Session''" "''on_update''" "''d''" JNull "''a''"]
    by (simp add: ex_torn_world_def text_of_def whole_def newline_def scan_def text_lines_def unacked_def ex_outbox_env_def)
qed

end
