(* ===== verification/Grant_Store.thy ===== *)
theory Grant_Store
  imports Text_Files
begin

text \<open>
  The store of remembered approvals (\<^verbatim>\<open>supercli-core/src/grant_store.rs\<close>) and the mutations of its writer
  (\<^verbatim>\<open>grant_writer.rs\<close>, \<open>apply_grant_mutation\<close>): one JSON object with five kinds of grants, their flattened audit keys, and
  edits of the file under optimistic concurrency control. A file is its bytes. Other processes may change the file before a
  lock is taken; the disk may fail at every step.
\<close>

section \<open>The grants object\<close>

type_synonym json_map = "(string \<times> json) list"

text \<open>The pairs of an object, each key once.\<close>

definition pairs :: "json_map \<Rightarrow> (string \<times> json) list" where
  "pairs m = map (\<lambda>k. (k, the (map_of m k))) (remdups (map fst m))"

definition opt_pairs :: "json option \<Rightarrow> (string \<times> json) list" where
  "opt_pairs v = (case Option.bind v as_object of None \<Rightarrow> [] | Some m \<Rightarrow> pairs m)"

definition opt_elems :: "json option \<Rightarrow> json list" where
  "opt_elems v = (case Option.bind v as_array of None \<Rightarrow> [] | Some xs \<Rightarrow> xs)"

definition escape_component :: "string \<Rightarrow> string" where
  "escape_component s = replace_char CHR '':'' ''%3A'' (replace_char CHR ''%'' ''%25'' s)"

definition unescape_component :: "string \<Rightarrow> string" where
  "unescape_component s = str_replace ''%25'' ''%'' (str_replace ''%3A'' '':'' s)"

definition key2 :: "string \<Rightarrow> string \<Rightarrow> string" where
  "key2 kind a = kind @ '':'' @ escape_component a"

definition key3 :: "string \<Rightarrow> string \<Rightarrow> string \<Rightarrow> string" where
  "key3 kind a b = kind @ '':'' @ escape_component a @ '':'' @ escape_component b"

definition key4 :: "string \<Rightarrow> string \<Rightarrow> string \<Rightarrow> string \<Rightarrow> string" where
  "key4 kind a b c = kind @ '':'' @ escape_component a @ '':'' @ escape_component b @ '':'' @ escape_component c"

definition nested_keys :: "string \<Rightarrow> string \<Rightarrow> json_map \<Rightarrow> string list" where
  "nested_keys json_key kind root =
     concat (map (\<lambda>(caller, list). map (key3 kind caller) (List.map_filter as_str (opt_elems (Some list)))) (opt_pairs (map_of root json_key)))"

definition flat_keys :: "string \<Rightarrow> string \<Rightarrow> json_map \<Rightarrow> string list" where
  "flat_keys json_key kind root = map (key2 kind) (List.map_filter as_str (opt_elems (map_of root json_key)))"

definition connector_of :: "json \<Rightarrow> (string \<times> string) option" where
  "connector_of entry = (case (get_str ''connector'' entry, get_str ''tool'' entry) of (Some c, Some t) \<Rightarrow> Some (c, t) | _ \<Rightarrow> None)"

definition connector_keys :: "json_map \<Rightarrow> string list" where
  "connector_keys root =
     concat (map (\<lambda>(caller, list). map (\<lambda>(c, t). key4 ''connector'' caller c t) (List.map_filter connector_of (opt_elems (Some list))))
       (opt_pairs (map_of root ''mcp_connector_approvals'')))"

definition flatten_grant_keys :: "json_map \<Rightarrow> string list" where
  "flatten_grant_keys root =
     nested_keys ''mcp_write_approvals'' ''write'' root @ flat_keys ''browser_approvals'' ''browser'' root @
     flat_keys ''computer_approvals'' ''computer'' root @ nested_keys ''mcp_app_open_approvals'' ''app-open'' root @ connector_keys root"

definition grant_exists :: "json_map \<Rightarrow> string \<Rightarrow> string \<Rightarrow> string option \<Rightarrow> bool" where
  "grant_exists m key caller target =
     (if key = ''mcp_write_approvals'' \<or> key = ''mcp_app_open_approvals'' then
        (case target of
           None \<Rightarrow> False
         | Some t \<Rightarrow> list_ex (\<lambda>v. as_str v = Some t) (opt_elems (Option.bind (map_of m key) (json_get caller))))
      else if key = ''browser_approvals'' \<or> key = ''computer_approvals'' then
        list_ex (\<lambda>v. as_str v = Some caller) (opt_elems (map_of m key))
      else False)"

text \<open>\<^verbatim>\<open>retain\<close> on the list of a caller, and on a list at the top.\<close>

definition retain_nested :: "string \<Rightarrow> string \<Rightarrow> (json \<Rightarrow> bool) \<Rightarrow> json_map \<Rightarrow> json_map" where
  "retain_nested json_key caller keep root =
     (case map_of root json_key of
        Some (JObj m) \<Rightarrow>
          (case map_of m caller of
             Some (JArr xs) \<Rightarrow> obj_insert json_key (JObj (obj_insert caller (JArr (filter keep xs)) m)) root
           | _ \<Rightarrow> root)
      | _ \<Rightarrow> root)"

definition retain_flat :: "string \<Rightarrow> (json \<Rightarrow> bool) \<Rightarrow> json_map \<Rightarrow> json_map" where
  "retain_flat json_key keep root =
     (case map_of root json_key of Some (JArr xs) \<Rightarrow> obj_insert json_key (JArr (filter keep xs)) root | _ \<Rightarrow> root)"

definition remove_key :: "string \<Rightarrow> json_map \<Rightarrow> json_map" where
  "remove_key key root =
     (case map unescape_component (split_on CHR '':'' key) of
        [kind, a] \<Rightarrow>
          if kind = ''browser'' then retain_flat ''browser_approvals'' (\<lambda>v. as_str v \<noteq> Some a) root
          else if kind = ''computer'' then retain_flat ''computer_approvals'' (\<lambda>v. as_str v \<noteq> Some a) root
          else root
      | [kind, a, b] \<Rightarrow>
          if kind = ''write'' then retain_nested ''mcp_write_approvals'' a (\<lambda>v. as_str v \<noteq> Some b) root
          else if kind = ''app-open'' then retain_nested ''mcp_app_open_approvals'' a (\<lambda>v. as_str v \<noteq> Some b) root
          else root
      | [kind, a, b, c] \<Rightarrow>
          if kind = ''connector'' then
            retain_nested ''mcp_connector_approvals'' a (\<lambda>v. \<not> (get_str ''connector'' v = Some b \<and> get_str ''tool'' v = Some c)) root
          else root
      | _ \<Rightarrow> root)"

text \<open>\<^verbatim>\<open>entry(..).or_insert_with(..)\<close>, and a push into the list of a caller unless the value is there.\<close>

definition or_insert :: "string \<Rightarrow> json \<Rightarrow> json_map \<Rightarrow> json_map" where
  "or_insert k v m = (case map_of m k of None \<Rightarrow> obj_insert k v m | Some _ \<Rightarrow> m)"

definition push_flat :: "string \<Rightarrow> json \<Rightarrow> json_map \<Rightarrow> json_map" where
  "push_flat k item m =
     (let m1 = or_insert k (JArr []) m in
      case map_of m1 k of
        Some (JArr xs) \<Rightarrow> if item \<in> set xs then m1 else obj_insert k (JArr (xs @ [item])) m1
      | _ \<Rightarrow> m1)"

definition push_nested :: "string \<Rightarrow> string \<Rightarrow> json \<Rightarrow> json_map \<Rightarrow> json_map" where
  "push_nested json_key caller item root =
     (let r1 = or_insert json_key (JObj []) root in
      case map_of r1 json_key of
        Some (JObj m) \<Rightarrow> obj_insert json_key (JObj (push_flat caller item m)) r1
      | _ \<Rightarrow> r1)"

definition apply_grant_mutation :: "string \<Rightarrow> string \<Rightarrow> string option \<Rightarrow> json_map \<Rightarrow> json_map" where
  "apply_grant_mutation kind caller target root =
     (if kind = ''write'' then
        (case target of None \<Rightarrow> root | Some t \<Rightarrow> push_nested ''mcp_write_approvals'' caller (JStr t) root)
      else if kind = ''browser'' then push_flat ''browser_approvals'' (JStr caller) root
      else if kind = ''computer'' then push_flat ''computer_approvals'' (JStr caller) root
      else if kind = ''app-open'' then
        (case target of None \<Rightarrow> root | Some t \<Rightarrow> push_nested ''mcp_app_open_approvals'' caller (JStr t) root)
      else if kind = ''connector'' then
        (case Option.bind target (split_once CHR '':'') of
           None \<Rightarrow> root
         | Some (c, t) \<Rightarrow> push_nested ''mcp_connector_approvals'' caller (json_obj [(''connector'', JStr c), (''tool'', JStr t)]) root)
      else root)"

section \<open>Grants and their keys\<close>

text \<open>The five kinds of grants a store can hold.\<close>

datatype grant =
    GrantWrite string string
  | GrantBrowser string
  | GrantComputer string
  | GrantAppOpen string string
  | GrantConnector string string string

fun grant_key :: "grant \<Rightarrow> string" where
  "grant_key (GrantWrite c t) = key3 ''write'' c t"
| "grant_key (GrantBrowser c) = key2 ''browser'' c"
| "grant_key (GrantComputer c) = key2 ''computer'' c"
| "grant_key (GrantAppOpen c t) = key3 ''app-open'' c t"
| "grant_key (GrantConnector c n t) = key4 ''connector'' c n t"

definition flat_at :: "string \<Rightarrow> (json \<Rightarrow> bool) \<Rightarrow> json_map \<Rightarrow> bool" where
  "flat_at k P m = (case map_of m k of Some (JArr xs) \<Rightarrow> list_ex P xs | _ \<Rightarrow> False)"

definition nested_at :: "string \<Rightarrow> string \<Rightarrow> (json \<Rightarrow> bool) \<Rightarrow> json_map \<Rightarrow> bool" where
  "nested_at json_key caller P root = (case map_of root json_key of Some (JObj m) \<Rightarrow> flat_at caller P m | _ \<Rightarrow> False)"

fun holds :: "json_map \<Rightarrow> grant \<Rightarrow> bool" where
  "holds root (GrantWrite c t) = nested_at ''mcp_write_approvals'' c (\<lambda>v. v = JStr t) root"
| "holds root (GrantBrowser c) = flat_at ''browser_approvals'' (\<lambda>v. v = JStr c) root"
| "holds root (GrantComputer c) = flat_at ''computer_approvals'' (\<lambda>v. v = JStr c) root"
| "holds root (GrantAppOpen c t) = nested_at ''mcp_app_open_approvals'' c (\<lambda>v. v = JStr t) root"
| "holds root (GrantConnector c n t) =
     nested_at ''mcp_connector_approvals'' c (\<lambda>v. get_str ''connector'' v = Some n \<and> get_str ''tool'' v = Some t) root"

lemma escape_Nil [simp]: "escape_component [] = []"
  by (simp add: escape_component_def)

lemma escape_Cons [simp]:
  "escape_component (x # s) = (if x = CHR ''%'' then ''%25'' else if x = CHR '':'' then ''%3A'' else [x]) @ escape_component s"
  by (simp add: escape_component_def)

lemma escape_no_colon [simp]: "CHR '':'' \<notin> set (escape_component s)"
  by (induction s) auto

lemma unescape_colons: "str_replace ''%3A'' '':'' (escape_component s) = replace_char CHR ''%'' ''%25'' s"
  by (induction s) (simp_all add: str_replace_def numeral_eq_Suc)

lemma unescape_percents: "str_replace ''%25'' ''%'' (replace_char CHR ''%'' ''%25'' s) = s"
  by (induction s) (simp_all add: str_replace_def numeral_eq_Suc)

lemma unescape_escape [simp]: "unescape_component (escape_component s) = s"
  by (simp add: unescape_component_def unescape_colons unescape_percents)

lemma escape_inj [simp]: "escape_component s = escape_component t \<longleftrightarrow> s = t"
  by (metis unescape_escape)

definition plain :: "string \<Rightarrow> bool" where
  "plain k = (CHR '':'' \<notin> set k \<and> unescape_component k = k)"

lemma split_keys:
  assumes "plain kind"
  shows "map unescape_component (split_on CHR '':'' (key2 kind a)) = [kind, a]"
    and "map unescape_component (split_on CHR '':'' (key3 kind a b)) = [kind, a, b]"
    and "map unescape_component (split_on CHR '':'' (key4 kind a b c)) = [kind, a, b, c]"
  using assms by (simp_all add: plain_def key2_def key3_def key4_def split_on_Cons_sep split_on_no_sep)

lemma plain_kinds [simp]: "plain ''write''" "plain ''browser''" "plain ''computer''" "plain ''app-open''" "plain ''connector''"
  by (simp_all add: plain_def unescape_component_def str_replace_def)

lemma grant_key_inj [simp]: "grant_key g = grant_key h \<longleftrightarrow> g = h"
proof
  assume "grant_key g = grant_key h"
  then have "map unescape_component (split_on CHR '':'' (grant_key g)) = map unescape_component (split_on CHR '':'' (grant_key h))" by simp
  then show "g = h" by (cases g; cases h) (simp_all add: split_keys)
qed simp

lemma in_pairs: "(k, v) \<in> set (pairs m) \<longleftrightarrow> map_of m k = Some v"
proof -
  have "k \<in> fst ` set m \<longleftrightarrow> map_of m k \<noteq> None" by (simp add: map_of_eq_None_iff)
  then show ?thesis by (auto simp: pairs_def image_iff)
qed

lemma map_filter_set: "x \<in> set (List.map_filter f xs) \<longleftrightarrow> (\<exists>v\<in>set xs. f v = Some x)"
  by (force simp: List.map_filter_def)

lemma as_str_Some [simp]: "as_str v = Some t \<longleftrightarrow> v = JStr t"
  by (cases v) auto

lemma opt_elems_simps [simp]: "opt_elems (Some (JArr xs)) = xs" "opt_elems None = []"
  by (simp_all add: opt_elems_def)

lemma opt_elems_in: "v \<in> set (opt_elems x) \<longleftrightarrow> (\<exists>xs. x = Some (JArr xs) \<and> v \<in> set xs)"
  by (cases x; cases "the x") (auto simp: opt_elems_def)

lemma opt_pairs_in: "p \<in> set (opt_pairs x) \<longleftrightarrow> (\<exists>m. x = Some (JObj m) \<and> p \<in> set (pairs m))"
  by (cases x; cases "the x") (auto simp: opt_pairs_def)

lemma flat_at_iff: "flat_at k P m \<longleftrightarrow> (\<exists>v\<in>set (opt_elems (map_of m k)). P v)"
  by (auto simp: flat_at_def opt_elems_in list_ex_iff split: option.splits json.splits)

lemma nested_at_iff: "nested_at k c P root \<longleftrightarrow> (\<exists>m. map_of root k = Some (JObj m) \<and> flat_at c P m)"
  by (auto simp: nested_at_def split: option.splits json.splits)

lemma flat_keys_in: "x \<in> set (flat_keys k kind root) \<longleftrightarrow> (\<exists>a. x = key2 kind a \<and> flat_at k (\<lambda>v. v = JStr a) root)"
  by (auto simp: flat_keys_def flat_at_iff map_filter_set)

lemma nested_pairs:
  "nested_at k c P root \<longleftrightarrow> (\<exists>l. (c, l) \<in> set (opt_pairs (map_of root k)) \<and> (\<exists>v\<in>set (opt_elems (Some l)). P v))"
  unfolding nested_at_iff flat_at_iff opt_pairs_in in_pairs Bex_def opt_elems_in by blast

lemma nested_keys_in: "x \<in> set (nested_keys k kind root) \<longleftrightarrow> (\<exists>a b. x = key3 kind a b \<and> nested_at k a (\<lambda>v. v = JStr b) root)"
proof -
  have "x \<in> set (nested_keys k kind root) \<longleftrightarrow>
      (\<exists>a l. (a, l) \<in> set (opt_pairs (map_of root k)) \<and> (\<exists>b. JStr b \<in> set (opt_elems (Some l)) \<and> x = key3 kind a b))"
    by (simp add: nested_keys_def image_iff map_filter_set Bex_def split_paired_Ex) blast
  then show ?thesis unfolding nested_pairs by blast
qed

lemma connector_of_Some [simp]: "connector_of v = Some (c, t) \<longleftrightarrow> get_str ''connector'' v = Some c \<and> get_str ''tool'' v = Some t"
  by (auto simp: connector_of_def split: option.splits)

lemma connector_keys_in: "x \<in> set (connector_keys root) \<longleftrightarrow> (\<exists>a b c. x = key4 ''connector'' a b c \<and>
    nested_at ''mcp_connector_approvals'' a (\<lambda>v. get_str ''connector'' v = Some b \<and> get_str ''tool'' v = Some c) root)"
proof -
  have "x \<in> set (connector_keys root) \<longleftrightarrow> (\<exists>a l. (a, l) \<in> set (opt_pairs (map_of root ''mcp_connector_approvals'')) \<and>
      (\<exists>b c. (\<exists>v\<in>set (opt_elems (Some l)). connector_of v = Some (b, c)) \<and> x = key4 ''connector'' a b c))"
    by (simp add: connector_keys_def image_iff map_filter_set Bex_def split_paired_Ex del: connector_of_Some) blast
  then show ?thesis unfolding nested_pairs connector_of_Some by blast
qed

lemma ex_grant: "(\<exists>g. P g) \<longleftrightarrow> (\<exists>a b. P (GrantWrite a b)) \<or> (\<exists>a. P (GrantBrowser a)) \<or> (\<exists>a. P (GrantComputer a)) \<or>
    (\<exists>a b. P (GrantAppOpen a b)) \<or> (\<exists>a b c. P (GrantConnector a b c))"
  by (metis grant.exhaust)

lemma flatten_grants: "x \<in> set (flatten_grant_keys root) \<longleftrightarrow> (\<exists>g. x = grant_key g \<and> holds root g)"
  unfolding flatten_grant_keys_def ex_grant by (auto simp: flat_keys_in nested_keys_in connector_keys_in)

lemma flatten_key [simp]: "grant_key g \<in> set (flatten_grant_keys root) \<longleftrightarrow> holds root g"
  by (auto simp: flatten_grants)

section \<open>What removals and mutations change\<close>

lemma flat_at_retain_flat:
  "flat_at k P (retain_flat k' keep m) = (if k = k' then flat_at k (\<lambda>v. P v \<and> keep v) m else flat_at k P m)"
  by (auto simp: flat_at_def retain_flat_def list_ex_iff split: option.splits json.splits)

lemma nested_at_retain_flat: "k \<noteq> k' \<Longrightarrow> nested_at k c P (retain_flat k' keep m) = nested_at k c P m"
  by (auto simp: nested_at_def retain_flat_def split: option.splits json.splits)

lemma flat_at_retain_nested: "k \<noteq> k' \<Longrightarrow> flat_at k P (retain_nested k' c keep m) = flat_at k P m"
  by (auto simp: flat_at_def retain_nested_def split: option.splits json.splits)

lemma nested_at_retain_nested:
  "nested_at k c P (retain_nested k' c' keep m) = (if k = k' \<and> c = c' then nested_at k c (\<lambda>v. P v \<and> keep v) m else nested_at k c P m)"
  by (auto simp: nested_at_def retain_nested_def flat_at_def list_ex_iff split: option.splits json.splits)

lemma removed_str:
  "flat_at k (\<lambda>v. v = x \<and> v \<noteq> y) m \<longleftrightarrow> flat_at k (\<lambda>v. v = x) m \<and> x \<noteq> y"
  "nested_at k c (\<lambda>v. v = x \<and> v \<noteq> y) m \<longleftrightarrow> nested_at k c (\<lambda>v. v = x) m \<and> x \<noteq> y"
  by (auto simp: flat_at_iff nested_at_iff)

lemma nested_conj: "nested_at k c (\<lambda>v. P v \<and> Q) m \<longleftrightarrow> nested_at k c P m \<and> Q"
  by (auto simp: flat_at_iff nested_at_iff)

lemmas retain_simps = flat_at_retain_flat nested_at_retain_flat flat_at_retain_nested nested_at_retain_nested

lemma removed_connector:
  "nested_at k c (\<lambda>v. (get_str a v = Some n \<and> get_str b v = Some t) \<and> \<not> (get_str a v = Some n' \<and> get_str b v = Some t')) m \<longleftrightarrow>
   nested_at k c (\<lambda>v. get_str a v = Some n \<and> get_str b v = Some t) m \<and> (n, t) \<noteq> (n', t')"
proof -
  have "(\<lambda>v. (get_str a v = Some n \<and> get_str b v = Some t) \<and> \<not> (get_str a v = Some n' \<and> get_str b v = Some t')) =
      (\<lambda>v. (get_str a v = Some n \<and> get_str b v = Some t) \<and> (n, t) \<noteq> (n', t'))" by auto
  then show ?thesis by (simp only: nested_conj)
qed

lemma holds_remove: "holds (remove_key (grant_key g) m) h \<longleftrightarrow> holds m h \<and> h \<noteq> g"
  by (cases g; cases h; simp add: remove_key_def split_keys retain_simps removed_str removed_connector del: conj_assoc de_Morgan_conj; blast?)

definition remove_all :: "string list \<Rightarrow> json_map \<Rightarrow> json_map" where
  "remove_all keys m = fold remove_key keys m"

lemma holds_remove_all: "holds (remove_all (map grant_key gs) m) h \<longleftrightarrow> holds m h \<and> h \<notin> set gs"
  by (induction gs arbitrary: m) (auto simp: remove_all_def holds_remove)

text \<open>The place of a list is free or holds a list.\<close>

definition list_at :: "string \<Rightarrow> json_map \<Rightarrow> bool" where
  "list_at k m = (case map_of m k of None \<Rightarrow> True | Some v \<Rightarrow> as_array v \<noteq> None)"

definition lists_at :: "string \<Rightarrow> string \<Rightarrow> json_map \<Rightarrow> bool" where
  "lists_at k c m = (case map_of m k of None \<Rightarrow> True | Some v \<Rightarrow> (case as_object v of None \<Rightarrow> False | Some m' \<Rightarrow> list_at c m'))"

lemma flat_at_push_flat: "flat_at k P (push_flat k' item m) \<longleftrightarrow> flat_at k P m \<or> k = k' \<and> P item \<and> list_at k m"
  by (auto simp: flat_at_def push_flat_def or_insert_def list_at_def list_ex_iff Let_def split: option.splits json.splits)

lemma nested_at_push_flat: "k \<noteq> k' \<Longrightarrow> nested_at k c P (push_flat k' item m) = nested_at k c P m"
  by (auto simp: nested_at_def push_flat_def or_insert_def Let_def split: option.splits json.splits)

lemma flat_at_push_nested: "k \<noteq> k' \<Longrightarrow> flat_at k P (push_nested k' c item m) = flat_at k P m"
  by (auto simp: flat_at_def push_nested_def or_insert_def Let_def split: option.splits json.splits)

lemma flat_at_empty [simp]: "\<not> flat_at c P []" "list_at c []"
  by (simp_all add: flat_at_def list_at_def)

lemma nested_at_push_nested:
  "nested_at k c P (push_nested k' c' item m) \<longleftrightarrow> nested_at k c P m \<or> k = k' \<and> c = c' \<and> P item \<and> lists_at k c m"
  by (auto simp: nested_at_def push_nested_def or_insert_def lists_at_def flat_at_push_flat Let_def split: option.splits json.splits)

lemmas push_simps = flat_at_push_flat nested_at_push_flat flat_at_push_nested nested_at_push_nested

fun mutation :: "grant \<Rightarrow> string \<times> string \<times> string option" where
  "mutation (GrantWrite c t) = (''write'', c, Some t)"
| "mutation (GrantBrowser c) = (''browser'', c, None)"
| "mutation (GrantComputer c) = (''computer'', c, None)"
| "mutation (GrantAppOpen c t) = (''app-open'', c, Some t)"
| "mutation (GrantConnector c n t) = (''connector'', c, Some (n @ '':'' @ t))"

definition apply_mutation :: "string \<times> string \<times> string option \<Rightarrow> json_map \<Rightarrow> json_map" where
  "apply_mutation = (\<lambda>(kind, caller, target). apply_grant_mutation kind caller target)"

text \<open>There is room for a grant: the values on the way to its list have the expected shape.\<close>

fun room :: "json_map \<Rightarrow> grant \<Rightarrow> bool" where
  "room m (GrantWrite c t) = lists_at ''mcp_write_approvals'' c m"
| "room m (GrantBrowser c) = list_at ''browser_approvals'' m"
| "room m (GrantComputer c) = list_at ''computer_approvals'' m"
| "room m (GrantAppOpen c t) = lists_at ''mcp_app_open_approvals'' c m"
| "room m (GrantConnector c n t) = lists_at ''mcp_connector_approvals'' c m"

fun splittable :: "grant \<Rightarrow> bool" where
  "splittable (GrantConnector c n t) = (CHR '':'' \<notin> set n)"
| "splittable _ = True"

lemma connector_item: "get_str ''connector'' (json_obj [(''connector'', JStr n), (''tool'', JStr t)]) = Some n"
    "get_str ''tool'' (json_obj [(''connector'', JStr n), (''tool'', JStr t)]) = Some t"
  by (simp_all add: json_simps)

lemma holds_apply: "splittable g \<Longrightarrow> holds (apply_mutation (mutation g) m) h \<longleftrightarrow> holds m h \<or> h = g \<and> room m g"
  by (cases g; cases h) (auto simp: apply_mutation_def apply_grant_mutation_def push_simps split_once_no_sep connector_item)

section \<open>The files and the world around them\<close>

datatype replace_answer = Replaced | NotReplaced string | NotSynced string

record pending_grant =
  pg_actor :: string
  pg_scope :: string
  pg_tool :: string
  pg_key :: string
  pg_kind :: string
  pg_caller :: string
  pg_target :: "string option"

record grant_world =
  gw_grants :: "string option"
  gw_audit :: "string option"
  gw_quarantine :: "string option"
  gw_queue :: "pending_grant list"
  gw_acks :: "(pending_grant \<times> (string + unit)) list"
  gw_tick :: nat

record grant_env =
  ge_parse :: "string \<Rightarrow> json option"
  ge_to_vec_pretty :: "json \<Rightarrow> string"
  ge_to_line :: "json \<Rightarrow> string"
  ge_to_vec :: "json \<Rightarrow> string"
  ge_sha256 :: "string \<Rightarrow> string"
  ge_now :: "nat \<Rightarrow> nat"
  ge_uuid :: "nat \<Rightarrow> string"
  ge_read_ok :: "nat \<Rightarrow> bool"
  ge_read_audit :: "nat \<Rightarrow> string option"
  ge_lock :: "nat \<Rightarrow> string option"
  ge_replace :: "nat \<Rightarrow> replace_answer"
  ge_append :: "nat \<Rightarrow> append_answer"
  ge_others :: "nat \<Rightarrow> grant_world \<Rightarrow> grant_world"
  ge_order :: "nat \<Rightarrow> string list \<Rightarrow> string list"
  ge_writer_finished :: "nat \<Rightarrow> bool"

type_synonym 'a grant_op = "(grant_world, string, 'a) sm"

definition askG :: "(nat \<Rightarrow> 'a) \<Rightarrow> 'a grant_op" where
  "askG f w = (Inr (f (gw_tick w)), w\<lparr>gw_tick := Suc (gw_tick w)\<rparr>)"

text \<open>Other processes act while this one waits for a lock.\<close>

definition others :: "grant_env \<Rightarrow> unit grant_op" where
  "others E w = (Inr (), (ge_others E (gw_tick w) w)\<lparr>gw_tick := Suc (gw_tick w)\<rparr>)"

definition lock_file :: "grant_env \<Rightarrow> unit grant_op" where
  "lock_file E = bindS (others E) (\<lambda>_. bindS (askG (ge_lock E)) (\<lambda>err. case err of Some e \<Rightarrow> throwS e | None \<Rightarrow> retS ()))"

datatype grant_path = GrantsPath | QuarantinePath

fun put_file :: "grant_path \<Rightarrow> string \<Rightarrow> grant_world \<Rightarrow> grant_world" where
  "put_file GrantsPath b w = w\<lparr>gw_grants := Some b\<rparr>"
| "put_file QuarantinePath b w = w\<lparr>gw_quarantine := Some b\<rparr>"

text \<open>Write a temporary file, sync it, rename it over the target, sync the directory.\<close>

definition replace_file :: "grant_env \<Rightarrow> grant_path \<Rightarrow> string \<Rightarrow> unit grant_op" where
  "replace_file E path body =
     bindS (askG (ge_replace E)) (\<lambda>answer.
     case answer of
       NotReplaced e \<Rightarrow> throwS e
     | NotSynced e \<Rightarrow> bindS (modifyS (put_file path body)) (\<lambda>_. throwS e)
     | Replaced \<Rightarrow> modifyS (put_file path body))"

definition bytes_of :: "string option \<Rightarrow> string" where
  "bytes_of file = (case file of None \<Rightarrow> [] | Some b \<Rightarrow> b)"

text \<open>A file that cannot be read counts as empty.\<close>

definition read_grants :: "grant_env \<Rightarrow> string grant_op" where
  "read_grants E =
     bindS (askG (ge_read_ok E)) (\<lambda>ok.
     getS (\<lambda>w. if ok then bytes_of (gw_grants w) else []))"

definition parse_map :: "grant_env \<Rightarrow> string \<Rightarrow> json_map" where
  "parse_map E b = (case Option.bind (ge_parse E b) as_object of None \<Rightarrow> [] | Some m \<Rightarrow> m)"

definition load_grants :: "grant_env \<Rightarrow> json_map grant_op" where
  "load_grants E = bindS (read_grants E) (\<lambda>b. retS (parse_map E b))"

text \<open>One optimistic edit: \<open>None\<close> when the file changed in every one of \<open>fuel\<close> rounds.\<close>

fun edit_grants :: "nat \<Rightarrow> grant_env \<Rightarrow> (json_map \<Rightarrow> string + 'a \<times> json_map) \<Rightarrow> 'a option grant_op" where
  "edit_grants 0 E mutate = retS None"
| "edit_grants (Suc fuel) E mutate =
     bindS (read_grants E) (\<lambda>original.
     case mutate (parse_map E original) of
       Inl e \<Rightarrow> throwS e
     | Inr (x, m) \<Rightarrow>
         bindS (lock_file E) (\<lambda>_.
         bindS (read_grants E) (\<lambda>current.
         if current = original then
           bindS (replace_file E GrantsPath (ge_to_vec_pretty E (JObj m))) (\<lambda>_. retS (Some x))
         else edit_grants fuel E mutate)))"

definition remove_grants :: "nat \<Rightarrow> grant_env \<Rightarrow> string list \<Rightarrow> unit option grant_op" where
  "remove_grants fuel E keys = edit_grants fuel E (\<lambda>m. Inr ((), remove_all keys m))"

section \<open>Edits are atomic\<close>

text \<open>\<open>v\<close> is \<open>w\<close> up to what other processes did and the questions asked.\<close>

inductive drift :: "grant_env \<Rightarrow> grant_world \<Rightarrow> grant_world \<Rightarrow> bool" for E w where
  drift_refl: "drift E w w"
| drift_others: "drift E w v \<Longrightarrow> drift E w (ge_others E t v)"
| drift_tick: "drift E w v \<Longrightarrow> drift E w (v\<lparr>gw_tick := k\<rparr>)"

lemma drift_trans: "drift E w v \<Longrightarrow> drift E v u \<Longrightarrow> drift E w u"
  by (rotate_tac, induction rule: drift.induct) (auto intro: drift.intros)

lemma drift_drifts: "preserves (drift E w) (askG f)" "preserves (drift E w) (others E)"
  by (auto simp: preserves_def askG_def others_def intro: drift.intros)

lemma drift_lock: "preserves (drift E w) (lock_file E)"
  unfolding lock_file_def by (intro drift_drifts preserves_intros)

lemma drift_read: "preserves (drift E w) (read_grants E)"
  unfolding read_grants_def by (intro drift_drifts preserves_intros)

lemma read_result:
  "\<forall>t. ge_read_ok E t \<Longrightarrow> read_grants E w = (Inr (bytes_of (gw_grants w)), w\<lparr>gw_tick := Suc (gw_tick w)\<rparr>)"
  by (simp add: read_grants_def bindS_def askG_def getS_def)

text \<open>The state in which an edit replaced the file, and what it wrote.\<close>

definition edited :: "grant_env \<Rightarrow> (json_map \<Rightarrow> string + 'a \<times> json_map) \<Rightarrow> 'a \<Rightarrow> grant_world \<Rightarrow> grant_world \<Rightarrow> bool" where
  "edited E mutate x v w' = (\<exists>m k. mutate (parse_map E (bytes_of (gw_grants v))) = Inr (x, m) \<and>
     w' = v\<lparr>gw_grants := Some (ge_to_vec_pretty E (JObj m)), gw_tick := k\<rparr>)"

lemma edit_atomic:
  assumes "\<forall>t. ge_read_ok E t" "edit_grants n E mutate w = (Inr (Some x), w')"
  shows "\<exists>v. drift E w v \<and> edited E mutate x v w'"
  using assms(2)
proof (induction n arbitrary: w)
  case 0
  then show ?case by (simp add: retS_def)
next
  case (Suc n)
  let ?o = "bytes_of (gw_grants w)" and ?w1 = "w\<lparr>gw_tick := Suc (gw_tick w)\<rparr>"
  obtain y m where y: "mutate (parse_map E ?o) = Inr (y, m)"
    using Suc.prems by (cases "mutate (parse_map E ?o)") (auto simp: bindS_def read_result [OF assms(1)] throwS_def)
  obtain w2 where l: "lock_file E ?w1 = (Inr (), w2)"
    using Suc.prems y by (cases "lock_file E ?w1"; cases "fst (lock_file E ?w1)") (auto simp: bindS_def read_result [OF assms(1)])
  have d: "drift E w w2" using preservesD [OF drift_lock _ l] drift_tick [OF drift_refl] by blast
  let ?w3 = "w2\<lparr>gw_tick := Suc (gw_tick w2)\<rparr>"
  show ?case
  proof (cases "bytes_of (gw_grants w2) = ?o")
    case True
    then have "w' = ?w3\<lparr>gw_grants := Some (ge_to_vec_pretty E (JObj m)), gw_tick := Suc (gw_tick ?w3)\<rparr>" "x = y"
      using Suc.prems y l
      by (auto simp: bindS_def read_result [OF assms(1)] replace_file_def askG_def throwS_def modifyS_def retS_def split: replace_answer.splits)
    then show ?thesis using d y True unfolding edited_def by (intro exI [of _ w2]) auto
  next
    case False
    then have "edit_grants n E mutate ?w3 = (Inr (Some x), w')"
      using Suc.prems y l by (auto simp: bindS_def read_result [OF assms(1)])
    then show ?thesis using Suc.IH [of ?w3] drift_trans [OF drift_tick [OF d]] by blast
  qed
qed

text \<open>When nobody else touches the file the first round decides.\<close>

lemma edit_decides:
  assumes "\<forall>t. ge_read_ok E t" "\<forall>t w. gw_grants (ge_others E t w) = gw_grants w"
  shows "fst (edit_grants (Suc n) E mutate w) \<noteq> Inr None"
proof -
  have "gw_grants v = gw_grants w" if "drift E w v" for v
    using that by (induction rule: drift.induct) (simp_all add: assms(2))
  then have "gw_grants w2 = gw_grants w" if "lock_file E (w\<lparr>gw_tick := k\<rparr>) = (r, w2)" for r w2 k
    using preservesD [OF drift_lock drift_tick [OF drift_refl] that] by blast
  then show ?thesis
    by (auto simp: bindS_def read_result [OF assms(1)] replace_file_def askG_def throwS_def modifyS_def retS_def
        split: sum.splits prod.splits replace_answer.splits)
qed

end
