(* ===== verification/Grant_Audit.thy ===== *)
theory Grant_Audit
  imports Grant_Store Hash_Chain
begin

text \<open>
  The audit chain of grants (\<^verbatim>\<open>supercli-core/src/grant_audit.rs\<close>), start-up reconciliation, and the group-commit writer
  (\<^verbatim>\<open>grant_writer.rs\<close>). A batch of grants is first appended to the audit log, one chained line per grant, and only then applied to
  the grants file. A caller of the writer waits for an acknowledgement of its batch; the acknowledgements are a list of the world.
  Messages leave out paths and the texts of the parser.
\<close>

section \<open>Audit entries\<close>

definition GENESIS_GRANT_HASH :: string where "GENESIS_GRANT_HASH = ''0''"

record audit_entry =
  ga_entry_id :: string
  ga_ts_ms :: nat
  ga_actor :: string
  ga_scope :: string
  ga_tool :: string
  ga_grant_key :: string
  ga_prev_hash :: string
  ga_entry_hash :: string

definition audit_fields :: "audit_entry \<Rightarrow> (string \<times> json) list" where
  "audit_fields e =
     [(''entry_id'', JStr (ga_entry_id e)), (''ts_ms'', JNum (int (ga_ts_ms e))), (''actor'', JStr (ga_actor e)),
      (''scope'', JStr (ga_scope e)), (''tool'', JStr (ga_tool e)), (''grant_key'', JStr (ga_grant_key e)),
      (''prev_hash'', JStr (ga_prev_hash e))]"

definition audit_json :: "audit_entry \<Rightarrow> json" where
  "audit_json e = json_obj (audit_fields e @ [(''entry_hash'', JStr (ga_entry_hash e))])"

definition audit_of :: "json \<Rightarrow> audit_entry option" where
  "audit_of v =
     Option.bind (get_str ''entry_id'' v) (\<lambda>entry_id.
     Option.bind (get_u64 ''ts_ms'' v) (\<lambda>ts_ms.
     Option.bind (get_str ''actor'' v) (\<lambda>actor.
     Option.bind (get_str ''scope'' v) (\<lambda>scope.
     Option.bind (get_str ''tool'' v) (\<lambda>tool.
     Option.bind (get_str ''grant_key'' v) (\<lambda>gkey.
     Option.bind (get_str ''prev_hash'' v) (\<lambda>prev_hash.
     Option.bind (get_str ''entry_hash'' v) (\<lambda>entry_hash.
     Some \<lparr>ga_entry_id = entry_id, ga_ts_ms = ts_ms, ga_actor = actor, ga_scope = scope, ga_tool = tool, ga_grant_key = gkey,
       ga_prev_hash = prev_hash, ga_entry_hash = entry_hash\<rparr>))))))))"

definition audit_line :: "grant_env \<Rightarrow> string \<Rightarrow> audit_entry option" where
  "audit_line E line = Option.bind (ge_parse E line) audit_of"

definition audit_digest :: "grant_env \<Rightarrow> audit_entry \<Rightarrow> string" where
  "audit_digest E e = ge_sha256 E (ge_to_vec E (json_obj (audit_fields e)))"

text \<open>
  The last complete line within the last 8192 bytes, walking backwards over \<open>ls\<close>, the lines of the tail in reverse; the first
  line of a tail that does not start at the beginning of the file may be cut and is not looked at.
\<close>

fun last_hash :: "grant_env \<Rightarrow> bool \<Rightarrow> string list \<Rightarrow> string + string option" where
  "last_hash E partial [] = Inr None"
| "last_hash E partial (l # ls) =
     (let line = trim l in
      if line = [] then last_hash E partial ls
      else if ls = [] \<and> partial then last_hash E partial ls
      else (case audit_line E line of None \<Rightarrow> Inl ''parse'' | Some e \<Rightarrow> Inr (Some (ga_entry_hash e))))"

definition last_entry_hash :: "grant_env \<Rightarrow> string option \<Rightarrow> string + string option" where
  "last_entry_hash E file =
     (case file of
        None \<Rightarrow> Inr None
      | Some t \<Rightarrow>
          if t = [] then Inr None
          else (let tail_len = min (length t) 8192 in
                last_hash E (tail_len < length t) (rev (text_lines (drop (length t - tail_len) t)))))"

definition build_entry :: "grant_env \<Rightarrow> string \<times> string \<times> string \<times> string \<Rightarrow> string \<Rightarrow> audit_entry grant_op" where
  "build_entry E item prev_hash =
     (case item of (actor, scope, tool, gkey) \<Rightarrow>
      bindS (askG (ge_uuid E)) (\<lambda>uuid.
      bindS (askG (ge_now E)) (\<lambda>now.
      let e = \<lparr>ga_entry_id = uuid, ga_ts_ms = now, ga_actor = actor, ga_scope = scope, ga_tool = tool, ga_grant_key = gkey,
                ga_prev_hash = prev_hash, ga_entry_hash = []\<rparr> in
      retS (e\<lparr>ga_entry_hash := audit_digest E e\<rparr>))))"

fun build_entries :: "grant_env \<Rightarrow> (string \<times> string \<times> string \<times> string) list \<Rightarrow> string \<Rightarrow> audit_entry list grant_op" where
  "build_entries E [] prev_hash = retS []"
| "build_entries E (i # items) prev_hash =
     bindS (build_entry E i prev_hash) (\<lambda>e.
     bindS (build_entries E items (ga_entry_hash e)) (\<lambda>es.
     retS (e # es)))"

definition audit_buffer :: "grant_env \<Rightarrow> audit_entry list \<Rightarrow> string" where
  "audit_buffer E es = concat (map (\<lambda>e. ge_to_line E (audit_json e) @ [newline]) es)"

definition extend_audit :: "string \<Rightarrow> grant_world \<Rightarrow> grant_world" where
  "extend_audit t w = w\<lparr>gw_audit := Some (bytes_of (gw_audit w) @ t)\<rparr>"

definition append_audit :: "grant_env \<Rightarrow> string \<Rightarrow> unit grant_op" where
  "append_audit E buf =
     bindS (askG (ge_append E)) (\<lambda>answer.
     case answer of
       OpenFailed e \<Rightarrow> throwS e
     | BrokeOff n e \<Rightarrow> bindS (modifyS (extend_audit (take n buf))) (\<lambda>_. throwS e)
     | SyncFailed e \<Rightarrow> bindS (modifyS (extend_audit buf)) (\<lambda>_. throwS e)
     | Appended \<Rightarrow> modifyS (extend_audit buf))"

definition record_grants_created_batch ::
  "grant_env \<Rightarrow> (string \<times> string \<times> string \<times> string) list \<Rightarrow> audit_entry list grant_op" where
  "record_grants_created_batch E items =
     bindS (lock_file E) (\<lambda>_.
     bindS (askG (ge_read_audit E)) (\<lambda>err.
     bindS (case err of Some e \<Rightarrow> throwS (''read audit log: '' @ e) | None \<Rightarrow> getS (\<lambda>w. last_entry_hash E (gw_audit w))) (\<lambda>tail.
     case tail of
       Inl e \<Rightarrow> throwS (''read audit log: '' @ e)
     | Inr prev \<Rightarrow>
         bindS (build_entries E items (case prev of None \<Rightarrow> GENESIS_GRANT_HASH | Some h \<Rightarrow> h)) (\<lambda>es.
         bindS (append_audit E (audit_buffer E es)) (\<lambda>_.
         retS es)))))"

definition record_grant_created :: "grant_env \<Rightarrow> string \<times> string \<times> string \<times> string \<Rightarrow> audit_entry grant_op" where
  "record_grant_created E item = bindS (record_grants_created_batch E [item]) (\<lambda>es. retS (hd es))"

section \<open>Verification, reconciliation and the doctor\<close>

definition accept_entry :: "grant_env \<Rightarrow> string \<Rightarrow> audit_entry \<Rightarrow> string option" where
  "accept_entry E prev_hash e =
     (if ga_prev_hash e = prev_hash \<and> audit_digest E e = ga_entry_hash e then Some (ga_entry_hash e) else None)"

fun verify_lines :: "grant_env \<Rightarrow> string \<Rightarrow> nat \<Rightarrow> nat \<Rightarrow> string list \<Rightarrow> string + nat" where
  "verify_lines E prev_hash idx count [] = Inr count"
| "verify_lines E prev_hash idx count (l # ls) =
     (let line = trim l in
      if line = [] then verify_lines E prev_hash (Suc idx) count ls
      else (case audit_line E line of
              None \<Rightarrow> Inl (''line '' @ show_nat idx @ '': parse'')
            | Some e \<Rightarrow>
                if ga_prev_hash e \<noteq> prev_hash then Inl (''line '' @ show_nat idx @ '': prev_hash mismatch (expected '' @ prev_hash @ '', got '' @ ga_prev_hash e @ '')'')
                else if audit_digest E e \<noteq> ga_entry_hash e then Inl (''line '' @ show_nat idx @ '': entry_hash mismatch (tamper detected)'')
                else verify_lines E (ga_entry_hash e) (Suc idx) (Suc count) ls))"

definition verify_grant_audit :: "grant_env \<Rightarrow> nat grant_op" where
  "verify_grant_audit E =
     bindS (askG (ge_read_audit E)) (\<lambda>err.
     bindS (getS gw_audit) (\<lambda>file.
     case file of
       None \<Rightarrow> retS 0
     | Some t \<Rightarrow> (case err of Some e \<Rightarrow> throwS e | None \<Rightarrow> liftE (verify_lines E GENESIS_GRANT_HASH 0 0 (text_lines t)))))"

definition keys_in :: "grant_env \<Rightarrow> string \<Rightarrow> string list" where
  "keys_in E t = List.map_filter (\<lambda>l. if trim l = [] then None else map_option ga_grant_key (audit_line E (trim l))) (text_lines t)"

text \<open>A log that cannot be read counts as empty.\<close>

definition audited_grant_keys :: "grant_env \<Rightarrow> string list grant_op" where
  "audited_grant_keys E =
     bindS (askG (ge_read_audit E)) (\<lambda>err.
     bindS (getS gw_audit) (\<lambda>file.
     retS (case err of Some _ \<Rightarrow> [] | None \<Rightarrow> keys_in E (bytes_of file))))"

definition missing_grants :: "grant_env \<Rightarrow> string list grant_op" where
  "missing_grants E =
     bindS (load_grants E) (\<lambda>grants.
     bindS (audited_grant_keys E) (\<lambda>audited.
     bindS (askG (ge_order E)) (\<lambda>order.
     retS (filter (\<lambda>k. k \<notin> set audited) (order (remdups (flatten_grant_keys grants)))))))"

definition quarantine_json :: "nat \<Rightarrow> string list \<Rightarrow> json" where
  "quarantine_json now orphaned = json_obj
     [(''quarantined_at_ms'', JNum (int now)), (''reason'', JStr ''grant without audit entry (tamper-evidence violation)''),
      (''keys'', JArr (map JStr orphaned))]"

definition reconcile_grants :: "nat \<Rightarrow> grant_env \<Rightarrow> unit option grant_op" where
  "reconcile_grants fuel E =
     bindS (missing_grants E) (\<lambda>orphaned.
     if orphaned = [] then retS (Some ())
     else
       bindS (askG (ge_now E)) (\<lambda>now.
       bindS (map_errS (\<lambda>e. ''write quarantine: '' @ e) (replace_file E QuarantinePath (ge_to_vec_pretty E (quarantine_json now orphaned)))) (\<lambda>_.
       bindS (remove_grants fuel E orphaned) (\<lambda>r.
       case r of
         None \<Rightarrow> retS None
       | Some _ \<Rightarrow> throwS (''SECURITY: '' @ show_nat (length orphaned) @ '' grant(s) without audit entry quarantined'')))))"

definition doctor_check_grants_subset :: "grant_env \<Rightarrow> unit grant_op" where
  "doctor_check_grants_subset E =
     bindS (missing_grants E) (\<lambda>missing.
     if missing = [] then retS () else throwS ''grants without audit entries (tamper-evidence violation)'')"
section \<open>The group-commit writer\<close>

definition submit :: "grant_env \<Rightarrow> pending_grant \<Rightarrow> unit grant_op" where
  "submit E p =
     bindS (askG (ge_writer_finished E)) (\<lambda>finished.
     if finished then throwS ''grant writer thread died; cannot persist grant (Ambiguous)''
     else modifyS (\<lambda>w. w\<lparr>gw_queue := gw_queue w @ [p]\<rparr>))"

definition human_actor :: "string option \<Rightarrow> string" where
  "human_actor answered_by = (case answered_by of None \<Rightarrow> ''unknown'' | Some d \<Rightarrow> ''human:'' @ d)"

definition persist_key :: "string \<Rightarrow> string \<Rightarrow> string option \<Rightarrow> string option" where
  "persist_key kind caller target =
     (if kind = ''write'' then map_option (key3 ''write'' caller) target
      else if kind = ''browser'' \<or> kind = ''computer'' then Some (key2 kind caller)
      else if kind = ''app-open'' then map_option (key3 ''app-open'' caller) target
      else None)"

definition persist_grant_grouped :: "grant_env \<Rightarrow> string \<Rightarrow> string \<Rightarrow> string option \<Rightarrow> string option \<Rightarrow> unit grant_op" where
  "persist_grant_grouped E kind caller target answered_by =
     (case persist_key kind caller target of
        None \<Rightarrow> retS ()
      | Some key \<Rightarrow> submit E \<lparr>pg_actor = human_actor answered_by, pg_scope = kind, pg_tool = kind, pg_key = key, pg_kind = kind,
          pg_caller = caller, pg_target = target\<rparr>)"

definition persist_connector_grant_grouped :: "grant_env \<Rightarrow> string \<Rightarrow> string \<Rightarrow> string \<Rightarrow> string option \<Rightarrow> unit grant_op" where
  "persist_connector_grant_grouped E caller connector tool answered_by =
     (if CHR '':'' \<in> set connector \<or> CHR '':'' \<in> set tool then throwS (''connector/tool names must not contain '' @ [CHR 0x27] @ '':'' @ [CHR 0x27])
      else submit E \<lparr>pg_actor = human_actor answered_by, pg_scope = ''connector'', pg_tool = ''connector'',
        pg_key = key4 ''connector'' caller connector tool, pg_kind = ''connector'', pg_caller = caller,
        pg_target = Some (connector @ '':'' @ tool)\<rparr>)"

definition audit_item :: "pending_grant \<Rightarrow> string \<times> string \<times> string \<times> string" where
  "audit_item p = (pg_actor p, pg_scope p, pg_tool p, pg_key p)"

definition apply_pending :: "pending_grant list \<Rightarrow> json_map \<Rightarrow> json_map" where
  "apply_pending batch m = fold (\<lambda>p. apply_grant_mutation (pg_kind p) (pg_caller p) (pg_target p)) batch m"

definition ack_all :: "pending_grant list \<Rightarrow> string + unit \<Rightarrow> unit grant_op" where
  "ack_all batch r = modifyS (\<lambda>w. w\<lparr>gw_acks := gw_acks w @ map (\<lambda>p. (p, r)) batch\<rparr>)"

text \<open>Runs \<open>m\<close> and hands its result on as a value.\<close>

definition attemptS :: "('s, 'e, 'a) sm \<Rightarrow> ('s, 'f, 'e + 'a) sm" where
  "attemptS m s = (case m s of (r, t) \<Rightarrow> (Inr r, t))"

definition commit_batch :: "nat \<Rightarrow> grant_env \<Rightarrow> pending_grant list \<Rightarrow> unit option grant_op" where
  "commit_batch fuel E batch =
     (if batch = [] then retS (Some ())
      else
        bindS (attemptS (record_grants_created_batch E (map audit_item batch))) (\<lambda>audited.
        case audited of
          Inl e \<Rightarrow> bindS (ack_all batch (Inl (''audit failed: '' @ e))) (\<lambda>_. throwS e)
        | Inr _ \<Rightarrow>
            bindS (attemptS (edit_grants fuel E (\<lambda>m. Inr ((), apply_pending batch m)))) (\<lambda>edited.
            case edited of
              Inl e \<Rightarrow> bindS (ack_all batch (Inl e)) (\<lambda>_. throwS e)
            | Inr None \<Rightarrow> retS None
            | Inr (Some _) \<Rightarrow> bindS (ack_all batch (Inr ())) (\<lambda>_. retS (Some ())))))"

definition drain :: "pending_grant list grant_op" where
  "drain w = (Inr (gw_queue w), w\<lparr>gw_queue := []\<rparr>)"

text \<open>One round of the writer thread; the result of the batch is dropped, its callers have their acknowledgements.\<close>

definition writer_round :: "nat \<Rightarrow> grant_env \<Rightarrow> unit grant_op" where
  "writer_round fuel E = bindS drain (\<lambda>batch. bindS (okS (commit_batch fuel E batch)) (\<lambda>_. retS ()))"
section \<open>The audit log is a hash chain\<close>

lemma audit_fields_inj: "json_obj (audit_fields e) = json_obj (audit_fields f) \<Longrightarrow> ga_entry_hash e = ga_entry_hash f \<Longrightarrow> e = f"
proof -
  assume j: "json_obj (audit_fields e) = json_obj (audit_fields f)" and h: "ga_entry_hash e = ga_entry_hash f"
  have g: "json_get k (json_obj (audit_fields e)) = json_get k (json_obj (audit_fields f))" for k using j by simp
  have "ga_entry_id e = ga_entry_id f" using g [of "''entry_id''"] by (simp add: json_simps audit_fields_def)
  moreover have "ga_ts_ms e = ga_ts_ms f" using g [of "''ts_ms''"] by (simp add: json_simps audit_fields_def)
  moreover have "ga_actor e = ga_actor f" using g [of "''actor''"] by (simp add: json_simps audit_fields_def)
  moreover have "ga_scope e = ga_scope f" using g [of "''scope''"] by (simp add: json_simps audit_fields_def)
  moreover have "ga_tool e = ga_tool f" using g [of "''tool''"] by (simp add: json_simps audit_fields_def)
  moreover have "ga_grant_key e = ga_grant_key f" using g [of "''grant_key''"] by (simp add: json_simps audit_fields_def)
  moreover have "ga_prev_hash e = ga_prev_hash f" using g [of "''prev_hash''"] by (simp add: json_simps audit_fields_def)
  ultimately show "e = f" using h by (intro audit_entry.equality) simp_all
qed

lemma accept_entry_Some: "accept_entry E p e = Some h \<longleftrightarrow> ga_prev_hash e = p \<and> ga_entry_hash e = h \<and> audit_digest E e = h"
  by (auto simp: accept_entry_def)

interpretation gac: hash_chain "accept_entry E" "\<lambda>e. json_obj (audit_fields e)" "\<lambda>v. ge_sha256 E (ge_to_vec E v)" for E
  by unfold_locales (auto simp: accept_entry_Some audit_digest_def dest: audit_fields_inj)

text \<open>The entries of a log whose every line parses.\<close>

fun log_entries :: "grant_env \<Rightarrow> string list \<Rightarrow> audit_entry list option" where
  "log_entries E [] = Some []"
| "log_entries E (l # ls) =
     (if trim l = [] then log_entries E ls
      else Option.bind (audit_line E (trim l)) (\<lambda>e. map_option ((#) e) (log_entries E ls)))"

lemma verify_chain:
  "verify_lines E p idx c ls = Inr n \<longleftrightarrow>
     (\<exists>es. log_entries E ls = Some es \<and> chain_run (accept_entry E) p es \<noteq> None \<and> n = c + length es)"
proof (induction ls arbitrary: p idx c)
  case (Cons l ls)
  consider "trim l = []" | "trim l \<noteq> []" "audit_line E (trim l) = None" | e where "trim l \<noteq> []" "audit_line E (trim l) = Some e" by auto
  then show ?case
  proof cases
    case 1
    then show ?thesis using Cons.IH [of p "Suc idx" c] by simp
  next
    case 2
    then show ?thesis by (simp add: Let_def)
  next
    case 3
    have l: "log_entries E (l # ls) = map_option ((#) e) (log_entries E ls)" using 3 by simp
    show ?thesis
    proof (cases "accept_entry E p e")
      case None
      then have "\<exists>x. verify_lines E p idx c (l # ls) = Inl x" using 3 by (auto simp: Let_def accept_entry_def split: if_splits)
      then show ?thesis using None l by fastforce
    next
      case (Some h)
      then have "verify_lines E p idx c (l # ls) = verify_lines E h (Suc idx) (Suc c) ls" using 3 by (simp add: Let_def accept_entry_Some)
      then show ?thesis using Cons.IH [of h "Suc idx" "Suc c"] l Some by (cases "log_entries E ls") simp_all
    qed
  qed
qed auto

text \<open>A printed value is one line and parses back; times have 64 bits.\<close>

definition lines_ok :: "grant_env \<Rightarrow> bool" where
  "lines_ok E = ((\<forall>v. one_line (ge_to_line E v) \<and> ge_parse E (ge_to_line E v) = Some v) \<and> (\<forall>t. ge_now E t \<le> u64_max))"

lemma audit_parsed: "ga_ts_ms e \<le> u64_max \<Longrightarrow> audit_of (audit_json e) = Some e"
  by (simp add: audit_of_def audit_json_def audit_fields_def json_simps)

lemma audit_line_printed: "lines_ok E \<Longrightarrow> ga_ts_ms e \<le> u64_max \<Longrightarrow> audit_line E (ge_to_line E (audit_json e)) = Some e"
  by (simp add: lines_ok_def audit_line_def audit_parsed)

definition timed :: "audit_entry list \<Rightarrow> bool" where
  "timed es = (\<forall>e\<in>set es. ga_ts_ms e \<le> u64_max)"

lemma buffer_lines:
  assumes "lines_ok E" "whole t"
  shows "text_lines (t @ audit_buffer E es) = text_lines t @ map (\<lambda>e. ge_to_line E (audit_json e)) es" "whole (t @ audit_buffer E es)"
  using lines_of_many [OF assms(2), of "map (\<lambda>e. ge_to_line E (audit_json e)) es"]
    whole_many [OF assms(2), of "map (\<lambda>e. ge_to_line E (audit_json e)) es"] assms(1)
  by (simp_all add: audit_buffer_def lines_ok_def comp_def)

lemma printed_trim: "lines_ok E \<Longrightarrow> trim (ge_to_line E v) = ge_to_line E v \<and> ge_to_line E v \<noteq> []"
  by (simp add: lines_ok_def one_line_def)

lemma log_entries_append:
  "log_entries E (ls @ ls') = Option.bind (log_entries E ls) (\<lambda>es. map_option ((@) es) (log_entries E ls'))"
  by (induction ls; cases "log_entries E ls'") (auto split: Option.bind_splits)

lemma log_entries_printed:
  "lines_ok E \<Longrightarrow> timed es \<Longrightarrow> log_entries E (map (\<lambda>e. ge_to_line E (audit_json e)) es) = Some es"
  by (induction es) (simp_all add: printed_trim audit_line_printed timed_def)

lemma keys_in_append:
  assumes "lines_ok E" "whole t" "timed es"
  shows "set (keys_in E (t @ audit_buffer E es)) = set (keys_in E t) \<union> ga_grant_key ` set es"
proof -
  have "set (List.map_filter (\<lambda>l. if trim l = [] then None else map_option ga_grant_key (audit_line E (trim l)))
      (map (\<lambda>e. ge_to_line E (audit_json e)) es)) = ga_grant_key ` set es"
    using assms(3)
    by (induction es) (auto simp: List.map_filter_def printed_trim [OF assms(1)] audit_line_printed [OF assms(1)] timed_def)
  then show ?thesis by (simp add: keys_in_def buffer_lines [OF assms(1,2)] List.map_filter_def)
qed

lemma build_entries_chain:
  assumes "lines_ok E"
  shows "\<exists>es k. build_entries E items p w = (Inr es, w\<lparr>gw_tick := k\<rparr>) \<and> chain_run (accept_entry E) p es \<noteq> None \<and> timed es \<and>
    map ga_grant_key es = map (\<lambda>(_, _, _, key). key) items"
proof (induction items arbitrary: p w)
  case Nil
  show ?case by (intro exI [of _ "[]"] exI [of _ "gw_tick w"]) (simp add: retS_def timed_def)
next
  case (Cons i items)
  obtain actor scope tool key where i: "i = (actor, scope, tool, key)" by (cases i)
  define e0 where "e0 = \<lparr>ga_entry_id = ge_uuid E (gw_tick w), ga_ts_ms = ge_now E (Suc (gw_tick w)), ga_actor = actor, ga_scope = scope,
    ga_tool = tool, ga_grant_key = key, ga_prev_hash = p, ga_entry_hash = []\<rparr>"
  define e where "e = e0\<lparr>ga_entry_hash := audit_digest E e0\<rparr>"
  let ?w = "w\<lparr>gw_tick := Suc (Suc (gw_tick w))\<rparr>"
  have b: "build_entry E i p w = (Inr e, ?w)" by (simp add: build_entry_def i bindS_def askG_def retS_def Let_def e_def e0_def)
  have a: "accept_entry E p e = Some (ga_entry_hash e)" "ga_grant_key e = key" "ga_ts_ms e \<le> u64_max"
    using assms by (simp_all add: accept_entry_def e_def e0_def audit_digest_def audit_fields_def lines_ok_def)
  obtain es k where "build_entries E items (ga_entry_hash e) ?w = (Inr es, ?w\<lparr>gw_tick := k\<rparr>)"
      "chain_run (accept_entry E) (ga_entry_hash e) es \<noteq> None" "timed es" "map ga_grant_key es = map (\<lambda>(_, _, _, key). key) items"
    using Cons.IH by blast
  then show ?case
    using a b by (intro exI [of _ "e # es"] exI [of _ k]) (simp add: bindS_def retS_def i timed_def)
qed
section \<open>Every grant is audited\<close>

definition audit_text :: "grant_world \<Rightarrow> string" where
  "audit_text w = bytes_of (gw_audit w)"

definition store :: "grant_env \<Rightarrow> grant_world \<Rightarrow> json_map" where
  "store E w = parse_map E (bytes_of (gw_grants w))"

definition audited :: "grant_env \<Rightarrow> grant_world \<Rightarrow> string set" where
  "audited E w = set (keys_in E (audit_text w))"

text \<open>What a queued write stands for.\<close>

definition stands_for :: "pending_grant \<Rightarrow> grant \<Rightarrow> bool" where
  "stands_for p g = (splittable g \<and> pg_key p = grant_key g \<and>
     apply_grant_mutation (pg_kind p) (pg_caller p) (pg_target p) = apply_mutation (mutation g))"

text \<open>
  The invariant: the audit log consists of whole lines, every queued write stands for a grant, every grant of the store has an
  audit line, and so have the keys \<open>A\<close>.
\<close>

definition consistent :: "grant_env \<Rightarrow> string set \<Rightarrow> grant_world \<Rightarrow> bool" where
  "consistent E A w = (whole (audit_text w) \<and> (\<forall>p\<in>set (gw_queue w). \<exists>g. stands_for p g) \<and>
     (\<forall>g. holds (store E w) g \<longrightarrow> grant_key g \<in> audited E w) \<and> A \<subseteq> audited E w)"

definition store_ok :: "grant_env \<Rightarrow> bool" where
  "store_ok E = ((\<forall>m. ge_parse E (ge_to_vec_pretty E (JObj m)) = Some (JObj m)) \<and> ge_parse E [] = None)"

definition audit_whole :: "grant_env \<Rightarrow> bool" where
  "audit_whole E = (\<forall>t n e. ge_append E t = BrokeOff n e \<longrightarrow> n = 0)"

text \<open>Other processes run the same program: they keep the invariant and never take a line out of the audit log.\<close>

definition rely :: "grant_env \<Rightarrow> bool" where
  "rely E = (\<forall>t w A. consistent E A w \<longrightarrow> consistent E A (ge_others E t w))"

definition grants_env_ok :: "grant_env \<Rightarrow> bool" where
  "grants_env_ok E = (lines_ok E \<and> store_ok E \<and> audit_whole E \<and> rely E)"

lemma consistent_other [simp]:
  "consistent E A (w\<lparr>gw_tick := k\<rparr>) = consistent E A w" "consistent E A (w\<lparr>gw_acks := acks\<rparr>) = consistent E A w"
  "consistent E A (w\<lparr>gw_quarantine := q\<rparr>) = consistent E A w"
  by (simp_all add: consistent_def audit_text_def store_def audited_def)

named_theorems grant_frame \<open>an operation on the grants keeps them consistent\<close>

lemma cons_ask [grant_frame]: "preserves (consistent E A) (askG f)"
  by (simp add: preserves_def askG_def)

lemma cons_others: "rely E \<Longrightarrow> preserves (consistent E A) (others E)"
  by (simp add: preserves_def others_def rely_def)

lemma cons_lock [grant_frame]: "rely E \<Longrightarrow> preserves (consistent E A) (lock_file E)"
  unfolding lock_file_def by (intro cons_others grant_frame preserves_intros)

lemma cons_build [grant_frame]: "preserves (consistent E A) (build_entries E' items p)"
proof (induction items arbitrary: p)
  case (Cons i items)
  then show ?case unfolding build_entries.simps build_entry_def Let_def by (cases i) (intro grant_frame preserves_intros; simp)
qed (simp add: preserves_intros)

lemma extended:
  assumes "lines_ok E" "consistent E A w" "timed es" "ga_grant_key ` set es = K"
  shows "consistent E (A \<union> K) (extend_audit (audit_buffer E es) w)"
  using assms keys_in_append [OF assms(1) _ assms(3), of "audit_text w"] buffer_lines(2) [OF assms(1), of "audit_text w" es]
  by (auto simp: consistent_def audited_def audit_text_def extend_audit_def bytes_of_def store_def)

lemma consistent_mono: "consistent E A w \<Longrightarrow> B \<subseteq> A \<Longrightarrow> consistent E B w"
  by (auto simp: consistent_def)

lemma append_audit_triple:
  assumes "lines_ok E" "audit_whole E" "timed es"
  shows "triple (consistent E A) (append_audit E (audit_buffer E es)) (\<lambda>_. consistent E (A \<union> ga_grant_key ` set es)) (consistent E A)"
proof -
  have ext: "consistent E (A \<union> ga_grant_key ` set es) (extend_audit (audit_buffer E es) w)" if "consistent E A w" for w
    using extended [OF assms(1) that assms(3)] by simp
  have nil: "consistent E A (extend_audit [] w)" if "consistent E A w" for w
    using that by (simp add: consistent_def extend_audit_def audited_def audit_text_def bytes_of_def store_def)
  have one: "triple (consistent E A) (case answer of OpenFailed e \<Rightarrow> throwS e
       | BrokeOff n e \<Rightarrow> bindS (modifyS (extend_audit (take n (audit_buffer E es)))) (\<lambda>_. throwS e)
       | SyncFailed e \<Rightarrow> bindS (modifyS (extend_audit (audit_buffer E es))) (\<lambda>_. throwS e)
       | Appended \<Rightarrow> modifyS (extend_audit (audit_buffer E es)))
     (\<lambda>_. consistent E (A \<union> ga_grant_key ` set es)) (consistent E A)" if "\<forall>n e. answer = BrokeOff n e \<longrightarrow> n = 0" for answer
    using that ext nil consistent_mono [OF ext]
    by (cases answer) (auto simp: triple_def throwS_def bindS_def modifyS_def)
  show ?thesis
    unfolding append_audit_def using one assms(2)
    by (auto simp: triple_def bindS_def askG_def audit_whole_def)
qed

lemma record_batch_triple:
  assumes "grants_env_ok E"
  shows "triple (consistent E A) (record_grants_created_batch E items)
    (\<lambda>_. consistent E (A \<union> (\<lambda>(_, _, _, key). key) ` set items)) (consistent E A)"
proof -
  have ok: "lines_ok E" "audit_whole E" "rely E" using assms by (simp_all add: grants_env_ok_def)
  note P = triple_preserves
  have es: "triple (consistent E A) (bindS (build_entries E items p) (\<lambda>es. bindS (append_audit E (audit_buffer E es)) (\<lambda>_. retS es)))
      (\<lambda>_. consistent E (A \<union> (\<lambda>(_, _, _, key). key) ` set items)) (consistent E A)" for p
  proof (rule triple_bind)
    show "triple (consistent E A) (build_entries E items p)
        (\<lambda>es w. consistent E A w \<and> timed es \<and> map ga_grant_key es = map (\<lambda>(_, _, _, key). key) items) (consistent E A)"
      unfolding triple_def
    proof (intro allI impI)
      fix w
      assume w: "consistent E A w"
      obtain es k where b: "build_entries E items p w = (Inr es, w\<lparr>gw_tick := k\<rparr>)" "timed es"
          "map ga_grant_key es = map (\<lambda>(_, _, _, key). key) items"
        using build_entries_chain [OF ok(1), of items p w] by blast
      show "case build_entries E items p w of (Inl _, s') \<Rightarrow> consistent E A s'
          | (Inr es, w) \<Rightarrow> consistent E A w \<and> timed es \<and> map ga_grant_key es = map (\<lambda>(_, _, _, key). key) items"
        using w b(2,3) by (simp add: b(1))
    qed
    show "triple (\<lambda>w. consistent E A w \<and> timed es \<and> map ga_grant_key es = map (\<lambda>(_, _, _, key). key) items)
        (bindS (append_audit E (audit_buffer E es)) (\<lambda>_. retS es)) (\<lambda>_. consistent E (A \<union> (\<lambda>(_, _, _, key). key) ` set items)) (consistent E A)"
      for es
    proof (cases "timed es \<and> map ga_grant_key es = map (\<lambda>(_, _, _, key). key) items")
      case True
      then have "ga_grant_key ` set es = (\<lambda>(_, _, _, key). key) ` set items" by (metis set_map)
      with True show ?thesis
        using append_audit_triple [OF ok(1,2), of es A] by (auto simp: triple_def bindS_def retS_def split: prod.splits sum.splits)
    qed (auto simp: triple_def)
  qed
  show ?thesis
    unfolding record_grants_created_batch_def
    by (rule triple_bind [OF P [OF cons_lock [OF ok(3)]]], rule triple_bind [OF P [OF cons_ask]])
      (auto intro!: triple_bind [OF P] preserves_intros triple_sum triple_throw es split: option.splits)
qed
text \<open>A text read from the grants file: its grants are audited.\<close>

definition covered :: "grant_env \<Rightarrow> string \<Rightarrow> grant_world \<Rightarrow> bool" where
  "covered E b w = (\<forall>g. holds (parse_map E b) g \<longrightarrow> grant_key g \<in> audited E w)"

lemma holds_empty [simp]: "\<not> holds [] g"
  by (cases g) (simp_all add: nested_at_def flat_at_def)

lemma read_triple:
  assumes "store_ok E"
  shows "triple (consistent E A) (read_grants E) (\<lambda>b w. consistent E A w \<and> covered E b w) (consistent E A)"
proof -
  have nil: "parse_map E [] = []" using assms by (simp add: store_ok_def parse_map_def)
  show ?thesis
    by (auto simp: triple_def read_grants_def bindS_def askG_def getS_def covered_def nil consistent_def store_def audited_def audit_text_def)
qed

lemma parse_printed: "store_ok E \<Longrightarrow> parse_map E (ge_to_vec_pretty E (JObj m)) = m"
  by (simp add: store_ok_def parse_map_def)

lemma replace_triple:
  assumes "store_ok E" "\<And>h. holds m h \<Longrightarrow> holds (parse_map E b) h \<or> grant_key h \<in> A"
  shows "triple (\<lambda>w. consistent E A w \<and> covered E b w) (replace_file E GrantsPath (ge_to_vec_pretty E (JObj m))) (\<lambda>_. consistent E A) (consistent E A)"
proof -
  have "consistent E A (w\<lparr>gw_tick := k, gw_grants := Some (ge_to_vec_pretty E (JObj m))\<rparr>)" if "consistent E A w" "covered E b w" for w k
    using that assms(2) parse_printed [OF assms(1), of m]
    unfolding consistent_def covered_def store_def audited_def audit_text_def by (simp add: bytes_of_def) blast
  then show ?thesis
    by (auto simp: triple_def replace_file_def bindS_def askG_def throwS_def modifyS_def split: replace_answer.splits)
qed

lemma edit_preserves:
  assumes "grants_env_ok E" "\<And>m x m' h. mutate m = Inr (x, m') \<Longrightarrow> holds m' h \<Longrightarrow> holds m h \<or> grant_key h \<in> A"
  shows "triple (consistent E A) (edit_grants n E mutate) (\<lambda>_. consistent E A) (consistent E A)"
proof (induction n)
  case 0
  then show ?case by (simp add: triple_ret)
next
  case (Suc n)
  have ok: "store_ok E" "rely E" using assms(1) by (simp_all add: grants_env_ok_def)
  have r: "triple (consistent E A) (read_grants E) (\<lambda>_. consistent E A) (consistent E A)"
    using read_triple [OF ok(1)] by (rule triple_conseq) simp_all
  have w: "triple (\<lambda>w. consistent E A w \<and> covered E current w)
      (if current = original then bindS (replace_file E GrantsPath (ge_to_vec_pretty E (JObj m))) (\<lambda>_. retS (Some x)) else edit_grants n E mutate)
      (\<lambda>_. consistent E A) (consistent E A)" if "mutate (parse_map E original) = Inr (x, m)" for original current x m
  proof (rule triple_if)
    assume "current = original"
    then have "holds m h \<Longrightarrow> holds (parse_map E current) h \<or> grant_key h \<in> A" for h using assms(2) [OF that] by simp
    then show "triple (\<lambda>w. consistent E A w \<and> covered E current w)
        (bindS (replace_file E GrantsPath (ge_to_vec_pretty E (JObj m))) (\<lambda>_. retS (Some x))) (\<lambda>_. consistent E A) (consistent E A)"
      by (intro triple_bind [OF replace_triple [OF ok(1)]] triple_ret)
  next
    show "triple (\<lambda>w. consistent E A w \<and> covered E current w) (edit_grants n E mutate) (\<lambda>_. consistent E A) (consistent E A)"
      using Suc.IH by (rule triple_conseq) simp_all
  qed
  have m: "triple (consistent E A) (case mutate (parse_map E original) of Inl e \<Rightarrow> throwS e
      | Inr (x, m) \<Rightarrow> bindS (lock_file E) (\<lambda>_. bindS (read_grants E) (\<lambda>current.
          if current = original then bindS (replace_file E GrantsPath (ge_to_vec_pretty E (JObj m))) (\<lambda>_. retS (Some x))
          else edit_grants n E mutate))) (\<lambda>_. consistent E A) (consistent E A)" for original
  proof (cases "mutate (parse_map E original)")
    case (Inr p)
    then obtain x m where p: "mutate (parse_map E original) = Inr (x, m)" by (cases p) simp
    show ?thesis
      unfolding p sum.case prod.case
      by (rule triple_bind [OF triple_preserves [OF cons_lock [OF ok(2)]]], rule triple_bind [OF read_triple [OF ok(1)] w [OF p]])
  qed (simp add: triple_throw)
  show ?case unfolding edit_grants.simps by (rule triple_bind [OF r m])
qed

lemma holds_retain: "holds (retain_flat k keep m) g \<Longrightarrow> holds m g" "holds (retain_nested k c keep m) g \<Longrightarrow> holds m g"
proof -
  have f: "flat_at k' P (retain_flat k keep m) \<Longrightarrow> flat_at k' P m" "nested_at k' c' P (retain_flat k keep m) \<Longrightarrow> nested_at k' c' P m"
    "flat_at k' P (retain_nested k c keep m) \<Longrightarrow> flat_at k' P m" "nested_at k' c' P (retain_nested k c keep m) \<Longrightarrow> nested_at k' c' P m"
    for k' c' P
    by (auto simp: flat_at_def nested_at_def retain_flat_def retain_nested_def list_ex_iff split: option.splits json.splits if_splits) blast+
  show "holds (retain_flat k keep m) g \<Longrightarrow> holds m g" "holds (retain_nested k c keep m) g \<Longrightarrow> holds m g"
    using f by (cases g; simp)+
qed

lemma holds_remove_any: "holds (remove_all keys m) g \<Longrightarrow> holds m g"
proof (induction keys arbitrary: m)
  case (Cons k ks)
  then have "holds (remove_key k m) g" by (simp add: remove_all_def)
  then show ?case by (auto simp: remove_key_def intro: holds_retain split: list.splits if_splits)
qed (simp add: remove_all_def)

lemma apply_pending_adds:
  "\<forall>p\<in>set batch. \<exists>g. stands_for p g \<Longrightarrow> holds (apply_pending batch m) h \<Longrightarrow> holds m h \<or> grant_key h \<in> pg_key ` set batch"
proof (induction batch arbitrary: m)
  case (Cons p batch)
  then obtain g where g: "stands_for p g" by auto
  let ?m = "apply_grant_mutation (pg_kind p) (pg_caller p) (pg_target p) m"
  have "holds ?m h \<or> grant_key h \<in> pg_key ` set batch" using Cons by (simp add: apply_pending_def)
  moreover have "holds ?m h \<Longrightarrow> holds m h \<or> h = g" using g by (auto simp: stands_for_def holds_apply)
  ultimately show ?case using g by (auto simp: stands_for_def)
qed (simp add: apply_pending_def)

lemma cons_remove [grant_frame]: "grants_env_ok E \<Longrightarrow> preserves (consistent E A) (remove_grants n E keys)"
proof -
  assume ok: "grants_env_ok E"
  have "triple (consistent E A) (remove_grants n E keys) (\<lambda>_. consistent E A) (consistent E A)"
    unfolding remove_grants_def by (rule edit_preserves [OF ok]) (auto dest: holds_remove_any)
  then show ?thesis unfolding preserves_def by (metis prod.collapse tripleD)
qed

lemma cons_commit:
  assumes "grants_env_ok E" "\<forall>p\<in>set batch. \<exists>g. stands_for p g"
  shows "triple (consistent E {}) (commit_batch n E batch) (\<lambda>_. consistent E {}) (consistent E {})"
proof -
  let ?K = "pg_key ` set batch"
  have k: "(\<lambda>(_, _, _, key). key) ` set (map audit_item batch) = ?K" by (force simp: audit_item_def)
  have acks: "preserves (consistent E A) (ack_all batch r)" for A r by (simp add: ack_all_def preserves_def modifyS_def)
  have a: "triple (consistent E {}) (attemptS (record_grants_created_batch E (map audit_item batch)))
      (\<lambda>r. consistent E (case r of Inl _ \<Rightarrow> {} | Inr _ \<Rightarrow> ?K)) (consistent E {})"
    using record_batch_triple [OF assms(1), of "{}" "map audit_item batch"] unfolding k
    by (fastforce simp: triple_def attemptS_def split: prod.splits sum.splits)
  have e: "triple (consistent E ?K) (attemptS (edit_grants n E (\<lambda>m. Inr ((), apply_pending batch m)))) (\<lambda>_. consistent E {}) (consistent E {})"
  proof -
    have "triple (consistent E ?K) (edit_grants n E (\<lambda>m. Inr ((), apply_pending batch m))) (\<lambda>_. consistent E ?K) (consistent E ?K)"
      by (rule edit_preserves [OF assms(1)]) (use apply_pending_adds [OF assms(2)] in auto)
    then show ?thesis
      using consistent_mono [of E ?K _ "{}"] by (fastforce simp: triple_def attemptS_def split: prod.splits sum.splits)
  qed
  have fin: "triple (consistent E {}) (case r of Inl e \<Rightarrow> bindS (ack_all batch (Inl e)) (\<lambda>_. throwS e) | Inr None \<Rightarrow> retS None
      | Inr (Some _) \<Rightarrow> bindS (ack_all batch (Inr ())) (\<lambda>_. retS (Some ()))) (\<lambda>_. consistent E {}) (consistent E {})"
    for r :: "string + unit option"
    by (intro triple_preserves) (auto intro!: preserves_intros acks split: sum.splits option.splits)
  show ?thesis
    unfolding commit_batch_def
    by (intro triple_if triple_ret triple_bind [OF a]) (auto intro!: triple_bind [OF e fin] triple_preserves preserves_intros acks split: sum.splits)
qed

section \<open>Everything the processes do\<close>

inductive grant_step :: "grant_env \<Rightarrow> grant_world \<Rightarrow> grant_world \<Rightarrow> bool" for E where
  step_persist: "persist_grant_grouped E kind caller target by_device w = (r, w') \<Longrightarrow> grant_step E w w'"
| step_connector: "persist_connector_grant_grouped E caller connector tool by_device w = (r, w') \<Longrightarrow> grant_step E w w'"
| step_writer: "writer_round n E w = (r, w') \<Longrightarrow> grant_step E w w'"
| step_reconcile: "reconcile_grants n E w = (r, w') \<Longrightarrow> grant_step E w w'"
| step_remove: "remove_grants n E keys w = (r, w') \<Longrightarrow> grant_step E w w'"
| step_doctor: "doctor_check_grants_subset E w = (r, w') \<Longrightarrow> grant_step E w w'"
| step_record: "record_grant_created E item w = (r, w') \<Longrightarrow> grant_step E w w'"
| step_others: "grant_step E w (ge_others E t w)"

lemma cons_submit: "stands_for p g \<Longrightarrow> preserves (consistent E A) (submit E' p)"
  by (auto simp: preserves_def submit_def bindS_def askG_def throwS_def modifyS_def consistent_def audit_text_def store_def audited_def)

lemma persisted_stands:
  assumes "persist_key kind caller target = Some key"
  shows "\<exists>g. stands_for \<lparr>pg_actor = a, pg_scope = s, pg_tool = t, pg_key = key, pg_kind = kind, pg_caller = caller, pg_target = target\<rparr> g"
proof -
  define g where "g = (if kind = ''write'' then GrantWrite caller (the target) else if kind = ''browser'' then GrantBrowser caller
    else if kind = ''computer'' then GrantComputer caller else GrantAppOpen caller (the target))"
  have "stands_for \<lparr>pg_actor = a, pg_scope = s, pg_tool = t, pg_key = key, pg_kind = kind, pg_caller = caller, pg_target = target\<rparr> g"
    using assms by (auto simp: stands_for_def persist_key_def g_def apply_mutation_def fun_eq_iff apply_grant_mutation_def split: if_splits)
  then show ?thesis by blast
qed

lemma cons_persist [grant_frame]: "preserves (consistent E A) (persist_grant_grouped E' kind caller target by_device)"
proof (cases "persist_key kind caller target")
  case (Some key)
  show ?thesis
    unfolding persist_grant_grouped_def Some option.case
    using persisted_stands [OF Some] by (blast intro: cons_submit)
qed (simp add: persist_grant_grouped_def preserves_intros)

lemma cons_connector [grant_frame]: "preserves (consistent E A) (persist_connector_grant_grouped E' caller connector tool by_device)"
proof (cases "CHR '':'' \<in> set connector \<or> CHR '':'' \<in> set tool")
  case False
  then show ?thesis
    unfolding persist_connector_grant_grouped_def if_not_P [OF False]
    by (intro cons_submit [of _ "GrantConnector caller connector tool"]) (simp add: stands_for_def apply_mutation_def)
qed (simp add: persist_connector_grant_grouped_def preserves_intros)

lemma cons_writer [grant_frame]:
  assumes "grants_env_ok E"
  shows "preserves (consistent E {}) (writer_round n E)"
  unfolding preserves_def
proof (intro allI impI)
  fix w
  assume w: "consistent E {} w"
  let ?w = "w\<lparr>gw_queue := []\<rparr>"
  have q: "\<forall>p\<in>set (gw_queue w). \<exists>g. stands_for p g" and w': "consistent E {} ?w"
    using w by (simp_all add: consistent_def audit_text_def store_def audited_def)
  obtain r v where c: "commit_batch n E (gw_queue w) ?w = (r, v)" by fastforce
  have "consistent E {} v" using cons_commit [OF assms q, of n] w' c by (cases r) (auto simp: triple_def dest!: spec [of _ ?w])
  moreover have "snd (writer_round n E w) = v" by (cases r) (simp_all add: writer_round_def bindS_def drain_def okS_def retS_def c)
  ultimately show "consistent E {} (snd (writer_round n E w))" by simp
qed

lemma cons_missing [grant_frame]: "preserves (consistent E A) (missing_grants E)"
  unfolding missing_grants_def load_grants_def read_grants_def audited_grant_keys_def by (intro grant_frame preserves_intros)

lemma cons_quarantine [grant_frame]: "preserves (consistent E A) (replace_file E QuarantinePath b)"
  by (auto simp: preserves_def replace_file_def bindS_def askG_def throwS_def modifyS_def split: replace_answer.splits)

lemma cons_reconcile [grant_frame]: "grants_env_ok E \<Longrightarrow> preserves (consistent E A) (reconcile_grants n E)"
  unfolding reconcile_grants_def by (intro grant_frame preserves_intros | simp)+

lemma cons_doctor [grant_frame]: "preserves (consistent E A) (doctor_check_grants_subset E)"
  unfolding doctor_check_grants_subset_def by (intro grant_frame preserves_intros)

lemma cons_record [grant_frame]: "grants_env_ok E \<Longrightarrow> preserves (consistent E {}) (record_grant_created E item)"
proof -
  assume ok: "grants_env_ok E"
  have "triple (consistent E {}) (record_grant_created E item) (\<lambda>_. consistent E {}) (consistent E {})"
    unfolding record_grant_created_def
    by (intro triple_bind [OF triple_conseq [OF record_batch_triple [OF ok, of "{}" "[item]"]]] triple_ret) (auto intro: consistent_mono)
  then show ?thesis unfolding preserves_def by (metis prod.collapse tripleD)
qed

lemma cons_step:
  assumes "grants_env_ok E" "grant_step E w w'" "consistent E {} w"
  shows "consistent E {} w'"
  using assms(2)
proof cases
  case (step_persist kind caller target by_device r)
  then show ?thesis by (rule preservesD [OF cons_persist assms(3)])
next
  case (step_connector caller connector tool by_device r)
  then show ?thesis by (rule preservesD [OF cons_connector assms(3)])
next
  case (step_writer n r)
  then show ?thesis by (rule preservesD [OF cons_writer [OF assms(1)] assms(3)])
next
  case (step_reconcile n r)
  then show ?thesis by (rule preservesD [OF cons_reconcile [OF assms(1)] assms(3)])
next
  case (step_remove n keys r)
  then show ?thesis by (rule preservesD [OF cons_remove [OF assms(1)] assms(3)])
next
  case (step_doctor r)
  then show ?thesis by (rule preservesD [OF cons_doctor assms(3)])
next
  case (step_record item r)
  then show ?thesis by (rule preservesD [OF cons_record [OF assms(1)] assms(3)])
next
  case (step_others t)
  then show ?thesis using assms(1,3) by (simp add: grants_env_ok_def rely_def)
qed

definition fresh :: "grant_world \<Rightarrow> bool" where
  "fresh w = (gw_grants w = None \<and> gw_audit w = None \<and> gw_queue w = [])"

lemma cons_reach:
  assumes "grants_env_ok E" "fresh w" "(grant_step E)\<^sup>*\<^sup>* w w'"
  shows "consistent E {} w'"
  using assms(3)
proof induction
  case base
  have "parse_map E [] = []" using assms(1) by (simp add: grants_env_ok_def store_ok_def parse_map_def)
  then show ?case using assms(2) by (simp add: consistent_def fresh_def audit_text_def store_def audited_def whole_def bytes_of_def)
qed (rule cons_step [OF assms(1)])

section \<open>What happens when nothing fails\<close>

text \<open>No other process interferes, every read, lock, append and replacement succeeds, and a set is listed in some order.\<close>

definition calm :: "grant_env \<Rightarrow> bool" where
  "calm E = (\<forall>t w xs. ge_read_ok E t \<and> ge_read_audit E t = None \<and> ge_lock E t = None \<and> ge_replace E t = Replaced \<and>
     ge_append E t = Appended \<and> ge_others E t w = w \<and> set (ge_order E t xs) = set xs)"

lemma calm_lock: "calm E \<Longrightarrow> lock_file E w = (Inr (), w\<lparr>gw_tick := Suc (Suc (gw_tick w))\<rparr>)"
  by (simp add: calm_def lock_file_def others_def bindS_def askG_def retS_def)

lemma calm_read: "calm E \<Longrightarrow> read_grants E w = (Inr (bytes_of (gw_grants w)), w\<lparr>gw_tick := Suc (gw_tick w)\<rparr>)"
  by (simp add: calm_def read_result)

lemma calm_replace: "calm E \<Longrightarrow> replace_file E path b w = (Inr (), put_file path b (w\<lparr>gw_tick := Suc (gw_tick w)\<rparr>))"
  by (simp add: calm_def replace_file_def bindS_def askG_def modifyS_def)

lemma calm_edit:
  assumes "calm E" "mutate (store E w) = Inr (x, m)"
  shows "\<exists>k. edit_grants (Suc n) E mutate w = (Inr (Some x), w\<lparr>gw_grants := Some (ge_to_vec_pretty E (JObj m)), gw_tick := k\<rparr>)"
  using assms(2) unfolding store_def
  by (simp add: bindS_def calm_read [OF assms(1)] calm_lock [OF assms(1)] calm_replace [OF assms(1)] retS_def) 
    (intro exI, rule grant_world.equality; simp)

lemma store_other [simp]:
  "store E (w\<lparr>gw_tick := k\<rparr>) = store E w" "store E (w\<lparr>gw_quarantine := q\<rparr>) = store E w" "store E (w\<lparr>gw_acks := a\<rparr>) = store E w"
  "store E (w\<lparr>gw_queue := ps\<rparr>) = store E w" "store E (w\<lparr>gw_audit := t\<rparr>) = store E w"
  by (simp_all add: store_def)

lemma audited_other [simp]:
  "audited E (w\<lparr>gw_tick := k\<rparr>) = audited E w" "audited E (w\<lparr>gw_quarantine := q\<rparr>) = audited E w" "audited E (w\<lparr>gw_acks := a\<rparr>) = audited E w"
  "audited E (w\<lparr>gw_queue := ps\<rparr>) = audited E w" "audited E (w\<lparr>gw_grants := t\<rparr>) = audited E w"
  by (simp_all add: audited_def audit_text_def)

lemma store_put: "store_ok E \<Longrightarrow> store E (w\<lparr>gw_grants := Some (ge_to_vec_pretty E (JObj m))\<rparr>) = m"
  by (simp add: store_def bytes_of_def parse_printed)

lemma missing_result:
  assumes "\<forall>t. ge_read_audit E t = None" "\<forall>t xs. set (ge_order E t xs) = set xs"
  shows "\<exists>b gs k. (b = bytes_of (gw_grants w) \<or> b = [] \<and> \<not> ge_read_ok E (gw_tick w)) \<and>
    missing_grants E w = (Inr (map grant_key gs), w\<lparr>gw_tick := k\<rparr>) \<and>
    set gs = {g. holds (parse_map E b) g \<and> grant_key g \<notin> audited E w}"
proof -
  let ?b = "if ge_read_ok E (gw_tick w) then bytes_of (gw_grants w) else []"
  define ks where "ks = filter (\<lambda>k. k \<notin> audited E w) (ge_order E (Suc (Suc (gw_tick w))) (remdups (flatten_grant_keys (parse_map E ?b))))"
  have m: "missing_grants E w = (Inr ks, w\<lparr>gw_tick := Suc (Suc (Suc (gw_tick w)))\<rparr>)"
    using assms(1)
    by (simp add: missing_grants_def load_grants_def read_grants_def audited_grant_keys_def bindS_def askG_def getS_def retS_def ks_def
        audited_def audit_text_def)
  have s: "set ks = {grant_key g | g. holds (parse_map E ?b) g \<and> grant_key g \<notin> audited E w}"
    using assms(2) by (auto simp: ks_def flatten_grants)
  then have "\<forall>k\<in>set ks. \<exists>g. k = grant_key g" by auto
  then obtain gs where gs: "ks = map grant_key gs" using ex_map_conv [of ks grant_key] by blast
  have "set gs = {g. holds (parse_map E ?b) g \<and> grant_key g \<notin> audited E w}"
  proof (intro set_eqI)
    fix g
    have "g \<in> set gs \<longleftrightarrow> grant_key g \<in> set ks" by (auto simp: gs)
    then show "g \<in> set gs \<longleftrightarrow> g \<in> {g. holds (parse_map E ?b) g \<and> grant_key g \<notin> audited E w}" by (auto simp: s)
  qed
  then show ?thesis using m gs by (intro exI [of _ ?b] exI [of _ gs] exI conjI) auto
qed

lemma missing_calm:
  assumes "calm E"
  shows "\<exists>gs k. missing_grants E w = (Inr (map grant_key gs), w\<lparr>gw_tick := k\<rparr>) \<and>
    set gs = {g. holds (store E w) g \<and> grant_key g \<notin> audited E w}"
proof -
  have c: "\<forall>t. ge_read_audit E t = None" "\<forall>t xs. set (ge_order E t xs) = set xs" "\<forall>t. ge_read_ok E t"
    using assms by (simp_all add: calm_def)
  show ?thesis using missing_result [OF c(1,2), of w] c(3) by (auto simp: store_def)
qed

lemma missing_none:
  assumes "store_ok E" "consistent E {} w" "\<forall>t. ge_read_audit E t = None" "\<forall>t xs. set (ge_order E t xs) = set xs"
  shows "\<exists>k. missing_grants E w = (Inr [], w\<lparr>gw_tick := k\<rparr>)"
proof -
  have nil: "parse_map E [] = []" using assms(1) by (simp add: store_ok_def parse_map_def)
  obtain b gs k where m: "b = bytes_of (gw_grants w) \<or> b = []" "missing_grants E w = (Inr (map grant_key gs), w\<lparr>gw_tick := k\<rparr>)"
      "set gs = {g. holds (parse_map E b) g \<and> grant_key g \<notin> audited E w}"
    using missing_result [OF assms(3,4), of w] by blast
  have "set gs = {}" using m(1,3) assms(2) nil by (auto simp: consistent_def store_def)
  then show ?thesis using m(2) by auto
qed



section \<open>The chain under batches\<close>

text \<open>The line of the last entry lies within the last 8192 bytes of the log, together with the end of the line before it.\<close>

definition last_line_fits :: "grant_env \<Rightarrow> audit_entry list \<Rightarrow> bool" where
  "last_line_fits E es = (es = [] \<or> length (audit_buffer E es) \<le> 8192 \<or> length (ge_to_line E (audit_json (last es))) < 8191)"

lemma whole_buffer: "whole (audit_buffer E es)"
  by (cases es rule: rev_cases) (simp_all add: audit_buffer_def whole_def)

lemma lines_of_buffer: "lines_ok E \<Longrightarrow> text_lines (audit_buffer E es) = map (\<lambda>e. ge_to_line E (audit_json e)) es"
  using buffer_lines(1) [of E "[]" es] by (simp add: whole_def text_lines_def)

lemma text_lines_nonempty: "v \<noteq> [] \<Longrightarrow> text_lines v \<noteq> []"
proof
  assume v: "v \<noteq> []" "text_lines v = []"
  then have "(if last (split_on newline v) = [] then butlast (split_on newline v) else split_on newline v) = []"
    by (simp add: text_lines_def Let_def)
  then have "split_on newline v = [[]]" by (cases "split_on newline v" rule: rev_cases) (auto split: if_splits)
  then show False using v(1) by (cases v) (auto split: if_splits list.splits)
qed

lemma last_hash_printed:
  assumes "lines_ok E" "ga_ts_ms e \<le> u64_max" "ls \<noteq> [] \<or> \<not> partial"
  shows "last_hash E partial (ge_to_line E (audit_json e) # ls) = Inr (Some (ga_entry_hash e))"
  using assms printed_trim [OF assms(1)] by (auto simp: Let_def audit_line_printed)

lemma last_entry_empty: "bytes_of f = [] \<Longrightarrow> last_entry_hash E f = Inr None"
  by (cases f) (simp_all add: last_entry_hash_def bytes_of_def)

lemma last_entry_of_buffer:
  assumes "lines_ok E" "timed es" "bytes_of f = audit_buffer E es"
  shows "last_entry_hash E f = Inr (if es \<noteq> [] \<and> last_line_fits E es then Some (ga_entry_hash (last es)) else None)"
proof (cases es rule: rev_cases)
  case Nil
  then show ?thesis using assms(3) last_entry_empty [of f E] by (simp add: audit_buffer_def)
next
  case (snoc es' e)
  let ?l = "ge_to_line E (audit_json e)" and ?u = "audit_buffer E es'"
  have t: "bytes_of f = ?u @ ?l @ [newline]" using assms(3) snoc by (simp add: audit_buffer_def)
  then have f: "f = Some (?u @ ?l @ [newline])" by (cases f) (simp_all add: bytes_of_def)
  have e: "ga_ts_ms e \<le> u64_max" using assms(2) snoc by (simp add: timed_def)
  have l: "one_line ?l" using assms(1) by (simp add: lines_ok_def)
  let ?n = "length (?u @ ?l @ [newline])"
  have len: "length (audit_buffer E es) = ?n" using t assms(3) by simp
  consider "?n \<le> 8192" | "?n > 8192" "length ?l < 8191" | "?n > 8192" "length ?l \<ge> 8191" by linarith
  then show ?thesis
  proof cases
    case 1
    have "text_lines (?u @ ?l @ [newline]) = map (\<lambda>e. ge_to_line E (audit_json e)) es"
      using lines_of_buffer [OF assms(1), of es] assms(3) t by simp
    then show ?thesis
      using 1 snoc last_hash_printed [OF assms(1) e] len by (simp add: f last_entry_hash_def Let_def last_line_fits_def min_def)
  next
    case 2
    define v where "v = drop (?n - 8192) ?u"
    have v: "v \<noteq> []" "drop (?n - 8192) (?u @ ?l @ [newline]) = v @ ?l @ [newline]" using 2 by (simp_all add: v_def)
    have "whole v" using whole_buffer [of E es'] v(1) by (auto simp: whole_def v_def)
    then have "text_lines (v @ ?l @ [newline]) = text_lines v @ [?l]" by (simp add: text_lines_append lines_of_one [OF l])
    then show ?thesis
      using 2 v snoc last_hash_printed [OF assms(1) e] text_lines_nonempty [OF v(1)]
      by (simp add: f last_entry_hash_def Let_def last_line_fits_def min_def)
  next
    case 3
    define v where "v = drop (?n - 8192 - length ?u) ?l"
    have v: "drop (?n - 8192) (?u @ ?l @ [newline]) = v @ [newline]" using 3 by (simp add: v_def)
    have "newline \<notin> set v" using l by (auto simp: v_def one_line_def dest: in_set_dropD)
    then have "text_lines (v @ [newline]) = [strip_cr v]" by (rule text_lines_line)
    then show ?thesis
      using 3 v snoc len by (simp add: f last_entry_hash_def Let_def last_line_fits_def min_def)
  qed
qed

lemma record_calm:
  assumes "calm E" "lines_ok E" "timed es" "audit_text w = audit_buffer E es"
  defines "p \<equiv> (if es \<noteq> [] \<and> last_line_fits E es then ga_entry_hash (last es) else GENESIS_GRANT_HASH)"
  shows "\<exists>new k. record_grants_created_batch E items w =
      (Inr new, w\<lparr>gw_audit := Some (audit_buffer E (es @ new)), gw_tick := k\<rparr>) \<and>
    chain_run (accept_entry E) p new \<noteq> None \<and> timed new \<and> map ga_grant_key new = map (\<lambda>(_, _, _, key). key) items"
proof -
  let ?w = "w\<lparr>gw_tick := Suc (Suc (Suc (gw_tick w)))\<rparr>"
  obtain new k where b: "build_entries E items p ?w = (Inr new, ?w\<lparr>gw_tick := k\<rparr>)" "chain_run (accept_entry E) p new \<noteq> None" "timed new"
      "map ga_grant_key new = map (\<lambda>(_, _, _, key). key) items"
    using build_entries_chain [OF assms(2), of items p ?w] by blast
  have t: "bytes_of (gw_audit w) = audit_buffer E es" using assms(4) by (simp add: audit_text_def)
  have h: "last_entry_hash E (gw_audit w) = Inr (if es \<noteq> [] \<and> last_line_fits E es then Some (ga_entry_hash (last es)) else None)"
    by (rule last_entry_of_buffer [OF assms(2,3) t])
  have p: "(case if es \<noteq> [] \<and> last_line_fits E es then Some (ga_entry_hash (last es)) else None of None \<Rightarrow> GENESIS_GRANT_HASH | Some h \<Rightarrow> h) = p"
    by (simp add: p_def)
  have c: "ge_read_audit E n = None" "ge_append E n = Appended" for n using assms(1) by (simp_all add: calm_def)
  have "record_grants_created_batch E items w = (Inr new, w\<lparr>gw_audit := Some (audit_buffer E (es @ new)), gw_tick := Suc k\<rparr>)"
    by (simp add: record_grants_created_batch_def bindS_def calm_lock [OF assms(1)] askG_def c getS_def h b(1) p append_audit_def modifyS_def
        extend_audit_def t retS_def audit_buffer_def del: not_None_eq)
  then show ?thesis using b by blast
qed

lemma verify_calm:
  assumes "calm E" "lines_ok E" "timed es" "audit_text w = audit_buffer E es"
  shows "fst (verify_grant_audit E w) = Inr n \<longleftrightarrow> chain_run (accept_entry E) GENESIS_GRANT_HASH es \<noteq> None \<and> n = length es"
proof (cases "gw_audit w")
  case None
  then have "es = []" using assms(4) by (cases es) (simp_all add: audit_text_def bytes_of_def audit_buffer_def)
  then show ?thesis using None assms(1) by (auto simp: verify_grant_audit_def bindS_def askG_def getS_def retS_def)
next
  case (Some t)
  then have t: "t = audit_buffer E es" using assms(4) by (simp add: audit_text_def bytes_of_def)
  have "fst (verify_grant_audit E w) = verify_lines E GENESIS_GRANT_HASH 0 0 (text_lines t)"
    using Some assms(1) by (simp add: verify_grant_audit_def bindS_def askG_def getS_def calm_def liftE_def)
  then show ?thesis
    by (simp add: verify_chain t lines_of_buffer [OF assms(2)] log_entries_printed [OF assms(2,3)])
qed

lemma chain_run_last: "chain_run (accept_entry E) g es = Some h \<Longrightarrow> h = (if es = [] then g else ga_entry_hash (last es))"
  by (cases es rule: rev_cases) (auto simp: chain_run_append accept_entry_Some split: option.splits)

lemma chain_start: "chain_run (accept_entry E) p es \<noteq> None \<Longrightarrow> chain_run (accept_entry E) q es \<noteq> None \<Longrightarrow> es \<noteq> [] \<Longrightarrow> p = q"
  by (cases es) (auto simp: accept_entry_def split: option.splits if_splits)

text \<open>
  C18. Appending a batch to a log that verifies gives a log that verifies with one entry more per grant, provided that the line of
  the last entry lies within the 8 KiB the writer reads back. When that line is longer, the writer starts a second chain from the
  genesis hash in the middle of the log, and verification fails from then on.
\<close>

theorem batch_extends_chain:
  assumes "calm E" "lines_ok E" "\<forall>x. ge_sha256 E x \<noteq> GENESIS_GRANT_HASH" "timed es" "audit_text w = audit_buffer E es"
    and "fst (verify_grant_audit E w) = Inr n" "items \<noteq> []"
  shows "\<exists>new w'. record_grants_created_batch E items w = (Inr new, w') \<and> audit_text w' = audit_buffer E (es @ new) \<and>
    map ga_grant_key new = map (\<lambda>(_, _, _, key). key) items \<and>
    (if last_line_fits E es then fst (verify_grant_audit E w') = Inr (n + length items) else \<exists>e. fst (verify_grant_audit E w') = Inl e)"
proof -
  define p where "p = (if es \<noteq> [] \<and> last_line_fits E es then ga_entry_hash (last es) else GENESIS_GRANT_HASH)"
  obtain new k where r: "record_grants_created_batch E items w = (Inr new, w\<lparr>gw_audit := Some (audit_buffer E (es @ new)), gw_tick := k\<rparr>)"
      "chain_run (accept_entry E) p new \<noteq> None" "timed new" "map ga_grant_key new = map (\<lambda>(_, _, _, key). key) items"
    using record_calm [OF assms(1,2,4,5), of items] unfolding p_def by blast
  let ?w = "w\<lparr>gw_audit := Some (audit_buffer E (es @ new)), gw_tick := k\<rparr>"
  have a: "audit_text ?w = audit_buffer E (es @ new)" by (simp add: audit_text_def bytes_of_def)
  have len: "length new = length items" using arg_cong [OF r(4), of length] by simp
  have tn: "timed (es @ new)" using assms(4) r(3) by (auto simp: timed_def)
  obtain h where h: "chain_run (accept_entry E) GENESIS_GRANT_HASH es = Some h" and n: "n = length es"
    using assms(6) verify_calm [OF assms(1,2,4,5)] by auto
  have v: "fst (verify_grant_audit E ?w) = Inr m \<longleftrightarrow> chain_run (accept_entry E) h new \<noteq> None \<and> m = n + length items" for m
    using verify_calm [OF assms(1,2) tn a] h n len by (simp add: chain_run_append)
  have "if last_line_fits E es then fst (verify_grant_audit E ?w) = Inr (n + length items) else \<exists>e. fst (verify_grant_audit E ?w) = Inl e"
  proof (cases "last_line_fits E es")
    case True
    then have "p = h" using chain_run_last [OF h] by (simp add: p_def)
    then show ?thesis using True v [of "n + length items"] r(2) by simp
  next
    case False
    then have es: "es \<noteq> []" by (auto simp: last_line_fits_def)
    have "h \<noteq> GENESIS_GRANT_HASH" using gac.chain_ends_in_digest [OF h es] assms(3) by simp
    then have "p \<noteq> h" using False by (auto simp: p_def)
    then have "chain_run (accept_entry E) h new = None" using chain_start [OF r(2)] len assms(7) by fastforce
    then show ?thesis using False v by (cases "fst (verify_grant_audit E ?w)") auto
  qed
  then show ?thesis using r(1,4) a by blast
qed

section \<open>Committed grants take effect\<close>

lemma list_at_push [simp]: "list_at k m \<Longrightarrow> list_at k (push_flat k' item m)"
  by (auto simp: list_at_def push_flat_def or_insert_def Let_def split: option.splits json.splits)

lemma lists_at_push [simp]:
  "k \<noteq> k' \<Longrightarrow> lists_at k c (push_flat k' item m) = lists_at k c m" "k \<noteq> k' \<Longrightarrow> list_at k (push_nested k' c' item m) = list_at k m"
  by (auto simp: lists_at_def list_at_def push_flat_def push_nested_def or_insert_def Let_def split: option.splits json.splits)

lemma lists_at_push_nested [simp]: "lists_at k c m \<Longrightarrow> lists_at k c (push_nested k' c' item m)"
  by (auto simp: lists_at_def push_nested_def or_insert_def Let_def split: option.splits json.splits)

lemma room_apply: "splittable g \<Longrightarrow> room m h \<Longrightarrow> room (apply_mutation (mutation g) m) h"
  by (cases g; cases h) (simp_all add: apply_mutation_def apply_grant_mutation_def split_once_no_sep)

lemma apply_pending_holds:
  "\<forall>p\<in>set batch. \<exists>g. stands_for p g \<and> room m g \<Longrightarrow>
   holds (apply_pending batch m) h \<longleftrightarrow> holds m h \<or> (\<exists>p\<in>set batch. stands_for p h)"
proof (induction batch arbitrary: m)
  case (Cons p batch)
  then obtain g where g: "stands_for p g" "room m g" by auto
  let ?m = "apply_mutation (mutation g) m"
  have p: "apply_pending (p # batch) m = apply_pending batch ?m" using g(1) by (simp add: apply_pending_def stands_for_def)
  have "\<forall>p\<in>set batch. \<exists>g. stands_for p g \<and> room ?m g" using Cons.prems g(1) room_apply by (fastforce simp: stands_for_def)
  then have "holds (apply_pending batch ?m) h \<longleftrightarrow> holds ?m h \<or> (\<exists>p\<in>set batch. stands_for p h)" by (rule Cons.IH)
  moreover have "holds ?m h \<longleftrightarrow> holds m h \<or> h = g" using g holds_apply by (auto simp: stands_for_def)
  moreover have "stands_for p h \<longleftrightarrow> h = g" using g(1) by (auto simp: stands_for_def)
  ultimately show ?case unfolding p by auto
qed (simp add: apply_pending_def)

lemma writer_calm:
  assumes "calm E" "lines_ok E" "timed es" "audit_text w = audit_buffer E es" "gw_queue w \<noteq> []"
  shows "\<exists>new j. writer_round (Suc n) E w = (Inr (), w\<lparr>gw_queue := [], gw_audit := Some (audit_buffer E (es @ new)),
      gw_grants := Some (ge_to_vec_pretty E (JObj (apply_pending (gw_queue w) (store E w)))), gw_tick := j,
      gw_acks := gw_acks w @ map (\<lambda>p. (p, Inr ())) (gw_queue w)\<rparr>) \<and>
    timed new \<and> ga_grant_key ` set new = pg_key ` set (gw_queue w)"
proof -
  let ?q = "gw_queue w" and ?w = "w\<lparr>gw_queue := []\<rparr>"
  have a: "audit_text ?w = audit_buffer E es" using assms(4) by (simp add: audit_text_def)
  obtain new k where r: "record_grants_created_batch E (map audit_item ?q) ?w =
        (Inr new, ?w\<lparr>gw_audit := Some (audit_buffer E (es @ new)), gw_tick := k\<rparr>)"
      "timed new" "map ga_grant_key new = map (\<lambda>(_, _, _, key). key) (map audit_item ?q)"
    using record_calm [OF assms(1,2,3) a, of "map audit_item ?q"] by blast
  let ?w1 = "?w\<lparr>gw_audit := Some (audit_buffer E (es @ new)), gw_tick := k\<rparr>"
  let ?b = "ge_to_vec_pretty E (JObj (apply_pending ?q (store E w)))"
  obtain j where e: "edit_grants (Suc n) E (\<lambda>m. Inr ((), apply_pending ?q m)) ?w1 = (Inr (Some ()), ?w1\<lparr>gw_grants := Some ?b, gw_tick := j\<rparr>)"
    using calm_edit [OF assms(1), of "\<lambda>m. Inr ((), apply_pending ?q m)" ?w1 "()" "apply_pending ?q (store E w)" n] by auto
  have "writer_round (Suc n) E w = (Inr (), ?w1\<lparr>gw_grants := Some ?b, gw_tick := j, gw_acks := gw_acks w @ map (\<lambda>p. (p, Inr ())) ?q\<rparr>)"
    using assms(5)
    by (simp add: writer_round_def drain_def bindS_def commit_batch_def attemptS_def r(1) e okS_def ack_all_def modifyS_def retS_def
        del: edit_grants.simps)
  moreover have "ga_grant_key ` set new = pg_key ` set ?q" using arg_cong [OF r(3), of set] by (simp add: image_image audit_item_def)
  ultimately show ?thesis using r(2) by (intro exI [of _ new] exI [of _ j]) simp
qed

text \<open>
  C22. One round of the writer, when nothing fails, empties the queue, appends an audit entry for every queued write, adds exactly
  the queued grants to the grants file and acknowledges every caller with success. The lists the grants go to must have the
  expected shape in the file.
\<close>

theorem writer_commits_queue:
  assumes "calm E" "lines_ok E" "store_ok E" "timed es" "audit_text w = audit_buffer E es"
    and "\<forall>p\<in>set (gw_queue w). \<exists>g. stands_for p g \<and> room (store E w) g"
  shows "\<exists>w'. writer_round (Suc n) E w = (Inr (), w') \<and> gw_queue w' = [] \<and>
    gw_acks w' = gw_acks w @ map (\<lambda>p. (p, Inr ())) (gw_queue w) \<and>
    (\<forall>g. holds (store E w') g \<longleftrightarrow> holds (store E w) g \<or> (\<exists>p\<in>set (gw_queue w). stands_for p g)) \<and>
    audited E w' = audited E w \<union> pg_key ` set (gw_queue w)"
proof (cases "gw_queue w = []")
  case True
  then show ?thesis by (simp add: writer_round_def drain_def bindS_def commit_batch_def okS_def retS_def)
next
  case False
  let ?w2 = "\<lambda>new j. w\<lparr>gw_queue := [], gw_audit := Some (audit_buffer E (es @ new)),
      gw_grants := Some (ge_to_vec_pretty E (JObj (apply_pending (gw_queue w) (store E w)))), gw_tick := j,
      gw_acks := gw_acks w @ map (\<lambda>p. (p, Inr ())) (gw_queue w)\<rparr>"
  obtain new j where c: "writer_round (Suc n) E w = (Inr (), ?w2 new j)" and k: "timed new" "ga_grant_key ` set new = pg_key ` set (gw_queue w)"
    using writer_calm [OF assms(1,2,4,5) False] by blast
  have s: "store E (?w2 new j) = apply_pending (gw_queue w) (store E w)" by (simp add: store_def bytes_of_def parse_printed [OF assms(3)])
  have "audited E (?w2 new j) = audited E w \<union> pg_key ` set (gw_queue w)"
    using keys_in_append [OF assms(2) whole_buffer k(1), of E es] assms(5) k(2)
    by (simp add: audited_def audit_text_def bytes_of_def audit_buffer_def)
  then show ?thesis
    using apply_pending_holds [OF assms(6)] by (intro exI [of _ "?w2 new j"] conjI c allI) (simp_all only: s, simp_all)
qed

section \<open>A home with one connector grant\<close>

text \<open>Lines of at least \<open>pad\<close> bytes.\<close>

definition ex_grant_env :: "nat \<Rightarrow> grant_env" where
  "ex_grant_env pad = \<lparr>ge_parse = (\<lambda>s. ex_parse (drop pad s)), ge_to_vec_pretty = (\<lambda>v. replicate pad CHR ''{'' @ ex_text v),
     ge_to_line = (\<lambda>v. replicate pad CHR ''{'' @ ex_text v), ge_to_vec = ex_text, ge_sha256 = (\<lambda>s. CHR ''h'' # s), ge_now = (\<lambda>t. 5),
     ge_uuid = (\<lambda>t. ''u''), ge_read_ok = (\<lambda>t. True), ge_read_audit = (\<lambda>t. None), ge_lock = (\<lambda>t. None), ge_replace = (\<lambda>t. Replaced),
     ge_append = (\<lambda>t. Appended), ge_others = (\<lambda>t w. w), ge_order = (\<lambda>t xs. xs),
     ge_writer_finished = (\<lambda>t. False)\<rparr>"

definition ex_queued :: pending_grant where
  "ex_queued = \<lparr>pg_actor = ''human:phone'', pg_scope = ''connector'', pg_tool = ''connector'', pg_key = ''connector:s:github:search'',
     pg_kind = ''connector'', pg_caller = ''s'', pg_target = Some ''github:search''\<rparr>"

definition ex_grant_world :: grant_world where
  "ex_grant_world = \<lparr>gw_grants = None, gw_audit = None, gw_quarantine = None, gw_queue = [], gw_acks = [], gw_tick = 0\<rparr>"

lemma ex_calm: "calm (ex_grant_env pad)"
  by (simp add: calm_def ex_grant_env_def)

lemma ex_padded: "one_line (replicate pad CHR ''{'' @ ex_text v)"
proof -
  have "trim (replicate pad CHR ''{'' @ ex_text v) = replicate pad CHR ''{'' @ ex_text v"
    by (rule trim_id) (cases pad; simp add: ex_text_def is_space_def byte_of_def)+
  then show ?thesis using ex_text_line(1) [of v] by (auto simp: one_line_def newline_def)
qed

lemma ex_env_ok: "grants_env_ok (ex_grant_env pad)"
  using ex_padded ex_text_line(2)
  by (simp add: grants_env_ok_def lines_ok_def store_ok_def audit_whole_def rely_def ex_grant_env_def ex_parse_def u64_max_def)

lemma ex_oks: "lines_ok (ex_grant_env pad)" "store_ok (ex_grant_env pad)"
  using ex_env_ok [of pad] by (simp_all add: grants_env_ok_def)

lemma ex_stands: "stands_for ex_queued (GrantConnector ''s'' ''github'' ''search'')"
  by (simp add: stands_for_def ex_queued_def apply_mutation_def key4_def)

lemma ex_submitted: "persist_connector_grant_grouped (ex_grant_env 0) ''s'' ''github'' ''search'' (Some ''phone'') ex_grant_world =
    (Inr (), ex_grant_world\<lparr>gw_queue := [ex_queued], gw_tick := 1\<rparr>)"
  by (simp add: persist_connector_grant_grouped_def submit_def bindS_def askG_def modifyS_def human_actor_def key4_def ex_grant_world_def ex_queued_def
      ex_grant_env_def)

lemma ex_empty: "store (ex_grant_env pad) (ex_grant_world\<lparr>gw_queue := q, gw_tick := k\<rparr>) = []" "audit_text (ex_grant_world\<lparr>gw_queue := q, gw_tick := k\<rparr>) = []"
  by (simp_all add: store_def audit_text_def ex_grant_world_def bytes_of_def parse_map_def ex_grant_env_def ex_parse_def)

lemma ex_empty0: "store (ex_grant_env pad) ex_grant_world = []" "audit_text ex_grant_world = []" "gw_acks ex_grant_world = []"
  by (simp_all add: store_def audit_text_def ex_grant_world_def bytes_of_def parse_map_def ex_grant_env_def ex_parse_def)

lemma ex_room: "room [] g"
  by (cases g) (simp_all add: lists_at_def)

theorem writer_commits_queue_witness:
  "\<exists>w'. writer_round 1 (ex_grant_env 0) (snd (persist_connector_grant_grouped (ex_grant_env 0) ''s'' ''github'' ''search'' (Some ''phone'') ex_grant_world)) =
     (Inr (), w') \<and> gw_acks w' = [(ex_queued, Inr ())] \<and> holds (store (ex_grant_env 0) w') (GrantConnector ''s'' ''github'' ''search'')"
proof -
  let ?E = "ex_grant_env 0" and ?w = "ex_grant_world\<lparr>gw_queue := [ex_queued], gw_tick := 1\<rparr>"
  have "\<exists>w'. writer_round (Suc 0) ?E ?w = (Inr (), w') \<and> gw_queue w' = [] \<and>
      gw_acks w' = gw_acks ?w @ map (\<lambda>p. (p, Inr ())) (gw_queue ?w) \<and>
      (\<forall>g. holds (store ?E w') g \<longleftrightarrow> holds (store ?E ?w) g \<or> (\<exists>p\<in>set (gw_queue ?w). stands_for p g)) \<and>
      audited ?E w' = audited ?E ?w \<union> pg_key ` set (gw_queue ?w)"
    by (rule writer_commits_queue [of ?E "[]"])
      (use ex_calm ex_oks ex_stands ex_room in \<open>auto simp: timed_def ex_empty ex_empty0 audit_buffer_def\<close>)
  then obtain w' where "writer_round (Suc 0) ?E ?w = (Inr (), w')" "gw_acks w' = [(ex_queued, Inr ())]"
      "\<forall>g. holds (store ?E w') g \<longleftrightarrow> stands_for ex_queued g"
    by (auto simp: ex_empty ex_empty0)
  then show ?thesis using ex_stands by (simp add: ex_submitted del: holds.simps)
qed



text \<open>Lines of more than 8 KiB: the first batch verifies and the second does not.\<close>

theorem batch_extends_chain_witness:
  "\<exists>w1 w2. snd (record_grants_created_batch (ex_grant_env 9000) [(''a'', ''write'', ''write'', ''k'')] ex_grant_world) = w1 \<and>
     fst (verify_grant_audit (ex_grant_env 9000) w1) = Inr 1 \<and>
     snd (record_grants_created_batch (ex_grant_env 9000) [(''a'', ''write'', ''write'', ''k'')] w1) = w2 \<and>
     (\<exists>e. fst (verify_grant_audit (ex_grant_env 9000) w2) = Inl e)"
proof -
  let ?E = "ex_grant_env 9000" and ?i = "[(''a'', ''write'', ''write'', ''k'')] :: (string \<times> string \<times> string \<times> string) list"
  note E = ex_calm [of 9000] ex_oks(1) [of 9000]
  have g: "\<forall>x. ge_sha256 ?E x \<noteq> GENESIS_GRANT_HASH" by (simp add: ex_grant_env_def GENESIS_GRANT_HASH_def)
  have a0: "audit_text ex_grant_world = audit_buffer ?E []" by (simp add: ex_empty0 audit_buffer_def)
  have v0: "fst (verify_grant_audit ?E ex_grant_world) = Inr 0" using verify_calm [OF E _ a0] by (simp add: timed_def)
  obtain new k where r: "record_grants_created_batch ?E ?i ex_grant_world =
      (Inr new, ex_grant_world\<lparr>gw_audit := Some (audit_buffer ?E ([] @ new)), gw_tick := k\<rparr>)" "timed new"
    using record_calm [OF E _ a0, of ?i] by (auto simp: timed_def)
  let ?w1 = "ex_grant_world\<lparr>gw_audit := Some (audit_buffer ?E ([] @ new)), gw_tick := k\<rparr>"
  have v1: "fst (verify_grant_audit ?E ?w1) = Inr 1" and l: "length new = 1"
    using batch_extends_chain [OF E g _ a0 v0, of ?i] r by (auto simp: timed_def last_line_fits_def dest: arg_cong [of _ _ length])
  then obtain e where n: "new = [e]" by (cases new) auto
  have "\<not> last_line_fits ?E new" by (simp add: n last_line_fits_def audit_buffer_def ex_grant_env_def)
  moreover have "audit_text ?w1 = audit_buffer ?E new" by (simp add: audit_text_def bytes_of_def)
  ultimately have "\<exists>e. fst (verify_grant_audit ?E (snd (record_grants_created_batch ?E ?i ?w1))) = Inl e"
    using batch_extends_chain [OF E g r(2) _ v1, of ?i] by auto
  then show ?thesis using r(1) v1 by simp
qed

end
