(* ===== verification/Spec2Isabelle.thy ===== *)
theory Spec2Isabelle
  imports Scheduler Hook_Outbox Grant_Audit
begin

text \<open>
  A verification library for the action gate of supercli: everything that decides whether a tool call of an agent reaches a
  connector, what is recorded about it, and what happens to it after a crash. It is to be read with the crates under
  \<^verbatim>\<open>src/crates\<close>; the lines of each definition are listed in the manifest of the development.

  \<^bold>\<open>The program and its parts.\<close> An agent session owns a set of connectors. A call passes the gate of
  \<^verbatim>\<open>session_connectors.rs\<close>: the tool is looked up, the approval policy decides (\<^verbatim>\<open>supercli-connector\<close>), a rate limiter may refuse, a
  lease fence stops workers that lost their schedule, a review is written to a hash-chained log (\<^verbatim>\<open>action_reviews.rs\<close>), document
  hooks may veto (\<^verbatim>\<open>supercli-events\<close>), the connector is called, and the outcome of the call is written behind the review.
  Unattended sessions are driven by the scheduler of \<^verbatim>\<open>scheduled.rs\<close>: a tick claims a lease (\<^verbatim>\<open>schedule_leases.rs\<close>), checks what a
  crashed predecessor left in doubt, and runs the task over a durable step journal (\<^verbatim>\<open>durable_runs.rs\<close>). Events about documents
  are delivered to observer hooks through an outbox. Approvals that are remembered are grants, stored next to an audit chain of their own.

  \<^bold>\<open>Theories.\<close>
  \<^item> \<^verbatim>\<open>Prelude\<close>: machine arithmetic, strings, JSON values, the state-and-error monad with its rules for invariants
    (\<open>preserves\<close>), triples and totality, and SQL connections whose statements may fail.
  \<^item> \<^verbatim>\<open>Fencing\<close>, \<^verbatim>\<open>Hash_Chain\<close>: the contracts of a token store and of a hash-chained log, as locales with the lemmas their clients
    use; interpreted on the lease table, the review log and the grant audit log. \<^verbatim>\<open>Text_Files\<close>: append-only text files, their lines and torn writes.
  \<^item> \<^verbatim>\<open>Schedule_Leases\<close> (\<^verbatim>\<open>schedule_leases.rs\<close>): rows behind an SQL connection, \<open>claim\<close>, \<open>renew\<close>, \<open>release\<close>, the fence. Shown: a fence
    passes only for the last claim under any interleaving; a claim refines an atomic specification.
  \<^item> \<^verbatim>\<open>Action_Reviews\<close> (\<^verbatim>\<open>action_reviews.rs\<close>, counters of \<^verbatim>\<open>profile.rs\<close>): the review log with its writers, verifier, in-flight scan and
    migration. Shown: the log verifies after any calls and disk failures; the last line pins the log up to a hash collision.
  \<^item> \<^verbatim>\<open>Durable_Runs\<close> (\<^verbatim>\<open>durable_runs.rs\<close>): runs, steps, budgets, reconciliation and resumption. Shown: opaque steps run at most once,
    resume plans are sound, budgets bound what is recorded.
  \<^item> \<^verbatim>\<open>Connectors\<close>, \<^verbatim>\<open>Rate_Limit\<close>: manifests, policies, attachments, call errors; token buckets. Shown: accepted manifests are well formed, admitted calls are bounded
    per window.
  \<^item> \<^verbatim>\<open>Session_Connectors\<close> (\<^verbatim>\<open>session_connectors.rs\<close>): the gate. Shown: no call without a recorded review, the policy decides, a stale
    worker acts on nothing, no review is left in flight, clean failures are definite.
  \<^item> \<^verbatim>\<open>Schedules\<close>, \<^verbatim>\<open>Scheduled_Runner\<close>, \<^verbatim>\<open>Scheduled_Triggers\<close>, \<^verbatim>\<open>Scheduler\<close> (\<^verbatim>\<open>scheduled.rs\<close>): validation and registry, one trigger with attempts and
    retries, the tick of the daemon. The runner is written over the trait \<^verbatim>\<open>ScheduledToolExecutor\<close> as a record of operations; the locale
    \<open>tool_executor\<close> is its contract, interpreted on the session gate. Shown: bounded calls, restored sessions, one audit line, takeovers
    fire exactly when every review is resolved.
  \<^item> \<^verbatim>\<open>Hook_Registry\<close>, \<^verbatim>\<open>Hook_Dispatch\<close>, \<^verbatim>\<open>Hook_Outbox\<close> (\<^verbatim>\<open>supercli-events\<close>, \<^verbatim>\<open>hook_observer.rs\<close>): declarations and their order, running handlers, the
    tighten-only combination, patches, audit entries, the outbox files and the delivery worker. Shown: hooks only tighten, a failing
    hook stops the call at the gate, every run is on record, the outbox refines a map with acknowledgements and is drained.
  \<^item> \<^verbatim>\<open>Grant_Store\<close>, \<^verbatim>\<open>Grant_Audit\<close> (\<^verbatim>\<open>grant_store.rs\<close>, \<^verbatim>\<open>grant_audit.rs\<close>, \<^verbatim>\<open>grant_writer.rs\<close>): the grants file with its keys and optimistic edits, the
    audit chain, the group-commit writer, reconciliation and the doctor check. Shown: every grant has an audit entry after any operations
    and failures, reconciliation keeps exactly the audited grants, a round of the writer commits its queue, and when a batch extends the chain.

  \<^bold>\<open>Conventions.\<close> Fallible code is a function from a state to an error or a value and the next state, so the state after a failure is part
  of the model. What the sources only call (clocks, fresh identifiers, processes, sockets, connectors, prompts, parsers of TOML and JSON
  text, SHA-256, the iteration order of hash maps) is a field of an environment record and may answer differently each time it is asked; a counter in
  the state numbers the questions. A theorem that needs more of such code (parsing inverts printing, the disk is healthy) says so in a named premise, and its
  witness instantiates the environment with concrete functions. File systems and databases fail by such answers as well.

  \<^bold>\<open>Bounds and fuel.\<close> Loops are structural or have a termination proof: the wait for a hook command ends because each poll is five
  milliseconds later, a webhook response because it is cut at one megabyte, retries because the schedule limits them to three. The passes of the
  outbox worker are counted by a number, the polls until shutdown. An optimistic edit of
  the grants file retries for a given number of rounds; invariants hold for every number, and one round is enough when no other process
  changes the file (\<^verbatim>\<open>calm_edit\<close>). No other loop is cut short.

  \<^bold>\<open>Limits.\<close> The rate limiter uses exact rationals for \<^verbatim>\<open>f64\<close>. The lock files of the review log are one fallible step. In
  \<^verbatim>\<open>Session_Connectors\<close> the hook is an answer of the environment that leaves the review log alone; the entries a hook run adds are modelled in
  \<^verbatim>\<open>Hook_Dispatch\<close>, on the log of its own world. Threads are represented by sequences of steps.

  \<^bold>\<open>Not modelled.\<close> Table creation and migrations (SQL text); spawning connector processes, HTTP and the MCP handshake; OAuth, keychain,
  signatures and bundles; the session host with its pseudo-terminals; the MCP servers beyond the connector proxy; controller, relay, direct and SSH
  connections and their cryptography; the HTTP server, the command line, the terminal and native user interfaces, device control, backups, plugins and the
  runtime adapters. These parts are input and output, third-party protocols or user interface, and have no state of their own that the gate
  depends on.
\<close>

end
